(* ===== verification/Prelude.thy ===== *)
theory Prelude
  imports Main "HOL-Library.Word"
begin

text \<open>
  Shared vocabulary of the development: the machine-integer types of the C++ sources, the
  exceptions the sources throw and the result types of code that may throw, 32-bit signed
  addition with its undefined overflow, the theorem collections the component theories fill,
  and the generic lemmas on options, maps and lists they share.
\<close>

section \<open>Theorem collections\<close>

named_theorems codec_simps \<open>byte order, length prefixes and frames\<close>
named_theorems container_simps \<open>the standard containers\<close>
named_theorems conn_simps \<open>the connection machine\<close>
named_theorems world_simps \<open>the game world and its service\<close>
named_theorems client_simps \<open>request and connection management on the client\<close>

section \<open>Machine integers\<close>

type_synonym u8 = "8 word"
type_synonym u16 = "16 word"
type_synonym u32 = "32 word"
type_synonym u64 = "64 word"

text \<open>
  A C++ \<open>int\<close> is 32 bits wide on the platforms the build files admit. It is kept as a
  mathematical integer here together with its range, because signed overflow is undefined
  behaviour and not wrap-around: \<open>add_int32\<close> is \<open>None\<close> there.
\<close>

definition int32_min :: int where "int32_min = - (2 ^ 31)"
definition int32_max :: int where "int32_max = 2 ^ 31 - 1"

definition in_int32 :: "int \<Rightarrow> bool" where
  "in_int32 i \<longleftrightarrow> int32_min \<le> i \<and> i \<le> int32_max"

definition add_int32 :: "int \<Rightarrow> int \<Rightarrow> int option" where
  "add_int32 a b = (if in_int32 (a + b) then Some (a + b) else None)"

lemma in_int32_0 [simp]: "in_int32 0"
  by (simp add: in_int32_def int32_min_def int32_max_def)

lemma add_int32_Some_iff [simp]: "add_int32 a b = Some c \<longleftrightarrow> in_int32 c \<and> c = a + b"
  by (auto simp: add_int32_def)

lemma add_int32_None_iff [simp]: "add_int32 a b = None \<longleftrightarrow> \<not> in_int32 (a + b)"
  by (auto simp: add_int32_def)

lemma add_int32_0: "in_int32 a \<Longrightarrow> add_int32 a 0 = Some a"
  by simp

section \<open>Errors\<close>

text \<open>
  \<open>error_code\<close> stands for \<open>boost::system::error_code\<close>; the codes the sources compare with
  are constructors, any other code is \<open>Ec_other\<close>. \<open>exn\<close> has one constructor per exception
  class the sources throw, with the text they pass to it. A fault of a function is either a
  thrown exception or undefined behaviour.
\<close>

datatype error_code =
    Ec_success
  | Ec_operation_aborted
  | Ec_bad_descriptor
  | Ec_eof
  | Ec_other nat

datatype exn =
    Invalid_argument string
  | Runtime_error string
  | Logic_error string
  | System_error error_code string

type_synonym 'a result = "exn + 'a"

datatype fault = Thrown exn | Undefined_behaviour

text \<open>
  \<open>std::exception::what\<close>: the text given to the constructor; a \<open>system_error\<close> appends the
  text of its code, which the operating system supplies (the parameter \<open>ec_text\<close>).
\<close>

fun exn_what :: "(error_code \<Rightarrow> string) \<Rightarrow> exn \<Rightarrow> string" where
  "exn_what ec_text (Invalid_argument s) = s"
| "exn_what ec_text (Runtime_error s) = s"
| "exn_what ec_text (Logic_error s) = s"
| "exn_what ec_text (System_error ec s) = s @ '': '' @ ec_text ec"

section \<open>Text\<close>

text \<open>\<open>std::to_string\<close> of an unsigned number.\<close>

fun to_string :: "nat \<Rightarrow> string" where
  "to_string n =
     (if n < 10 then [''0123456789'' ! n] else to_string (n div 10) @ [''0123456789'' ! (n mod 10)])"

declare to_string.simps [simp del]

section \<open>Comparison\<close>

text \<open>
  \<open>std::strong_ordering\<close> and the three-way comparison of values of an ordered type; the relational
  operators of a class are derived from its \<open>operator<=>\<close>, as the compiler rewrites them.
\<close>

datatype ordering = Ord_less | Ord_equal | Ord_greater

definition three_way :: "'a::linorder \<Rightarrow> 'a \<Rightarrow> ordering" where
  "three_way a b = (if a < b then Ord_less else if b < a then Ord_greater else Ord_equal)"

section \<open>Generic lemmas\<close>

lemma inj_on_dom_iff:
  "inj_on m (dom m) \<longleftrightarrow> (\<forall>x y v. m x = Some v \<longrightarrow> m y = Some v \<longrightarrow> x = y)"
  unfolding inj_on_def dom_def by (fastforce simp: not_None_eq)

lemma inj_on_dom_upd:
  "inj_on m (dom m) \<Longrightarrow> v \<notin> ran m \<Longrightarrow> inj_on (m(k \<mapsto> v)) (dom (m(k \<mapsto> v)))"
  unfolding inj_on_dom_iff ran_def by auto

lemma inj_on_dom_del: "inj_on m (dom m) \<Longrightarrow> inj_on (m(k := None)) (dom (m(k := None)))"
  unfolding inj_on_dom_iff by auto

lemma ran_del_inj:
  "inj_on m (dom m) \<Longrightarrow> m k = Some v \<Longrightarrow> ran (m(k := None)) = ran m - {v}"
  unfolding inj_on_dom_iff ran_def by auto (metis option.inject)

lemma unat_inc_no_wrap:
  fixes w :: "'a::len word"
  assumes "Suc (unat w) < 2 ^ LENGTH('a)"
  shows "unat (w + 1) = Suc (unat w)"
  using assms by (simp add: unat_word_ariths)

text \<open>Mapping and filtering at once.\<close>

lemma map_filter_append: "List.map_filter f (xs @ ys) = List.map_filter f xs @ List.map_filter f ys"
  by (simp add: List.map_filter_def)

lemma map_filter_single: "List.map_filter f [x] = (case f x of None \<Rightarrow> [] | Some y \<Rightarrow> [y])"
  by (simp add: List.map_filter_def split: option.splits)

lemma map_filter_none: "\<forall>x \<in> set xs. f x = None \<Longrightarrow> List.map_filter f xs = []"
  by (simp add: List.map_filter_def)

section \<open>Machines\<close>

text \<open>
  The components are machines: a partial function that makes the step of an event. \<open>runs\<close> makes
  the steps of a list of events.
\<close>

fun runs :: "('e \<Rightarrow> 's \<Rightarrow> 's option) \<Rightarrow> 'e list \<Rightarrow> 's \<Rightarrow> 's option" where
  "runs step [] s = Some s"
| "runs step (e # es) s = Option.bind (step e s) (runs step es)"

lemma runs_append: "runs step (es @ fs) s = Option.bind (runs step es s) (runs step fs)"
  by (induction es arbitrary: s) (auto simp: Option.bind_assoc split: Option.bind_split)

text \<open>What a step extends, a run extends: the traces of a machine.\<close>

locale traced_machine =
  fixes step :: "'e \<Rightarrow> 's \<Rightarrow> 's option" and reached :: "'e list \<Rightarrow> 's \<Rightarrow> bool"
  assumes extend: "reached es s \<Longrightarrow> step e s = Some s' \<Longrightarrow> reached (es @ [e]) s'"
begin

lemma runs_reached: "reached es s \<Longrightarrow> runs step fs s = Some s' \<Longrightarrow> reached (es @ fs) s'"
proof (induction fs arbitrary: es s)
  case (Cons f fs)
  then obtain s1 where s1: "step f s = Some s1" "runs step fs s1 = Some s'"
    by (auto split: Option.bind_splits)
  from Cons.IH [OF extend [OF Cons.prems(1) s1(1)] s1(2)] show ?case by simp
qed simp

end

text \<open>An invariant of a machine: what every step preserves, every run preserves.\<close>

locale machine_invariant =
  fixes step :: "'e \<Rightarrow> 's \<Rightarrow> 's option" and inv :: "'s \<Rightarrow> bool"
  assumes step_inv: "inv s \<Longrightarrow> step e s = Some s' \<Longrightarrow> inv s'"

sublocale machine_invariant \<subseteq> trace: traced_machine step "\<lambda>_. inv"
  by unfold_locales (rule step_inv)

context machine_invariant begin

lemmas runs_inv = trace.runs_reached

end

end
