(* ===== verification/Std_Containers.thy ===== *)
theory Std_Containers
  imports Prelude
begin

text \<open>
  The standard containers the sources keep their state in. \<open>std::map\<close> is an association
  list strictly sorted by key, so that iterating it visits the keys in ascending order as the
  standard prescribes; \<open>std::unordered_map\<close> is a finite partial function, so that nothing can
  depend on an iteration order. Both provide the operations the sources call (\<open>find\<close>,
  \<open>emplace\<close>, \<open>insert_or_assign\<close>, \<open>erase\<close>) and satisfy the contract \<open>assoc_container\<close>, inside
  which the lemmas the components use are proved once.
\<close>

section \<open>The contract of an associative container\<close>

locale assoc_container =
  fixes ok :: "'m \<Rightarrow> bool"
    and find :: "'m \<Rightarrow> 'k \<Rightarrow> 'v option"
    and empty :: "'m"
    and emplace :: "'k \<Rightarrow> 'v \<Rightarrow> 'm \<Rightarrow> 'm"
    and assign :: "'k \<Rightarrow> 'v \<Rightarrow> 'm \<Rightarrow> 'm"
    and erase :: "'k \<Rightarrow> 'm \<Rightarrow> 'm"
  assumes ok_empty: "ok empty"
    and ok_emplace: "ok m \<Longrightarrow> ok (emplace k v m)"
    and ok_assign: "ok m \<Longrightarrow> ok (assign k v m)"
    and ok_erase: "ok m \<Longrightarrow> ok (erase k m)"
    and find_empty: "find empty = Map.empty"
    and find_emplace: "ok m \<Longrightarrow>
          find (emplace k v m) = (if find m k = None then (find m)(k \<mapsto> v) else find m)"
    and find_assign: "ok m \<Longrightarrow> find (assign k v m) = (find m)(k \<mapsto> v)"
    and find_erase: "ok m \<Longrightarrow> find (erase k m) = (find m)(k := None)"
begin

lemmas ok_intros = ok_empty ok_emplace ok_assign ok_erase
lemmas find_simps = find_empty find_emplace find_assign find_erase

lemma dom_emplace: "ok m \<Longrightarrow> dom (find (emplace k v m)) = insert k (dom (find m))"
  by (auto simp: find_emplace)

lemma emplace_keeps: "ok m \<Longrightarrow> find m k = Some v' \<Longrightarrow> find (emplace k v m) = find m"
  by (simp add: find_emplace)

lemma emplace_fresh: "ok m \<Longrightarrow> find m k = None \<Longrightarrow> find (emplace k v m) = (find m)(k \<mapsto> v)"
  by (simp add: find_emplace)

lemma assign_fresh_eq_emplace:
  "ok m \<Longrightarrow> find m k = None \<Longrightarrow> find (assign k v m) = find (emplace k v m)"
  by (simp add: find_emplace find_assign)

lemma erase_absent: "ok m \<Longrightarrow> find m k = None \<Longrightarrow> find (erase k m) = find m"
  by (auto simp: find_erase)

lemma inj_assign:
  "ok m \<Longrightarrow> inj_on (find m) (dom (find m)) \<Longrightarrow> v \<notin> ran (find m) \<Longrightarrow>
     inj_on (find (assign k v m)) (dom (find (assign k v m)))"
  unfolding find_assign by (rule inj_on_dom_upd)

lemma inj_erase:
  "ok m \<Longrightarrow> inj_on (find m) (dom (find m)) \<Longrightarrow>
     inj_on (find (erase k m)) (dom (find (erase k m)))"
  unfolding find_erase by (rule inj_on_dom_del)

lemma ran_erase_inj:
  "ok m \<Longrightarrow> inj_on (find m) (dom (find m)) \<Longrightarrow> find m k = Some v \<Longrightarrow>
     ran (find (erase k m)) = ran (find m) - {v}"
  by (simp only: find_erase ran_del_inj)

lemma ran_assign_fresh:
  "ok m \<Longrightarrow> find m k = None \<Longrightarrow> ran (find (assign k v m)) = insert v (ran (find m))"
  by (simp only: find_assign ran_map_upd)

end

section \<open>std::map\<close>

type_synonym ('k, 'v) std_map = "('k \<times> 'v) list"

definition sm_ok :: "('k::linorder, 'v) std_map \<Rightarrow> bool" where
  "sm_ok m \<longleftrightarrow> sorted_wrt (<) (map fst m)"

fun sm_emplace :: "'k::linorder \<Rightarrow> 'v \<Rightarrow> ('k, 'v) std_map \<Rightarrow> ('k, 'v) std_map" where
  "sm_emplace k v [] = [(k, v)]"
| "sm_emplace k v ((k', v') # m) =
     (if k < k' then (k, v) # (k', v') # m
      else if k = k' then (k', v') # m
      else (k', v') # sm_emplace k v m)"

fun sm_assign :: "'k::linorder \<Rightarrow> 'v \<Rightarrow> ('k, 'v) std_map \<Rightarrow> ('k, 'v) std_map" where
  "sm_assign k v [] = [(k, v)]"
| "sm_assign k v ((k', v') # m) =
     (if k < k' then (k, v) # (k', v') # m
      else if k = k' then (k, v) # m
      else (k', v') # sm_assign k v m)"

fun sm_erase :: "'k::linorder \<Rightarrow> ('k, 'v) std_map \<Rightarrow> ('k, 'v) std_map" where
  "sm_erase k [] = []"
| "sm_erase k ((k', v') # m) = (if k = k' then m else (k', v') # sm_erase k m)"

text \<open>\<open>erase\<close> returns how many elements it removed.\<close>

definition sm_erased :: "'k::linorder \<Rightarrow> ('k, 'v) std_map \<Rightarrow> nat" where
  "sm_erased k m = (if map_of m k = None then 0 else 1)"

lemma sm_ok_Nil [simp]: "sm_ok []"
  by (simp add: sm_ok_def)

lemma sm_ok_Cons [simp]: "sm_ok ((k, v) # m) \<longleftrightarrow> sm_ok m \<and> (\<forall>k' \<in> fst ` set m. k < k')"
  by (auto simp: sm_ok_def)

lemma fst_set_sm_emplace [simp]: "fst ` set (sm_emplace k v m) = insert k (fst ` set m)"
  by (induction k v m rule: sm_emplace.induct) (simp_all add: insert_commute insert_absorb)

lemma fst_set_sm_assign [simp]: "fst ` set (sm_assign k v m) = insert k (fst ` set m)"
  by (induction k v m rule: sm_assign.induct) (simp_all add: insert_commute insert_absorb)

lemma fst_set_sm_erase: "fst ` set (sm_erase k m) \<subseteq> fst ` set m"
  by (induction k m rule: sm_erase.induct) auto

lemma sm_ok_emplace: "sm_ok m \<Longrightarrow> sm_ok (sm_emplace k v m)"
  by (induction k v m rule: sm_emplace.induct)
    (simp_all del: ball_simps(9), force+)

lemma sm_ok_assign: "sm_ok m \<Longrightarrow> sm_ok (sm_assign k v m)"
  by (induction k v m rule: sm_assign.induct)
    (simp_all del: ball_simps(9), force+)

lemma sm_ok_erase: "sm_ok m \<Longrightarrow> sm_ok (sm_erase k m)"
  by (induction m) (use fst_set_sm_erase in fastforce)+

lemma map_of_sm_below:
  fixes k :: "'k::linorder"
  shows "\<forall>k' \<in> fst ` set m. k < k' \<Longrightarrow> map_of m k = None"
  by (auto simp: map_of_eq_None_iff)

lemma map_of_sm_emplace:
  "sm_ok m \<Longrightarrow>
     map_of (sm_emplace k v m) = (if map_of m k = None then (map_of m)(k \<mapsto> v) else map_of m)"
proof (induction m)
  case Nil
  then show ?case by simp
next
  case (Cons a m)
  obtain k' v' where a: "a = (k', v')" by fastforce
  consider "k < k'" | "k = k'" | "k' < k" by fastforce
  then show ?case
  proof cases
    case 1
    with Cons.prems have "\<forall>k'' \<in> fst ` set m. k < k''" by (fastforce simp: a)
    then have "map_of m k = None" by (rule map_of_sm_below)
    with 1 show ?thesis by (auto simp: a fun_eq_iff)
  next
    case 2
    then show ?thesis by (simp add: a)
  next
    case 3
    with Cons show ?thesis by (auto simp: a fun_eq_iff)
  qed
qed

lemma map_of_sm_assign: "sm_ok m \<Longrightarrow> map_of (sm_assign k v m) = (map_of m)(k \<mapsto> v)"
  by (induction m) (auto simp: fun_eq_iff)

lemma map_of_sm_erase: "sm_ok m \<Longrightarrow> map_of (sm_erase k m) = (map_of m)(k := None)"
  by (induction m) (auto simp: fun_eq_iff map_of_sm_below)

interpretation sm: assoc_container sm_ok map_of "[]" sm_emplace sm_assign sm_erase
  by unfold_locales
    (simp_all add: sm_ok_emplace sm_ok_assign sm_ok_erase
      map_of_sm_emplace map_of_sm_assign map_of_sm_erase)

declare sm.ok_intros [intro, container_simps] and sm.find_simps [container_simps]

lemma sm_distinct: "sm_ok m \<Longrightarrow> distinct (map fst m)"
  by (induction m) (auto simp: sm_ok_def)

lemma sm_sorted: "sm_ok m \<Longrightarrow> sorted (map fst m)"
  by (simp add: sm_ok_def strict_sorted_imp_sorted)

lemma sm_mem_iff: "sm_ok m \<Longrightarrow> (k, v) \<in> set m \<longleftrightarrow> map_of m k = Some v"
  using sm_distinct [of m] by (metis map_of_eq_Some_iff)

section \<open>std::unordered_map\<close>

type_synonym ('k, 'v) unordered_map = "'k \<rightharpoonup> 'v"

definition um_ok :: "('k, 'v) unordered_map \<Rightarrow> bool" where
  "um_ok m \<longleftrightarrow> finite (dom m)"

definition um_emplace :: "'k \<Rightarrow> 'v \<Rightarrow> ('k, 'v) unordered_map \<Rightarrow> ('k, 'v) unordered_map" where
  "um_emplace k v m = (case m k of None \<Rightarrow> m(k \<mapsto> v) | Some _ \<Rightarrow> m)"

definition um_assign :: "'k \<Rightarrow> 'v \<Rightarrow> ('k, 'v) unordered_map \<Rightarrow> ('k, 'v) unordered_map" where
  "um_assign k v m = m(k \<mapsto> v)"

definition um_erase :: "'k \<Rightarrow> ('k, 'v) unordered_map \<Rightarrow> ('k, 'v) unordered_map" where
  "um_erase k m = m(k := None)"

interpretation um: assoc_container um_ok "\<lambda>m. m" Map.empty um_emplace um_assign um_erase
  by unfold_locales
    (auto simp: um_ok_def um_emplace_def um_assign_def um_erase_def split: option.splits)

declare um.ok_intros [intro, container_simps] and um.find_simps [container_simps]

text \<open>
  Iterating an unordered map visits every element once, in an order the standard leaves
  open: the order is an argument of the operations that iterate, and \<open>iteration_of\<close> is all
  that is known of it.
\<close>

definition iteration_of :: "('k, 'v) unordered_map \<Rightarrow> 'k list \<Rightarrow> bool" where
  "iteration_of m ks \<longleftrightarrow> distinct ks \<and> set ks = dom m"

lemma iteration_of_empty [simp]: "iteration_of Map.empty ks \<longleftrightarrow> ks = []"
  by (auto simp: iteration_of_def)

end
