(* ===== verification/Frame_Codec.thy ===== *)
theory Frame_Codec
  imports Prelude
begin

unbundle bit_operations_syntax

text \<open>
  \<open>shared/src/shared/network/MessageFrameCodec.hpp\<close>: the four-byte length prefix in front of
  every protobuf payload. The class depends on the byte order of the machine it is compiled
  for (\<open>std::endian::native\<close>), which is an argument here, so that every theorem speaks about
  peers of either kind. The contract the message channel relies on is the locale
  \<open>length_prefix_codec\<close>.
\<close>

section \<open>Byte order\<close>

datatype endian = Little_endian | Big_endian

text \<open>\<open>LengthPrefix\<close> is a \<open>std::array\<close> of four bytes, in the order they stand in memory.\<close>

type_synonym length_prefix = "u8 \<times> u8 \<times> u8 \<times> u8"

text \<open>The bytes of a word from the least significant one, and the word of such bytes.\<close>

definition le_bytes :: "u32 \<Rightarrow> length_prefix" where
  "le_bytes v = (ucast v, ucast (drop_bit 8 v), ucast (drop_bit 16 v), ucast (drop_bit 24 v))"

fun le_word :: "length_prefix \<Rightarrow> u32" where
  "le_word (a, b, c, d) =
     ucast a OR push_bit 8 (ucast b) OR push_bit 16 (ucast c) OR push_bit 24 (ucast d)"

fun rev_prefix :: "length_prefix \<Rightarrow> length_prefix" where
  "rev_prefix (a, b, c, d) = (d, c, b, a)"

text \<open>\<open>std::bit_cast\<close> between a word and its four bytes in memory, and \<open>std::byteswap\<close>.\<close>

fun bit_cast_bytes :: "endian \<Rightarrow> u32 \<Rightarrow> length_prefix" where
  "bit_cast_bytes Little_endian v = le_bytes v"
| "bit_cast_bytes Big_endian v = rev_prefix (le_bytes v)"

fun bit_cast_word :: "endian \<Rightarrow> length_prefix \<Rightarrow> u32" where
  "bit_cast_word Little_endian p = le_word p"
| "bit_cast_word Big_endian p = le_word (rev_prefix p)"

definition byteswap :: "u32 \<Rightarrow> u32" where
  "byteswap v = le_word (rev_prefix (le_bytes v))"

section \<open>MessageFrameCodec\<close>

record codec =
  max_payload_size :: u32

definition length_prefix_size :: nat where
  "length_prefix_size = 4"

definition hostToNetwork32 :: "endian \<Rightarrow> u32 \<Rightarrow> u32" where
  "hostToNetwork32 native v = (if native = Little_endian then byteswap v else v)"

definition networkToHost32 :: "endian \<Rightarrow> u32 \<Rightarrow> u32" where
  "networkToHost32 native v = hostToNetwork32 native v"

definition validatePayloadSize :: "codec \<Rightarrow> u32 \<Rightarrow> unit result" where
  "validatePayloadSize c payload_size =
     (if payload_size = 0
      then Inl (Runtime_error ''Message frame has zero-length protobuf payload'')
      else if payload_size > max_payload_size c
      then Inl (Runtime_error ''Message frame is bigger than max_message_size'')
      else Inr ())"

definition encodeUncheckedLengthPrefix :: "endian \<Rightarrow> u32 \<Rightarrow> length_prefix" where
  "encodeUncheckedLengthPrefix native payload_size =
     bit_cast_bytes native (hostToNetwork32 native payload_size)"

definition encodeLengthPrefix :: "endian \<Rightarrow> codec \<Rightarrow> u32 \<Rightarrow> length_prefix result" where
  "encodeLengthPrefix native c payload_size =
     (case validatePayloadSize c payload_size of
        Inl e \<Rightarrow> Inl e
      | Inr _ \<Rightarrow> Inr (encodeUncheckedLengthPrefix native payload_size))"

definition decodeLengthPrefix :: "endian \<Rightarrow> codec \<Rightarrow> length_prefix \<Rightarrow> u32 result" where
  "decodeLengthPrefix native c prefix =
     (let network_size = bit_cast_word native prefix;
          payload_size = networkToHost32 native network_size
      in case validatePayloadSize c payload_size of
           Inl e \<Rightarrow> Inl e
         | Inr _ \<Rightarrow> Inr payload_size)"

section \<open>Words and their bytes\<close>

lemma le_word_le_bytes [simp]: "le_word (le_bytes v) = v"
proof (rule bit_word_eqI)
  fix n
  assume "n < LENGTH(32)"
  then consider "n < 8" | "8 \<le> n \<and> n < 16" | "16 \<le> n \<and> n < 24" | "24 \<le> n \<and> n < 32"
    by fastforce
  then show "bit (le_word (le_bytes v)) n = bit v n"
    by cases (auto simp: le_bytes_def bit_simps dest: bit_imp_le_length)
qed

lemma le_bytes_le_word [simp]: "le_bytes (le_word p) = p"
proof (cases p)
  case (fields a b c d)
  show ?thesis
    unfolding le_bytes_def fields le_word.simps prod.inject
    by (intro conjI; rule bit_word_eqI) (auto simp: bit_simps dest: bit_imp_le_length)
qed

lemma rev_prefix_rev_prefix [simp]: "rev_prefix (rev_prefix p) = p"
  by (cases p) simp

lemma byteswap_byteswap [simp]: "byteswap (byteswap v) = v"
  by (simp add: byteswap_def)

lemma nat_base_256:
  fixes x :: nat
  shows "x mod 256 + 256 * (x div 256 mod 256) + 65536 * (x div 65536 mod 256)
           + 16777216 * (x div 16777216) = x"
proof -
  define q1 q2 q3 where q: "q1 = x div 256" "q2 = q1 div 256" "q3 = q2 div 256"
  define r0 r1 r2 where r: "r0 = x mod 256" "r1 = q1 mod 256" "r2 = q2 mod 256"
  have "x = r0 + 256 * q1" "q1 = r1 + 256 * q2" "q2 = r2 + 256 * q3"
    by (simp_all add: q r)
  then have "r0 + 256 * r1 + 65536 * r2 + 16777216 * q3 = x"
    by simp
  moreover have "x div 65536 = q2" "x div 16777216 = q3"
    by (simp_all add: q div_mult2_eq [symmetric])
  ultimately show ?thesis
    by (simp add: q(1) [symmetric] r [symmetric])
qed

lemma unat_le_word:
  "unat (le_word (a, b, c, d)) = unat a + 2 ^ 8 * unat b + 2 ^ 16 * unat c + 2 ^ 24 * unat d"
proof -
  define v where "v = le_word (a, b, c, d)"
  have "le_bytes v = (a, b, c, d)"
    by (simp add: v_def del: le_word.simps)
  then have "unat a = unat v mod 2 ^ 8" "unat b = unat v div 2 ^ 8 mod 2 ^ 8"
    "unat c = unat v div 2 ^ 16 mod 2 ^ 8" "unat d = unat v div 2 ^ 24 mod 2 ^ 8"
    by (auto simp: le_bytes_def unsigned_ucast_eq take_bit_eq_mod drop_bit_eq_div unat_div)
  moreover have "unat v < 2 ^ 32"
    using unsigned_less [of v] by simp
  ultimately show ?thesis
    using nat_base_256 [of "unat v"] unfolding v_def [symmetric] by simp
qed

text \<open>The unchecked encoder writes the most significant byte first on either host.\<close>

lemma encodeUnchecked_big_endian:
  "encodeUncheckedLengthPrefix native n = rev_prefix (le_bytes n)"
  by (cases native) (simp_all add: encodeUncheckedLengthPrefix_def hostToNetwork32_def byteswap_def)

lemma decode_network_size:
  "networkToHost32 native (bit_cast_word native p) = le_word (rev_prefix p)"
  by (cases native) (simp_all add: networkToHost32_def hostToNetwork32_def byteswap_def)

section \<open>Validation\<close>

definition valid_payload_size :: "codec \<Rightarrow> u32 \<Rightarrow> bool" where
  "valid_payload_size c n \<longleftrightarrow> 0 < unat n \<and> unat n \<le> unat (max_payload_size c)"

lemma validatePayloadSize_ok [codec_simps]:
  "validatePayloadSize c n = Inr u \<longleftrightarrow> valid_payload_size c n"
  by (auto simp: validatePayloadSize_def valid_payload_size_def word_le_nat_alt word_less_nat_alt
      unat_gt_0)

lemma encodeLengthPrefix_ok [codec_simps]:
  "encodeLengthPrefix native c n = Inr p \<longleftrightarrow>
     valid_payload_size c n \<and> p = rev_prefix (le_bytes n)"
  using validatePayloadSize_ok [of c n "()"]
  by (auto simp: encodeLengthPrefix_def encodeUnchecked_big_endian split: sum.splits)

lemma decodeLengthPrefix_ok [codec_simps]:
  "decodeLengthPrefix native c p = Inr n \<longleftrightarrow>
     valid_payload_size c n \<and> p = rev_prefix (le_bytes n)"
  using validatePayloadSize_ok [of c n "()"] validatePayloadSize_ok [of c "le_word (rev_prefix p)" "()"]
  by (auto simp: decodeLengthPrefix_def decode_network_size Let_def
      simp del: le_word.simps rev_prefix.simps split: sum.splits)

section \<open>The contract of a length prefix\<close>

text \<open>
  What a message channel needs of the codecs of the two ends: whatever one end encodes the
  other end decodes, and nothing else decodes.
\<close>

locale length_prefix_codec =
  fixes valid :: "u32 \<Rightarrow> bool"
    and enc :: "u32 \<Rightarrow> length_prefix result"
    and dec :: "length_prefix \<Rightarrow> u32 result"
  assumes enc_valid: "valid n \<Longrightarrow> \<exists>p. enc n = Inr p"
    and dec_valid: "dec p = Inr n \<Longrightarrow> valid n"
    and dec_enc: "enc n = Inr p \<longleftrightarrow> dec p = Inr n"
begin

lemma enc_obtain: "valid n \<Longrightarrow> \<exists>p. enc n = Inr p \<and> dec p = Inr n"
  using enc_valid dec_enc by blast

lemma enc_inj: "enc n = Inr p \<Longrightarrow> enc n' = Inr p \<Longrightarrow> n = n'"
  by (simp add: dec_enc)

lemma enc_ok_valid: "enc n = Inr p \<Longrightarrow> valid n"
  using dec_valid dec_enc by blast

end

interpretation frame_codec: length_prefix_codec
  "valid_payload_size c" "encodeLengthPrefix e1 c" "decodeLengthPrefix e2 c"
  for c e1 e2
  by unfold_locales (auto simp: codec_simps simp del: rev_prefix.simps)

section \<open>Properties\<close>

text \<open>
  The prefix is portable. The bytes a host of one byte order writes for a payload size
  are accepted by a host of any byte order with the same limit and decode to that size, and
  a prefix that decodes to a size is exactly what encoding that size gives.
\<close>

lemma length_prefix_portable:
  "encodeLengthPrefix e1 c n = Inr p \<longleftrightarrow> decodeLengthPrefix e2 c p = Inr n"
  by (rule frame_codec.dec_enc)

text \<open>
  On every host the four bytes are the big-endian numeral of the payload size, the wire
  format of \<open>docs/protocol.md\<close>, and encoding succeeds exactly for the sizes
  \<open>1 \<le> n \<le> max_payload_size\<close>, with the exception of the failed check otherwise.
\<close>

lemma length_prefix_wire_format:
  "case encodeLengthPrefix e c n of
     Inr (b3, b2, b1, b0) \<Rightarrow>
       unat n = unat b3 * 2 ^ 24 + unat b2 * 2 ^ 16 + unat b1 * 2 ^ 8 + unat b0
       \<and> 0 < unat n \<and> unat n \<le> unat (max_payload_size c)
   | Inl x \<Rightarrow>
       if unat n = 0
       then x = Runtime_error ''Message frame has zero-length protobuf payload''
       else x = Runtime_error ''Message frame is bigger than max_message_size''
            \<and> unat (max_payload_size c) < unat n"
proof (cases "encodeLengthPrefix e c n")
  case (Inl x)
  then show ?thesis
    by (auto simp: encodeLengthPrefix_def validatePayloadSize_def word_less_nat_alt unat_eq_0
        split: if_splits)
next
  case (Inr p)
  obtain b3 b2 b1 b0 where p: "p = (b3, b2, b1, b0)" by (cases p)
  from Inr have "valid_payload_size c n" and "rev_prefix p = le_bytes n"
    by (simp_all add: codec_simps del: rev_prefix.simps)
  then have "n = le_word (b0, b1, b2, b3)"
    using le_word_le_bytes [of n] by (simp add: p del: le_word.simps le_word_le_bytes)
  with \<open>valid_payload_size c n\<close> Inr show ?thesis
    by (simp add: p unat_le_word valid_payload_size_def del: le_word.simps)
qed

end
