(* ===== verification/Message_Channel.thy ===== *)
theory Message_Channel
  imports Frame_Codec
begin

text \<open>
  \<open>shared/src/shared/network/MessageChannel.hpp\<close>: one length-prefixed protobuf frame read from
  or written to a socket. The generated protobuf code is not part of the repository:
  \<open>ParseFromArray\<close> and \<open>SerializeToString\<close> are the parameters \<open>parse\<close> and \<open>serialize\<close>. The
  socket is a value: the bytes still to arrive before the peer closes, the bytes handed to the
  peer, and how many more it takes before the connection breaks.
\<close>

section \<open>Sockets\<close>

type_synonym bytes = "u8 list"

record socket =
  sock_in :: bytes
  sock_out :: bytes
  sock_room :: nat

text \<open>
  \<open>asio::async_read\<close> completes when the buffer is full and throws \<open>eof\<close> when the stream ends
  first; \<open>asio::async_write\<close> transfers the whole buffer or throws after a part of it.
\<close>

definition async_read :: "nat \<Rightarrow> socket \<Rightarrow> bytes result \<times> socket" where
  "async_read n s =
     (if length (sock_in s) < n then (Inl (System_error Ec_eof ''''), s\<lparr>sock_in := []\<rparr>)
      else (Inr (take n (sock_in s)), s\<lparr>sock_in := drop n (sock_in s)\<rparr>))"

definition async_write :: "bytes \<Rightarrow> socket \<Rightarrow> unit result \<times> socket" where
  "async_write data s =
     (if length data \<le> sock_room s
      then (Inr (), s\<lparr>sock_out := sock_out s @ data, sock_room := sock_room s - length data\<rparr>)
      else (Inl (System_error (Ec_other 0) ''''),
            s\<lparr>sock_out := sock_out s @ take (sock_room s) data, sock_room := 0\<rparr>))"

section \<open>MessageChannel\<close>

record channel =
  m_frameCodec :: codec
  m_readBuffer :: bytes

definition MessageChannel :: "u32 \<Rightarrow> channel" where
  "MessageChannel max_message_size =
     \<lparr>m_frameCodec = \<lparr>max_payload_size = max_message_size\<rparr>,
      m_readBuffer = replicate (unat max_message_size) 0\<rparr>"

text \<open>\<open>std::vector::resize\<close>, and an incomplete read, which overwrites the front of the buffer.\<close>

definition resize :: "nat \<Rightarrow> bytes \<Rightarrow> bytes" where
  "resize n buf = take n buf @ replicate (n - length buf) 0"

definition overwrite :: "bytes \<Rightarrow> bytes \<Rightarrow> bytes" where
  "overwrite data buf = data @ drop (length data) buf"

fun prefix_bytes :: "length_prefix \<Rightarrow> bytes" where
  "prefix_bytes (a, b, c, d) = [a, b, c, d]"

fun bytes_prefix :: "bytes \<Rightarrow> length_prefix" where
  "bytes_prefix (a # b # c # d # _) = (a, b, c, d)"
| "bytes_prefix _ = (0, 0, 0, 0)"

text \<open>
  \<open>readMessage\<close>, over the codec's decoder. The payload size reaches \<open>ParseFromArray\<close> through a
  cast to \<open>int\<close>, so \<open>parse\<close> takes the buffer and a signed size.
\<close>

definition read_frame ::
  "(length_prefix \<Rightarrow> u32 result) \<Rightarrow> (bytes \<Rightarrow> int \<Rightarrow> 'm option) \<Rightarrow> channel \<Rightarrow> socket \<Rightarrow>
     'm result \<times> channel \<times> socket" where
  "read_frame decode parse ch s =
     (case async_read length_prefix_size s of
        (Inl x, s1) \<Rightarrow> (Inl x, ch, s1)
      | (Inr pb, s1) \<Rightarrow>
          (case decode (bytes_prefix pb) of
             Inl x \<Rightarrow> (Inl x, ch, s1)
           | Inr payload_size \<Rightarrow>
               (let ch1 = ch\<lparr>m_readBuffer := resize (unat payload_size) (m_readBuffer ch)\<rparr>
                in case async_read (unat payload_size) s1 of
                     (Inl x, s2) \<Rightarrow>
                       (Inl x, ch1\<lparr>m_readBuffer := overwrite (sock_in s1) (m_readBuffer ch1)\<rparr>, s2)
                   | (Inr data, s2) \<Rightarrow>
                       (let ch2 = ch1\<lparr>m_readBuffer := overwrite data (m_readBuffer ch1)\<rparr>
                        in case parse (m_readBuffer ch2) (sint payload_size) of
                             None \<Rightarrow>
                               (Inl (Runtime_error
                                  ''Failed to parse received message to protobuf''), ch2, s2)
                           | Some m \<Rightarrow> (Inr m, ch2, s2)))))"

definition readMessage ::
  "endian \<Rightarrow> (bytes \<Rightarrow> int \<Rightarrow> 'm option) \<Rightarrow> channel \<Rightarrow> socket \<Rightarrow> 'm result \<times> channel \<times> socket" where
  "readMessage native parse ch = read_frame (decodeLengthPrefix native (m_frameCodec ch)) parse ch"

definition write_frame ::
  "(u32 \<Rightarrow> length_prefix result) \<Rightarrow> u32 \<Rightarrow> bytes \<Rightarrow> socket \<Rightarrow> unit result \<times> socket" where
  "write_frame encode max_size data s =
     (if length data > unat max_size
      then (Inl (Runtime_error ''Serialized server message is bigger than max_message_size''), s)
      else case encode (word_of_nat (length data)) of
             Inl x \<Rightarrow> (Inl x, s)
           | Inr prefix \<Rightarrow>
               (case async_write (prefix_bytes prefix) s of
                  (Inl x, s1) \<Rightarrow> (Inl x, s1)
                | (Inr _, s1) \<Rightarrow> async_write data s1))"

definition writeMessage ::
  "endian \<Rightarrow> ('m \<Rightarrow> bytes option) \<Rightarrow> channel \<Rightarrow> 'm \<Rightarrow> socket \<Rightarrow> unit result \<times> socket" where
  "writeMessage native serialize ch message s =
     (case serialize message of
        None \<Rightarrow> (Inl (Runtime_error ''Failed to serialize message''), s)
      | Some data \<Rightarrow>
          write_frame (encodeLengthPrefix native (m_frameCodec ch))
            (max_payload_size (m_frameCodec ch)) data s)"

text \<open>Messages written one after the other, and read until the first exception.\<close>

fun write_messages ::
  "endian \<Rightarrow> ('m \<Rightarrow> bytes option) \<Rightarrow> channel \<Rightarrow> 'm list \<Rightarrow> socket \<Rightarrow> unit result \<times> socket" where
  "write_messages native serialize ch [] s = (Inr (), s)"
| "write_messages native serialize ch (m # ms) s =
     (case writeMessage native serialize ch m s of
        (Inl x, s1) \<Rightarrow> (Inl x, s1)
      | (Inr _, s1) \<Rightarrow> write_messages native serialize ch ms s1)"

text \<open>The bytes of a frame, and the contract of one read, over any length-prefix codec.\<close>

definition frame :: "length_prefix \<Rightarrow> bytes \<Rightarrow> bytes" where
  "frame prefix data = prefix_bytes prefix @ data"

lemma length_prefix_bytes [simp]: "length (prefix_bytes p) = 4"
  by (cases p) simp

lemma bytes_prefix_append [simp]: "bytes_prefix (prefix_bytes p @ xs) = p"
  by (cases p) simp

lemma bytes_prefix_bytes [simp]: "bytes_prefix (prefix_bytes p) = p"
  by (cases p) simp

lemma prefix_bytes_take: "4 \<le> length xs \<Longrightarrow> prefix_bytes (bytes_prefix xs) = take 4 xs"
  by (induction xs rule: bytes_prefix.induct) (auto simp: numeral_eq_Suc)

lemma bytes_prefix_take: "4 \<le> length xs \<Longrightarrow> bytes_prefix (take 4 xs) = bytes_prefix xs"
  by (induction xs rule: bytes_prefix.induct) (auto simp: numeral_eq_Suc)

lemma length_resize [simp]: "length (resize n buf) = n"
  by (auto simp: resize_def)

lemma overwrite_full [simp]: "length buf = length data \<Longrightarrow> overwrite data buf = data"
  by (simp add: overwrite_def)

lemma async_read_ok:
  "async_read n s = (Inr d, s1) \<longleftrightarrow>
     n \<le> length (sock_in s) \<and> d = take n (sock_in s) \<and> s1 = s\<lparr>sock_in := drop n (sock_in s)\<rparr>"
  by (auto simp: async_read_def)

text \<open>A successful read consumed one whole frame and left its payload in the buffer.\<close>

lemma read_frame_ok:
  assumes "read_frame decode parse ch s = (Inr m, ch', s')"
  obtains p n data where "decode p = Inr n" and "length data = unat n"
    and "sock_in s = frame p data @ sock_in s'" and "parse data (sint n) = Some m"
    and "m_readBuffer ch' = data" and "s' = s\<lparr>sock_in := sock_in s'\<rparr>"
proof -
  from assms obtain n where dec: "decode (bytes_prefix (take 4 (sock_in s))) = Inr n"
    and len4: "4 \<le> length (sock_in s)" and len: "unat n \<le> length (sock_in s) - 4"
    and parse: "parse (take (unat n) (drop 4 (sock_in s))) (sint n) = Some m"
    and buf: "m_readBuffer ch' = take (unat n) (drop 4 (sock_in s))"
    and s': "s' = s\<lparr>sock_in := drop (unat n) (drop 4 (sock_in s))\<rparr>"
    by (auto simp: read_frame_def async_read_def length_prefix_size_def Let_def
        split: if_splits sum.splits option.splits prod.splits)
  show ?thesis
  proof (rule that)
    show "decode (bytes_prefix (sock_in s)) = Inr n"
      using dec len4 by (simp add: bytes_prefix_take)
    show "sock_in s = frame (bytes_prefix (sock_in s)) (take (unat n) (drop 4 (sock_in s)))
            @ sock_in s'"
      using len4 by (simp add: frame_def prefix_bytes_take s' del: drop_drop)
    show "s' = s\<lparr>sock_in := sock_in s'\<rparr>"
      by (simp add: s')
  qed (use len parse buf in simp_all)
qed

text \<open>Conversely a whole frame whose payload parses is read.\<close>

lemma read_frame_frame:
  assumes "decode p = Inr n" and "length data = unat n" and "parse data (sint n) = Some m"
    and "sock_in s = frame p data @ rest"
  shows "read_frame decode parse ch s =
           (Inr m, ch\<lparr>m_readBuffer := data\<rparr>, s\<lparr>sock_in := rest\<rparr>)"
  using assms
  by (simp add: read_frame_def async_read_def length_prefix_size_def frame_def Let_def)

lemma readMessage_consumes:
  assumes "readMessage native parse ch s = (Inr m, ch', s')"
  shows "length (sock_in s') < length (sock_in s)"
  using assms unfolding readMessage_def
  by (rule read_frame_ok) (simp add: frame_def)

text \<open>The channel keeps its limit.\<close>

lemma readMessage_codec:
  "readMessage native parse ch s = (r, ch', s') \<Longrightarrow> m_frameCodec ch' = m_frameCodec ch"
  by (auto simp: readMessage_def read_frame_def Let_def
      split: sum.splits option.splits prod.splits)

function read_messages ::
  "endian \<Rightarrow> (bytes \<Rightarrow> int \<Rightarrow> 'm option) \<Rightarrow> channel \<Rightarrow> socket \<Rightarrow> 'm list \<times> exn" where
  "read_messages native parse ch s =
     (case readMessage native parse ch s of
        (Inl x, _, _) \<Rightarrow> ([], x)
      | (Inr m, ch1, s1) \<Rightarrow>
          (let (ms, x) = read_messages native parse ch1 s1 in (m # ms, x)))"
  by pat_completeness auto
termination
  by (relation "measure (\<lambda>(native, parse, ch, s). length (sock_in s))")
    (auto dest!: readMessage_consumes [OF sym])

declare read_messages.simps [simp del]

section \<open>Frames over any length prefix\<close>

lemma unat_u32_less: "unat (n :: u32) < 2 ^ 32"
  by (rule order_less_le_trans [OF unsigned_less]) simp

lemma unat_word_of_length:
  "length xs \<le> unat (n :: u32) \<Longrightarrow> unat (word_of_nat (length xs) :: u32) = length xs"
  using unat_u32_less [of n] by (simp add: unat_of_nat)

lemma sint_u32:
  assumes "unat (n :: u32) < 2 ^ 31"
  shows "sint n = int (unat n)"
proof -
  from assms have "uint n < 2 ^ 31"
    by (metis of_nat_less_iff of_nat_numeral of_nat_power of_nat_unat)
  moreover have "- (2 ^ 31) \<le> uint n"
    by (rule order_trans [OF _ uint_ge_0]) simp
  ultimately have "signed_take_bit 31 (uint n) = uint n"
    by (intro signed_take_bit_int_eq_self)
  then show ?thesis by (simp add: sint_uint)
qed

lemma sint_word_of_length:
  "length xs \<le> unat (n :: u32) \<Longrightarrow> unat n < 2 ^ 31 \<Longrightarrow>
     sint (word_of_nat (length xs) :: u32) = int (length xs)"
  by (simp add: sint_u32 unat_word_of_length)

text \<open>What \<open>async_write\<close> put on the wire is always the beginning of its buffer.\<close>

lemma async_write_out:
  "async_write data s = (r, s') \<Longrightarrow>
     sock_out s' = sock_out s @ take (sock_room s) data \<and>
     (r = Inr () \<longleftrightarrow> length data \<le> sock_room s) \<and>
     sock_in s' = sock_in s \<and> sock_room s' = sock_room s - length data"
  by (auto simp: async_write_def split: if_splits)

context length_prefix_codec
begin

lemma write_frame_cases:
  assumes "write_frame enc max_size data s = (r, s')"
  shows "(\<exists>x. r = Inl x \<and> s' = s) \<or>
     (\<exists>p. dec p = Inr (word_of_nat (length data)) \<and> length data \<le> unat max_size \<and>
        sock_out s' = sock_out s @ take (sock_room s) (frame p data) \<and>
        (r = Inr () \<longleftrightarrow> length (frame p data) \<le> sock_room s))"
proof (cases "length data > unat max_size")
  case True
  with assms show ?thesis by (auto simp: write_frame_def)
next
  case False
  show ?thesis
  proof (cases "enc (word_of_nat (length data))")
    case (Inl x)
    with False assms show ?thesis by (auto simp: write_frame_def)
  next
    case (Inr p)
    obtain r1 s1 where 1: "async_write (prefix_bytes p) s = (r1, s1)" by fastforce
    note out1 = async_write_out [OF 1]
    from Inr have dec: "dec p = Inr (word_of_nat (length data))"
      by (simp add: dec_enc)
    show ?thesis
    proof (cases r1)
      case (Inl x)
      with False assms Inr 1 have "r = Inl x" and "s' = s1"
        by (auto simp: write_frame_def)
      with Inl out1 dec False show ?thesis
        by (intro disjI2 exI [of _ p]) (auto simp: frame_def)
    next
      case (Inr u)
      with False assms \<open>enc _ = Inr p\<close> 1 have 2: "async_write data s1 = (r, s')"
        by (auto simp: write_frame_def)
      from Inr out1 dec False async_write_out [OF 2] show ?thesis
        by (intro disjI2 exI [of _ p]) (auto simp: frame_def)
    qed
  qed
qed

lemma write_frame_ok:
  assumes "write_frame enc max_size data s = (Inr (), s')"
  obtains p where "dec p = Inr (word_of_nat (length data))" and "length data \<le> unat max_size"
    and "sock_out s' = sock_out s @ frame p data"
  using write_frame_cases [OF assms] by auto

lemma read_after_write:
  assumes "write_frame enc max_size data s = (Inr (), s')"
    and "unat max_size < 2 ^ 31" and "parse data (int (length data)) = Some m"
  obtains out where "sock_out s' = sock_out s @ out"
    and "\<And>ch t rest. sock_in t = out @ rest \<Longrightarrow>
           read_frame dec parse ch t = (Inr m, ch\<lparr>m_readBuffer := data\<rparr>, t\<lparr>sock_in := rest\<rparr>)"
proof -
  from assms(1) obtain p where p: "dec p = Inr (word_of_nat (length data))"
    and len: "length data \<le> unat max_size" and out: "sock_out s' = sock_out s @ frame p data"
    by (rule write_frame_ok)
  show ?thesis
  proof (rule that [OF out])
    fix ch and t :: socket and rest
    assume "sock_in t = frame p data @ rest"
    then show "read_frame dec parse ch t =
        (Inr m, ch\<lparr>m_readBuffer := data\<rparr>, t\<lparr>sock_in := rest\<rparr>)"
      using p assms(3) unat_word_of_length [OF len] sint_word_of_length [OF len assms(2)]
      by (intro read_frame_frame [where n = "word_of_nat (length data)"]) simp_all
  qed
qed

lemma read_truncated:
  assumes "dec p = Inr n" and "length data = unat n" and "k < length (frame p data)"
    and "sock_in s = take k (frame p data)"
  shows "fst (read_frame dec parse ch s) = Inl (System_error Ec_eof '''')"
proof (cases "k < 4")
  case True
  with assms(3,4) show ?thesis
    by (simp add: read_frame_def async_read_def length_prefix_size_def)
next
  case False
  with assms(4) have "sock_in s = prefix_bytes p @ take (k - 4) data"
    by (simp add: frame_def)
  moreover have "k - 4 < unat n"
    using assms(2,3) False by (simp add: frame_def)
  ultimately show ?thesis
    using assms(1,2) False
    by (simp add: read_frame_def async_read_def length_prefix_size_def Let_def)
qed

end

section \<open>Properties\<close>

lemma write_messages_roundtrip:
  assumes parse: "\<And>m data. serialize m = Some data \<Longrightarrow> parse data (int (length data)) = Some m"
    and small: "unat (max_payload_size (m_frameCodec ch)) < 2 ^ 31"
    and "write_messages e1 serialize ch ms s = (Inr (), s')"
  shows "\<exists>out. sock_out s' = sock_out s @ out \<and>
     (\<forall>ch2 t. m_frameCodec ch2 = m_frameCodec ch \<longrightarrow> sock_in t = out \<longrightarrow>
        read_messages e2 parse ch2 t = (ms, System_error Ec_eof ''''))"
  using assms(3)
proof (induction ms arbitrary: s)
  case Nil
  then show ?case
    by (auto simp: read_messages.simps readMessage_def read_frame_def async_read_def
        length_prefix_size_def)
next
  case (Cons m ms)
  let ?c = "m_frameCodec ch"
  from Cons.prems obtain data s1 where data: "serialize m = Some data"
    and w: "write_frame (encodeLengthPrefix e1 ?c) (max_payload_size ?c) data s = (Inr (), s1)"
    and ws: "write_messages e1 serialize ch ms s1 = (Inr (), s')"
    by (auto simp: writeMessage_def split: option.splits sum.splits prod.splits)
  obtain o1 where o1: "sock_out s1 = sock_out s @ o1"
    and r1: "\<And>ch t rest. sock_in t = o1 @ rest \<Longrightarrow>
       read_frame (decodeLengthPrefix e2 ?c) parse ch t =
         (Inr m, ch\<lparr>m_readBuffer := data\<rparr>, t\<lparr>sock_in := rest\<rparr>)"
    using frame_codec.read_after_write [where parse = parse, OF w small parse [OF data]] by blast
  from Cons.IH [OF ws] obtain o2 where o2: "sock_out s' = sock_out s1 @ o2"
    and r2: "\<And>ch2 t. m_frameCodec ch2 = ?c \<Longrightarrow> sock_in t = o2 \<Longrightarrow>
       read_messages e2 parse ch2 t = (ms, System_error Ec_eof '''')"
    by blast
  have "read_messages e2 parse ch2 t = (m # ms, System_error Ec_eof '''')"
    if "m_frameCodec ch2 = ?c" and "sock_in t = o1 @ o2" for ch2 t
    using that r1 [of t o2 ch2] r2 [of "ch2\<lparr>m_readBuffer := data\<rparr>" "t\<lparr>sock_in := o2\<rparr>"]
    by (simp add: read_messages.simps [of _ _ ch2] readMessage_def)
  then show ?case
    using o1 o2 by auto
qed

text \<open>
  C12: messages survive the wire. Whatever sequence of messages one channel wrote without
  an exception, a channel with the same limit on the other end, of either byte order, reads
  exactly that sequence, in order, from the bytes written, and then the end of the stream.
  The hypothesis on \<open>serialize\<close> and \<open>parse\<close> is protobuf's documented round trip; the limit is
  below 2 GiB, the size protobuf takes as an \<open>int\<close>.
\<close>

theorem channel_stream_roundtrip:
  assumes "\<And>m data. serialize m = Some data \<Longrightarrow> parse data (int (length data)) = Some m"
    and "unat (max_payload_size (m_frameCodec ch)) < 2 ^ 31"
    and "m_frameCodec ch2 = m_frameCodec ch"
    and "write_messages e1 serialize ch ms s = (Inr (), s')"
    and "sock_in t = drop (length (sock_out s)) (sock_out s')"
  shows "read_messages e2 parse ch2 t = (ms, System_error Ec_eof '''')"
proof -
  from write_messages_roundtrip [where parse = parse and ?e2.0 = e2, OF assms(1,2,4)] obtain out
    where "sock_out s' = sock_out s @ out"
      and "\<And>ch2 t. m_frameCodec ch2 = m_frameCodec ch \<Longrightarrow> sock_in t = out \<Longrightarrow>
             read_messages e2 parse ch2 t = (ms, System_error Ec_eof '''')"
    by blast
  with assms(3,5) show ?thesis by simp
qed

text \<open>A serializer of one-byte messages, at which the theorem is applied.\<close>

definition byte_serialize :: "u8 \<Rightarrow> bytes option" where
  "byte_serialize b = Some [b]"

fun byte_parse :: "bytes \<Rightarrow> int \<Rightarrow> u8 option" where
  "byte_parse [b] n = (if n = 1 then Some b else None)"
| "byte_parse _ n = None"

theorem channel_stream_roundtrip_witness:
  "read_messages Big_endian byte_parse (MessageChannel 16)
     \<lparr>sock_in = [0, 0, 0, 1, 7, 0, 0, 0, 1, 9], sock_out = [], sock_room = 0\<rparr>
   = ([7, 9], System_error Ec_eof '''')"
proof (rule channel_stream_roundtrip [where serialize = byte_serialize
      and s = "\<lparr>sock_in = [], sock_out = [], sock_room = 20\<rparr>" and ch = "MessageChannel 16"
      and ?e1.0 = Little_endian])
  show "write_messages Little_endian byte_serialize (MessageChannel 16) [7, 9]
          \<lparr>sock_in = [], sock_out = [], sock_room = 20\<rparr> =
        (Inr (), \<lparr>sock_in = [], sock_out = [0, 0, 0, 1, 7, 0, 0, 0, 1, 9], sock_room = 10\<rparr>)"
    by (simp add: writeMessage_def write_frame_def byte_serialize_def MessageChannel_def
        encodeLengthPrefix_def validatePayloadSize_def encodeUnchecked_big_endian le_bytes_def
        async_write_def)
qed (auto simp: byte_serialize_def MessageChannel_def)

text \<open>
  C27: a message is only ever delivered for a whole, well-formed frame. If \<open>readMessage\<close>
  returns a message, the stream began with a four-byte big-endian size between 1 and the
  limit followed by exactly that many bytes, these bytes are what was parsed and what the
  buffer holds, and everything after them is still to be read.
\<close>

theorem readMessage_sound:
  assumes "readMessage e parse ch s = (Inr m, ch', s')"
  shows "\<exists>n data. 0 < unat n \<and> unat n \<le> unat (max_payload_size (m_frameCodec ch)) \<and>
     length data = unat n \<and>
     sock_in s = prefix_bytes (rev_prefix (le_bytes n)) @ data @ sock_in s' \<and>
     parse data (sint n) = Some m \<and> ch' = ch\<lparr>m_readBuffer := data\<rparr> \<and> sock_out s' = sock_out s"
proof -
  have codec: "m_frameCodec ch' = m_frameCodec ch"
    using assms by (rule readMessage_codec)
  from assms show ?thesis
    unfolding readMessage_def
  proof (rule read_frame_ok)
    fix p n data
    assume a: "decodeLengthPrefix e (m_frameCodec ch) p = Inr n" "length data = unat n"
      "sock_in s = frame p data @ sock_in s'" "parse data (sint n) = Some m"
      "m_readBuffer ch' = data" "s' = s\<lparr>sock_in := sock_in s'\<rparr>"
    from a(1) have "valid_payload_size (m_frameCodec ch) n" and "p = rev_prefix (le_bytes n)"
      by (simp_all add: codec_simps del: rev_prefix.simps)
    moreover have "ch' = ch\<lparr>m_readBuffer := data\<rparr>"
      using codec a(5) by simp
    moreover have "sock_out s' = sock_out s"
      by (subst a(6)) simp
    ultimately show ?thesis
      using a(2-4) by (auto simp: valid_payload_size_def frame_def simp del: rev_prefix.simps)
  qed
qed

theorem readMessage_sound_witness:
  "\<exists>n data. 0 < unat n \<and>
     unat n \<le> unat (max_payload_size (m_frameCodec (MessageChannel 16))) \<and>
     length data = unat n \<and>
     sock_in \<lparr>sock_in = [0, 0, 0, 1, 7, 5], sock_out = [], sock_room = 0\<rparr>
       = prefix_bytes (rev_prefix (le_bytes n)) @ data
         @ sock_in \<lparr>sock_in = [5], sock_out = [], sock_room = 0\<rparr> \<and>
     byte_parse data (sint n) = Some 7 \<and>
     (MessageChannel 16)\<lparr>m_readBuffer := [7]\<rparr> = (MessageChannel 16)\<lparr>m_readBuffer := data\<rparr> \<and>
     sock_out \<lparr>sock_in = [5], sock_out = [], sock_room = 0\<rparr>
       = sock_out \<lparr>sock_in = [0, 0, 0, 1, 7, 5], sock_out = [], sock_room = 0\<rparr>"
  by (rule readMessage_sound [of Little_endian])
    (simp add: readMessage_def read_frame_def async_read_def length_prefix_size_def
      decodeLengthPrefix_def networkToHost32_def hostToNetwork32_def byteswap_def le_bytes_def
      validatePayloadSize_def MessageChannel_def
      resize_def overwrite_def Let_def)

lemma readMessage_nothing:
  "sock_in t = [] \<Longrightarrow> fst (readMessage e parse ch t) = Inl (System_error Ec_eof '''')"
  by (simp add: readMessage_def read_frame_def async_read_def length_prefix_size_def)

lemma writeMessage_failed_out:
  assumes "writeMessage e serialize ch m s = (Inl x, s')"
  shows "sock_out s' = sock_out s \<or>
     (\<exists>p data k. decodeLengthPrefix e2 (m_frameCodec ch) p = Inr (word_of_nat (length data)) \<and>
        length data \<le> unat (max_payload_size (m_frameCodec ch)) \<and> k < length (frame p data) \<and>
        sock_out s' = sock_out s @ take k (frame p data))"
proof (cases "serialize m")
  case None
  with assms show ?thesis by (simp add: writeMessage_def)
next
  case (Some data)
  with assms have w: "write_frame (encodeLengthPrefix e (m_frameCodec ch))
      (max_payload_size (m_frameCodec ch)) data s = (Inl x, s')"
    by (simp add: writeMessage_def)
  from frame_codec.write_frame_cases [where ?e2.0 = e2, OF w] show ?thesis
    by (metis not_le old.sum.distinct(1))
qed

text \<open>
  C32: a failed write delivers nothing. If \<open>writeMessage\<close> throws, for whatever reason (the
  message does not serialize, is empty or too big, or the socket breaks in the middle of the
  prefix or of the payload), the peer reading the bytes that did go out gets the end of the
  stream and never a message.
\<close>

theorem failed_write_delivers_nothing:
  assumes "writeMessage e1 serialize ch m s = (Inl x, s')"
    and "m_frameCodec ch2 = m_frameCodec ch"
    and "sock_in t = drop (length (sock_out s)) (sock_out s')"
  shows "fst (readMessage e2 parse ch2 t) = Inl (System_error Ec_eof '''')"
  using writeMessage_failed_out [OF assms(1), of e2]
proof (elim disjE exE conjE)
  assume "sock_out s' = sock_out s"
  with assms(3) show ?thesis by (simp add: readMessage_nothing)
next
  fix p data k
  assume a: "decodeLengthPrefix e2 (m_frameCodec ch) p = Inr (word_of_nat (length data))"
    "length data \<le> unat (max_payload_size (m_frameCodec ch))" "k < length (frame p data)"
    "sock_out s' = sock_out s @ take k (frame p data)"
  then show ?thesis
    using assms(2,3) frame_codec.read_truncated [OF a(1) _ a(3), of t]
    by (simp add: readMessage_def unat_word_of_length)
qed

theorem failed_write_delivers_nothing_witness:
  "fst (readMessage Little_endian byte_parse (MessageChannel 16)
      \<lparr>sock_in = [0, 0, 0, 1], sock_out = [], sock_room = 0\<rparr>) = Inl (System_error Ec_eof '''')"
proof (rule failed_write_delivers_nothing [where ch = "MessageChannel 16" and m = 7
      and serialize = byte_serialize and ?e1.0 = Big_endian
      and s = "\<lparr>sock_in = [], sock_out = [5], sock_room = 4\<rparr>"])
  show "writeMessage Big_endian byte_serialize (MessageChannel 16) 7
          \<lparr>sock_in = [], sock_out = [5], sock_room = 4\<rparr> =
        (Inl (System_error (Ec_other 0) ''''),
         \<lparr>sock_in = [], sock_out = [5, 0, 0, 0, 1], sock_room = 0\<rparr>)"
    by (simp add: writeMessage_def write_frame_def byte_serialize_def MessageChannel_def
        encodeLengthPrefix_def validatePayloadSize_def encodeUnchecked_big_endian le_bytes_def
        async_write_def)
qed simp_all

end
