(* ===== verification/Protocol.thy ===== *)
theory Protocol
  imports Prelude
begin

text \<open>
  \<open>shared/src/shared/protocol/message.proto\<close> and \<open>shared/src/shared/network/connection_id.hpp\<close>:
  the messages the two programs exchange and the identifiers of connections. A \<open>oneof\<close> is an
  optional value of a datatype with one constructor per case; the accessors of the generated
  classes that the sources call return the default of a field that is not set.
\<close>

section \<open>Connection identifiers\<close>

datatype connection_id = Connection_id (raw_id: u16)

text \<open>The defaulted \<open>operator<=>\<close> compares the only member.\<close>

definition compare_connection_id :: "connection_id \<Rightarrow> connection_id \<Rightarrow> ordering" where
  "compare_connection_id a b = three_way (raw_id a) (raw_id b)"

instantiation connection_id :: linorder
begin

definition less_eq_connection_id :: "connection_id \<Rightarrow> connection_id \<Rightarrow> bool" where
  "less_eq_connection_id a b \<longleftrightarrow> compare_connection_id a b \<noteq> Ord_greater"

definition less_connection_id :: "connection_id \<Rightarrow> connection_id \<Rightarrow> bool" where
  "less_connection_id a b \<longleftrightarrow> compare_connection_id a b = Ord_less"

instance
  by standard
    (auto simp: less_eq_connection_id_def less_connection_id_def compare_connection_id_def
      three_way_def connection_id.expand split: if_splits)

end

text \<open>\<open>++id\<close> and \<open>id++\<close>: the returned identifier and the new value of the variable.\<close>

definition pre_increment :: "connection_id \<Rightarrow> connection_id \<times> connection_id" where
  "pre_increment c = (let c' = Connection_id (raw_id c + 1) in (c', c'))"

definition post_increment :: "connection_id \<Rightarrow> connection_id \<times> connection_id" where
  "post_increment c = (c, Connection_id (raw_id c + 1))"

section \<open>Messages\<close>

text \<open>proto3 enums are open: a received number without a name is kept.\<close>

datatype status = STATUS_UNSPECIFIED | STATUS_OK | STATUS_ERROR | STATUS_unrecognized int

record PingRequest =
  ping_timestamp :: u64

record PongResponse =
  pong_timestamp :: u64

record StateSnapshotResponse =
  state_json :: string

record ErrorResponse =
  error_code_field :: int
  error_message :: string

text \<open>\<open>StateSnapshotRequest\<close> has no fields.\<close>

datatype client_payload = Ping PingRequest | StateSnapshot

datatype server_payload =
    Pong PongResponse
  | StateSnapshotReply StateSnapshotResponse
  | ErrorReply ErrorResponse

record ClientMessage =
  client_request_id :: u64
  client_payload :: "client_payload option"

record ServerMessage =
  server_request_id :: u64
  server_status :: status
  server_payload :: "server_payload option"

definition new_ClientMessage :: ClientMessage where
  "new_ClientMessage = \<lparr>client_request_id = 0, client_payload = None\<rparr>"

definition new_ServerMessage :: ServerMessage where
  "new_ServerMessage =
     \<lparr>server_request_id = 0, server_status = STATUS_UNSPECIFIED, server_payload = None\<rparr>"

text \<open>\<open>message.error().message()\<close>: the empty string unless the payload is an error.\<close>

definition error_text :: "ServerMessage \<Rightarrow> string" where
  "error_text m = (case server_payload m of Some (ErrorReply e) \<Rightarrow> error_message e | _ \<Rightarrow> [])"

end
