(* ===== verification/Connection.thy ===== *)
theory Connection
  imports Protocol "HOL-Library.Sublist"
begin

text \<open>
  \<open>shared/src/shared/network/Connection.hpp\<close>: one connection, its write queue and its two
  coroutines. Everything that touches the state runs on the connection's strand, one handler
  at a time, so the class is a state machine: a step is one handler or one resumption of a
  coroutine, up to the next suspension point. The scheduler is part of the state: handlers
  posted by \<open>start\<close>, \<open>stop\<close> and \<open>send\<close> wait in FIFO order, and each live coroutine stands at
  one of its suspension points. Which of them moves next, what a read or a write gives and
  whether the message handler throws is up to the environment. The steps are those of a live
  object: a handler whose weak pointer has expired does nothing.
\<close>

section \<open>State\<close>

record conn_config =
  maxMessageBytes :: u32
  maxQueuedMessages :: nat

datatype 'o post = Post_start | Post_stop | Post_send 'o

text \<open>Where a \<open>readLoop\<close> and a \<open>writeLoop\<close> stand: not yet run, or at their \<open>co_await\<close>.\<close>

datatype 'i read_loop = Read_spawned | Read_awaits_message | Read_awaits_handler 'i

datatype 'o write_loop = Write_spawned | Write_awaits 'o

text \<open>
  The first fields are the members of the class (\<open>m_onMessage\<close> and \<open>m_onClosed\<close> by their
  presence), \<open>posts\<close>, \<open>read_loops\<close> and \<open>write_loops\<close> are the scheduler's, and the last ones
  record what the environment sees: the messages handed to the message handler, the messages
  written, the reason of the close and how often the close handler was called.
\<close>

record ('i, 'o) conn =
  m_id :: connection_id
  m_maxMessageBytes :: u32
  m_maxQueuedMessages :: nat
  m_hasOnClosed :: bool
  m_started :: bool
  m_closed :: bool
  m_writing :: bool
  m_writeQueue :: "'o list"
  posts :: "'o post list"
  read_loops :: "'i read_loop list"
  write_loops :: "'o write_loop list"
  delivered :: "'i list"
  written :: "'o list"
  stop_reason :: "string option"
  closed_calls :: nat

section \<open>Operations\<close>

text \<open>
  \<open>makeRemoteEndpointString\<close>, for the log: what the socket answers is a parameter. Its error
  code is tested twice; the call between the two tests does not set it.
\<close>

definition makeRemoteEndpointString :: "error_code + string \<times> u16 \<Rightarrow> string" where
  "makeRemoteEndpointString remote =
     (case remote of
        Inl ec \<Rightarrow> ''<unknown>''
      | Inr (address, port) \<Rightarrow> address @ '':'' @ to_string (unat port))"

text \<open>The constructor and \<open>create\<close>; a handler is given by whether it is set.\<close>

definition connection_create ::
  "connection_id \<Rightarrow> conn_config \<Rightarrow> bool \<Rightarrow> bool \<Rightarrow> ('i, 'o) conn result" where
  "connection_create cid cfg hasOnMessage hasOnClosed =
     (if \<not> hasOnMessage
      then Inl (Invalid_argument ''Connection requires message handler'')
      else if maxMessageBytes cfg = 0
      then Inl (Invalid_argument ''Connection maxMessageBytes must be greater than zero'')
      else if maxQueuedMessages cfg = 0
      then Inl (Invalid_argument ''Connection maxQueuedMessages must be greater than zero'')
      else Inr \<lparr>m_id = cid, m_maxMessageBytes = maxMessageBytes cfg,
                m_maxQueuedMessages = maxQueuedMessages cfg, m_hasOnClosed = hasOnClosed,
                m_started = False, m_closed = False, m_writing = False, m_writeQueue = [],
                posts = [], read_loops = [], write_loops = [],
                delivered = [], written = [], stop_reason = None, closed_calls = 0\<rparr>)"

definition start :: "('i, 'o) conn \<Rightarrow> ('i, 'o) conn" where
  "start c = c\<lparr>posts := posts c @ [Post_start]\<rparr>"

definition stop :: "('i, 'o) conn \<Rightarrow> ('i, 'o) conn" where
  "stop c = c\<lparr>posts := posts c @ [Post_stop]\<rparr>"

definition send :: "'o \<Rightarrow> ('i, 'o) conn \<Rightarrow> ('i, 'o) conn" where
  "send message c = c\<lparr>posts := posts c @ [Post_send message]\<rparr>"

text \<open>
  \<open>notifyClosed\<close> swallows an exception of the close handler, so calling it is all that can be
  observed of it.
\<close>

definition notifyClosed :: "('i, 'o) conn \<Rightarrow> ('i, 'o) conn" where
  "notifyClosed c = (if \<not> m_hasOnClosed c then c else c\<lparr>closed_calls := Suc (closed_calls c)\<rparr>)"

definition stopImpl :: "string \<Rightarrow> ('i, 'o) conn \<Rightarrow> ('i, 'o) conn" where
  "stopImpl reason c =
     (if m_closed c then c
      else notifyClosed
        (c\<lparr>m_closed := True, m_writeQueue := [], m_writing := False, stop_reason := Some reason\<rparr>))"

definition startImpl :: "('i, 'o) conn \<Rightarrow> ('i, 'o) conn" where
  "startImpl c =
     (if m_started c then c
      else if m_closed c then c
      else c\<lparr>m_started := True, read_loops := read_loops c @ [Read_spawned]\<rparr>)"

definition sendImpl :: "'o \<Rightarrow> ('i, 'o) conn \<Rightarrow> ('i, 'o) conn" where
  "sendImpl message c =
     (if m_closed c then c
      else if length (m_writeQueue c) \<ge> m_maxQueuedMessages c
      then stopImpl ''write queue limit exceeded'' c
      else let c1 = c\<lparr>m_writeQueue := m_writeQueue c @ [message]\<rparr>
           in if m_writing c1 then c1
              else c1\<lparr>m_writing := True, write_loops := write_loops c1 @ [Write_spawned]\<rparr>)"

text \<open>One posted handler, with the reason string \<open>stop\<close> passes.\<close>

fun run_post :: "'o post \<Rightarrow> ('i, 'o) conn \<Rightarrow> ('i, 'o) conn" where
  "run_post Post_start c = startImpl c"
| "run_post Post_stop c = stopImpl ''local stop'' c"
| "run_post (Post_send message) c = sendImpl message c"

definition remove_at :: "nat \<Rightarrow> 'a list \<Rightarrow> 'a list" where
  "remove_at i xs = take i xs @ drop (Suc i) xs"

text \<open>
  \<open>readLoop\<close>: the loop condition with the suspension it leads to, the resumption by
  \<open>readMessage\<close>, and the resumption by the message handler. The coroutine \<open>i\<close> ends where the
  code returns.
\<close>

definition readLoop_test :: "nat \<Rightarrow> ('i, 'o) conn \<Rightarrow> ('i, 'o) conn" where
  "readLoop_test i c =
     (if m_closed c then c\<lparr>read_loops := remove_at i (read_loops c)\<rparr>
      else c\<lparr>read_loops := (read_loops c)[i := Read_awaits_message]\<rparr>)"

definition readLoop_message :: "nat \<Rightarrow> 'i result \<Rightarrow> ('i, 'o) conn \<Rightarrow> ('i, 'o) conn" where
  "readLoop_message i r c =
     (case r of
        Inl _ \<Rightarrow> (stopImpl ''read failed'' c)\<lparr>read_loops := remove_at i (read_loops c)\<rparr>
      | Inr message \<Rightarrow>
          if m_closed c then c\<lparr>read_loops := remove_at i (read_loops c)\<rparr>
          else c\<lparr>read_loops := (read_loops c)[i := Read_awaits_handler message],
                 delivered := delivered c @ [message]\<rparr>)"

definition readLoop_handler :: "nat \<Rightarrow> unit result \<Rightarrow> ('i, 'o) conn \<Rightarrow> ('i, 'o) conn" where
  "readLoop_handler i r c =
     (case r of
        Inl _ \<Rightarrow> (stopImpl ''message handler failed'' c)\<lparr>read_loops := remove_at i (read_loops c)\<rparr>
      | Inr _ \<Rightarrow> readLoop_test i c)"

text \<open>\<open>writeLoop\<close>: the loop condition with the next write, and the resumption by \<open>writeMessage\<close>.\<close>

definition writeLoop_test :: "nat \<Rightarrow> ('i, 'o) conn \<Rightarrow> ('i, 'o) conn" where
  "writeLoop_test i c =
     (if \<not> m_closed c \<and> m_writeQueue c \<noteq> []
      then c\<lparr>m_writeQueue := tl (m_writeQueue c),
             write_loops := (write_loops c)[i := Write_awaits (hd (m_writeQueue c))]\<rparr>
      else c\<lparr>m_writing := False, write_loops := remove_at i (write_loops c)\<rparr>)"

definition writeLoop_written :: "nat \<Rightarrow> 'o \<Rightarrow> unit result \<Rightarrow> ('i, 'o) conn \<Rightarrow> ('i, 'o) conn" where
  "writeLoop_written i message r c =
     (case r of
        Inl _ \<Rightarrow> (stopImpl ''write failed'' (c\<lparr>m_writing := False\<rparr>))
                   \<lparr>write_loops := remove_at i (write_loops c)\<rparr>
      | Inr _ \<Rightarrow> writeLoop_test i (c\<lparr>written := written c @ [message]\<rparr>))"

section \<open>Steps\<close>

datatype ('i, 'o) conn_event =
    Call_start
  | Call_stop
  | Call_send 'o
  | Run_post
  | Run_reader nat
  | Message_read nat "'i result"
  | Handler_done nat "unit result"
  | Run_writer nat
  | Message_written nat "unit result"

inductive conn_step :: "('i, 'o) conn \<Rightarrow> ('i, 'o) conn_event \<Rightarrow> ('i, 'o) conn \<Rightarrow> bool" where
  call_start: "conn_step c Call_start (start c)"
| call_stop: "conn_step c Call_stop (stop c)"
| call_send: "conn_step c (Call_send m) (send m c)"
| run_post: "posts c = p # ps \<Longrightarrow> conn_step c Run_post (run_post p (c\<lparr>posts := ps\<rparr>))"
| run_reader: "i < length (read_loops c) \<Longrightarrow> read_loops c ! i = Read_spawned \<Longrightarrow>
     conn_step c (Run_reader i) (readLoop_test i c)"
| message_read: "i < length (read_loops c) \<Longrightarrow> read_loops c ! i = Read_awaits_message \<Longrightarrow>
     conn_step c (Message_read i r) (readLoop_message i r c)"
| handler_done: "i < length (read_loops c) \<Longrightarrow> read_loops c ! i = Read_awaits_handler m \<Longrightarrow>
     conn_step c (Handler_done i h) (readLoop_handler i h c)"
| run_writer: "i < length (write_loops c) \<Longrightarrow> write_loops c ! i = Write_spawned \<Longrightarrow>
     conn_step c (Run_writer i) (writeLoop_test i c)"
| message_written: "i < length (write_loops c) \<Longrightarrow> write_loops c ! i = Write_awaits m \<Longrightarrow>
     conn_step c (Message_written i w) (writeLoop_written i m w c)"

inductive_cases conn_step_elims:
  "conn_step c Call_start c'" "conn_step c Call_stop c'" "conn_step c (Call_send m) c'"
  "conn_step c Run_post c'" "conn_step c (Run_reader i) c'" "conn_step c (Message_read i r) c'"
  "conn_step c (Handler_done i h) c'" "conn_step c (Run_writer i) c'"
  "conn_step c (Message_written i w) c'"

text \<open>The same steps as a function, \<open>None\<close> where an event is not enabled.\<close>

fun conn_exec :: "('i, 'o) conn_event \<Rightarrow> ('i, 'o) conn \<Rightarrow> ('i, 'o) conn option" where
  "conn_exec Call_start c = Some (start c)"
| "conn_exec Call_stop c = Some (stop c)"
| "conn_exec (Call_send m) c = Some (send m c)"
| "conn_exec Run_post c =
     (case posts c of [] \<Rightarrow> None | p # ps \<Rightarrow> Some (run_post p (c\<lparr>posts := ps\<rparr>)))"
| "conn_exec (Run_reader i) c =
     (if i < length (read_loops c)
      then (case read_loops c ! i of Read_spawned \<Rightarrow> Some (readLoop_test i c) | _ \<Rightarrow> None)
      else None)"
| "conn_exec (Message_read i r) c =
     (if i < length (read_loops c)
      then (case read_loops c ! i of
              Read_awaits_message \<Rightarrow> Some (readLoop_message i r c) | _ \<Rightarrow> None)
      else None)"
| "conn_exec (Handler_done i h) c =
     (if i < length (read_loops c)
      then (case read_loops c ! i of
              Read_awaits_handler _ \<Rightarrow> Some (readLoop_handler i h c) | _ \<Rightarrow> None)
      else None)"
| "conn_exec (Run_writer i) c =
     (if i < length (write_loops c)
      then (case write_loops c ! i of Write_spawned \<Rightarrow> Some (writeLoop_test i c) | _ \<Rightarrow> None)
      else None)"
| "conn_exec (Message_written i w) c =
     (if i < length (write_loops c)
      then (case write_loops c ! i of
              Write_awaits m \<Rightarrow> Some (writeLoop_written i m w c) | _ \<Rightarrow> None)
      else None)"

lemma conn_step_iff_exec: "conn_step c e c' \<longleftrightarrow> conn_exec e c = Some c'"
proof
  assume "conn_step c e c'"
  then show "conn_exec e c = Some c'"
    by cases simp_all
next
  assume "conn_exec e c = Some c'"
  then show "conn_step c e c'"
    by (cases e)
      (auto split: list.splits if_splits read_loop.splits write_loop.splits
        intro: conn_step.intros)
qed

text \<open>Runs, with the events from the first to the last.\<close>

inductive conn_run :: "('i, 'o) conn \<Rightarrow> ('i, 'o) conn_event list \<Rightarrow> ('i, 'o) conn \<Rightarrow> bool"
  for c0 where
  conn_run_init: "conn_run c0 [] c0"
| conn_run_step: "conn_run c0 es c \<Longrightarrow> conn_step c e c' \<Longrightarrow> conn_run c0 (es @ [e]) c'"

abbreviation conn_execs :: "('i, 'o) conn_event list \<Rightarrow> ('i, 'o) conn \<Rightarrow> ('i, 'o) conn option" where
  "conn_execs \<equiv> runs conn_exec"

lemma conn_run_iff_execs: "conn_run c0 es c \<longleftrightarrow> conn_execs es c0 = Some c"
proof
  assume "conn_run c0 es c"
  then show "conn_execs es c0 = Some c"
    by induction (simp_all add: runs_append conn_step_iff_exec)
next
  assume "conn_execs es c0 = Some c"
  then show "conn_run c0 es c"
  proof (induction es arbitrary: c rule: rev_induct)
    case Nil
    then show ?case by (auto intro: conn_run_init)
  next
    case (snoc e es)
    then show ?case
      by (auto simp: runs_append conn_step_iff_exec bind_eq_Some_conv
          intro: conn_run_step)
  qed
qed

lemma conn_run_append: "conn_run c0 es c \<Longrightarrow> conn_run c fs c' \<Longrightarrow> conn_run c0 (es @ fs) c'"
  by (simp add: conn_run_iff_execs runs_append)

section \<open>The invariant of a connection\<close>

fun awaited_write :: "'o write_loop \<Rightarrow> 'o list" where
  "awaited_write Write_spawned = []"
| "awaited_write (Write_awaits m) = [m]"

definition in_flight :: "('i, 'o) conn \<Rightarrow> 'o list" where
  "in_flight c = concat (map awaited_write (write_loops c))"

fun post_sends :: "'o post \<Rightarrow> 'o list" where
  "post_sends (Post_send m) = [m]"
| "post_sends _ = []"

definition pending_sends :: "('i, 'o) conn \<Rightarrow> 'o list" where
  "pending_sends c = concat (map post_sends (posts c))"

text \<open>At most one coroutine of each kind, and the flags tell whether it lives.\<close>

definition loops_inv :: "('i, 'o) conn \<Rightarrow> bool" where
  "loops_inv c \<longleftrightarrow>
     length (write_loops c) \<le> 1 \<and> length (read_loops c) \<le> 1 \<and>
     (\<not> m_closed c \<longrightarrow> (m_writing c \<longleftrightarrow> write_loops c \<noteq> [])) \<and>
     (\<not> m_closed c \<longrightarrow> (m_started c \<longleftrightarrow> read_loops c \<noteq> [])) \<and>
     (read_loops c \<noteq> [] \<longrightarrow> m_started c)"

text \<open>The queue is bounded, empty when closed, and never waits without a writer.\<close>

definition queue_inv :: "('i, 'o) conn \<Rightarrow> bool" where
  "queue_inv c \<longleftrightarrow>
     length (m_writeQueue c) \<le> m_maxQueuedMessages c \<and>
     (m_closed c \<longrightarrow> m_writeQueue c = [] \<and> \<not> m_writing c) \<and>
     (\<not> m_closed c \<longrightarrow> write_loops c = [] \<longrightarrow> m_writeQueue c = [])"

text \<open>The close handler was called exactly once if the connection is closed, else never.\<close>

definition close_inv :: "('i, 'o) conn \<Rightarrow> bool" where
  "close_inv c \<longleftrightarrow>
     closed_calls c = (if m_closed c \<and> m_hasOnClosed c then 1 else 0) \<and>
     (stop_reason c = None \<longleftrightarrow> \<not> m_closed c)"

definition conn_inv :: "('i, 'o) conn \<Rightarrow> bool" where
  "conn_inv c \<longleftrightarrow> loops_inv c \<and> queue_inv c \<and> close_inv c"

lemmas conn_inv_defs = conn_inv_def loops_inv_def queue_inv_def close_inv_def

lemmas conn_op_defs = start_def stop_def send_def startImpl_def stopImpl_def sendImpl_def
  notifyClosed_def readLoop_test_def readLoop_message_def readLoop_handler_def
  writeLoop_test_def writeLoop_written_def remove_at_def Let_def

lemma single_loop:
  assumes "length xs \<le> 1" and "i < length xs"
  shows "i = 0" and "xs = [xs ! i]"
  using assms by (cases xs; simp)+

lemma stopImpl_inv: "conn_inv c \<Longrightarrow> conn_inv (stopImpl reason c)"
  by (auto simp: conn_inv_defs stopImpl_def notifyClosed_def)

lemma startImpl_inv: "conn_inv c \<Longrightarrow> conn_inv (startImpl c)"
  by (auto simp: conn_inv_defs startImpl_def)

lemma sendImpl_inv: "conn_inv c \<Longrightarrow> conn_inv (sendImpl m c)"
proof -
  assume inv: "conn_inv c"
  consider "m_closed c" | "\<not> m_closed c" "m_maxQueuedMessages c \<le> length (m_writeQueue c)"
    | "\<not> m_closed c" "length (m_writeQueue c) < m_maxQueuedMessages c"
    by force
  then show ?thesis
  proof cases
    case 1
    with inv show ?thesis by (simp add: sendImpl_def)
  next
    case 2
    with stopImpl_inv [OF inv] show ?thesis by (simp add: sendImpl_def)
  next
    case 3
    with inv show ?thesis by (auto simp: sendImpl_def conn_inv_defs Let_def)
  qed
qed

lemma run_post_inv: "conn_inv c \<Longrightarrow> conn_inv (run_post p c)"
  by (cases p) (simp_all add: startImpl_inv stopImpl_inv sendImpl_inv)

lemma posts_irrelevant [simp]: "conn_inv (c\<lparr>posts := ps\<rparr>) \<longleftrightarrow> conn_inv c"
  by (simp add: conn_inv_defs)

lemma delivered_irrelevant [simp]: "conn_inv (c\<lparr>delivered := ms\<rparr>) \<longleftrightarrow> conn_inv c"
  by (simp add: conn_inv_defs)

lemma written_irrelevant [simp]: "conn_inv (c\<lparr>written := ms\<rparr>) \<longleftrightarrow> conn_inv c"
  by (simp add: conn_inv_defs)

text \<open>A coroutine that lives keeps its place, or ends when the connection is closed.\<close>

lemma reader_continues_inv:
  "conn_inv c \<Longrightarrow> i < length (read_loops c) \<Longrightarrow>
     conn_inv (c\<lparr>read_loops := (read_loops c)[i := r]\<rparr>)"
  by (auto simp: conn_inv_defs)

lemma reader_ends_inv:
  "conn_inv c \<Longrightarrow> m_closed c \<Longrightarrow> i < length (read_loops c) \<Longrightarrow>
     conn_inv (c\<lparr>read_loops := remove_at i (read_loops c)\<rparr>)"
  using single_loop [of "read_loops c" i] by (auto simp: conn_inv_defs remove_at_def)

lemma writer_continues_inv:
  "conn_inv c \<Longrightarrow> i < length (write_loops c) \<Longrightarrow> \<not> m_closed c \<Longrightarrow>
     conn_inv (c\<lparr>m_writeQueue := tl (m_writeQueue c), write_loops := (write_loops c)[i := w]\<rparr>)"
  by (auto simp: conn_inv_defs)

lemma writer_ends_inv:
  "conn_inv c \<Longrightarrow> i < length (write_loops c) \<Longrightarrow> m_closed c \<or> m_writeQueue c = [] \<Longrightarrow>
     conn_inv (c\<lparr>m_writing := False, write_loops := remove_at i (write_loops c)\<rparr>)"
  using single_loop [of "write_loops c" i] by (auto simp: conn_inv_defs remove_at_def)

lemma stopImpl_frame [simp]:
  "m_closed (stopImpl reason c)"
  "read_loops (stopImpl reason c) = read_loops c"
  "write_loops (stopImpl reason c) = write_loops c"
  "posts (stopImpl reason c) = posts c"
  "written (stopImpl reason c) = written c"
  "delivered (stopImpl reason c) = delivered c"
  "m_started (stopImpl reason c) = m_started c"
  by (simp_all add: stopImpl_def notifyClosed_def)

lemma readLoop_test_inv:
  "conn_inv c \<Longrightarrow> i < length (read_loops c) \<Longrightarrow> conn_inv (readLoop_test i c)"
  by (simp add: readLoop_test_def reader_continues_inv reader_ends_inv)

lemma stop_reader_inv:
  "conn_inv c \<Longrightarrow> i < length (read_loops c) \<Longrightarrow>
     conn_inv ((stopImpl reason c)\<lparr>read_loops := remove_at i (read_loops c)\<rparr>)"
  using reader_ends_inv [of "stopImpl reason c" i] by (simp add: stopImpl_inv)

lemma readLoop_message_inv:
  "conn_inv c \<Longrightarrow> i < length (read_loops c) \<Longrightarrow> conn_inv (readLoop_message i r c)"
  by (auto simp: readLoop_message_def stop_reader_inv reader_ends_inv reader_continues_inv
      split: sum.splits)

lemma readLoop_handler_inv:
  "conn_inv c \<Longrightarrow> i < length (read_loops c) \<Longrightarrow> conn_inv (readLoop_handler i h c)"
  by (auto simp: readLoop_handler_def stop_reader_inv readLoop_test_inv split: sum.splits)

lemma writeLoop_test_inv:
  "conn_inv c \<Longrightarrow> i < length (write_loops c) \<Longrightarrow> conn_inv (writeLoop_test i c)"
  by (auto simp: writeLoop_test_def writer_continues_inv writer_ends_inv)

lemma writeLoop_written_inv:
  assumes "conn_inv c" and "i < length (write_loops c)"
  shows "conn_inv (writeLoop_written i m w c)"
proof (cases w)
  case (Inr u)
  with assms writeLoop_test_inv [of "c\<lparr>written := written c @ [m]\<rparr>" i] show ?thesis
    by (simp add: writeLoop_written_def)
next
  case (Inl x)
  with assms single_loop [of "write_loops c" i] show ?thesis
    by (auto simp: writeLoop_written_def conn_inv_defs stopImpl_def notifyClosed_def remove_at_def)
qed

lemma conn_step_inv: "conn_step c e c' \<Longrightarrow> conn_inv c \<Longrightarrow> conn_inv c'"
  by (induction rule: conn_step.induct)
    (simp_all add: start_def stop_def send_def run_post_inv readLoop_test_inv
      readLoop_message_inv readLoop_handler_inv writeLoop_test_inv writeLoop_written_inv)

lemma create_inv: "connection_create cid cfg hm hc = Inr c \<Longrightarrow> conn_inv c"
  by (auto simp: connection_create_def conn_inv_defs split: if_splits)

lemma conn_run_inv: "conn_run c0 es c \<Longrightarrow> conn_inv c0 \<Longrightarrow> conn_inv c"
  by (induction rule: conn_run.induct) (auto intro: conn_step_inv)

section \<open>First in, first out\<close>

text \<open>
  \<open>conn_fifo ms c\<close>: of the messages \<open>ms\<close> given to \<open>send\<close> so far, the written ones come first, then
  the one being written, then the queue, then the ones that were dropped, then the ones whose
  posted handler has not run; and nothing is dropped before the connection is closed.
\<close>

definition conn_fifo :: "'o list \<Rightarrow> ('i, 'o) conn \<Rightarrow> bool" where
  "conn_fifo ms c \<longleftrightarrow>
     (\<exists>dropped. ms = written c @ in_flight c @ m_writeQueue c @ dropped @ pending_sends c \<and>
        (m_closed c \<or> dropped = []))"

lemma fifo_stopImpl: "conn_fifo ms c \<Longrightarrow> conn_fifo ms (stopImpl reason c)"
  by (auto simp: conn_fifo_def stopImpl_def notifyClosed_def in_flight_def pending_sends_def)

lemma fifo_startImpl: "conn_fifo ms c \<Longrightarrow> conn_fifo ms (startImpl c)"
  by (auto simp: conn_fifo_def startImpl_def in_flight_def pending_sends_def)

lemma fifo_sendImpl:
  assumes "conn_fifo ms (c\<lparr>posts := Post_send m # ps\<rparr>)" and "queue_inv c"
  shows "conn_fifo ms (sendImpl m (c\<lparr>posts := ps\<rparr>))"
proof -
  from assms(1) obtain d
    where ms: "ms = written c @ in_flight c @ m_writeQueue c @ d @ m # concat (map post_sends ps)"
      and d: "m_closed c \<or> d = []"
    by (auto simp: conn_fifo_def in_flight_def pending_sends_def)
  consider "m_closed c" | "\<not> m_closed c" "m_maxQueuedMessages c \<le> length (m_writeQueue c)"
    | "\<not> m_closed c" "length (m_writeQueue c) < m_maxQueuedMessages c"
    by force
  then show ?thesis
  proof cases
    case 1
    with ms show ?thesis
      by (auto simp: conn_fifo_def sendImpl_def in_flight_def pending_sends_def
          intro!: exI [of _ "d @ [m]"])
  next
    case 2
    with ms d show ?thesis
      by (auto simp: conn_fifo_def sendImpl_def stopImpl_def notifyClosed_def in_flight_def
          pending_sends_def)
  next
    case 3
    with ms d show ?thesis
      by (auto simp: conn_fifo_def sendImpl_def in_flight_def pending_sends_def Let_def)
  qed
qed

lemma fifo_run_post:
  assumes "conn_fifo ms c" and "queue_inv c" and "posts c = p # ps"
  shows "conn_fifo ms (run_post p (c\<lparr>posts := ps\<rparr>))"
proof (cases p)
  case (Post_send m)
  have "c\<lparr>posts := Post_send m # ps\<rparr> = c"
    using assms(3) Post_send by simp
  with Post_send assms(1,2) show ?thesis
    by (simp add: fifo_sendImpl)
next
  case Post_start
  with assms have "conn_fifo ms (c\<lparr>posts := ps\<rparr>)"
    by (simp add: conn_fifo_def in_flight_def pending_sends_def)
  with Post_start show ?thesis by (simp add: fifo_startImpl)
next
  case Post_stop
  with assms have "conn_fifo ms (c\<lparr>posts := ps\<rparr>)"
    by (simp add: conn_fifo_def in_flight_def pending_sends_def)
  with Post_stop show ?thesis by (simp add: fifo_stopImpl)
qed

lemma fifo_read_loops [simp]: "conn_fifo ms (c\<lparr>read_loops := rs\<rparr>) = conn_fifo ms c"
  by (simp add: conn_fifo_def in_flight_def pending_sends_def)

lemma fifo_delivered [simp]: "conn_fifo ms (c\<lparr>delivered := ds\<rparr>) = conn_fifo ms c"
  by (simp add: conn_fifo_def in_flight_def pending_sends_def)

lemma fifo_reader:
  "conn_fifo ms c \<Longrightarrow> conn_fifo ms (readLoop_test i c)"
  "conn_fifo ms c \<Longrightarrow> conn_fifo ms (readLoop_message i r c)"
  "conn_fifo ms c \<Longrightarrow> conn_fifo ms (readLoop_handler i h c)"
  by (simp_all add: readLoop_test_def readLoop_message_def readLoop_handler_def fifo_stopImpl
      split: sum.splits)

lemma fifo_writeLoop_test:
  assumes "loops_inv c" and "i < length (write_loops c)"
    and "ms = written c @ m_writeQueue c @ d @ pending_sends c" and "m_closed c \<or> d = []"
  shows "conn_fifo ms (writeLoop_test i c)"
proof -
  obtain w where "write_loops c = [w]" and "i = 0"
    using assms(1,2) single_loop [of "write_loops c" i] by (auto simp: loops_inv_def)
  then show ?thesis
    using assms(3,4)
    by (cases "m_writeQueue c")
      (auto simp: conn_fifo_def writeLoop_test_def in_flight_def pending_sends_def remove_at_def)
qed

lemma fifo_writer_done:
  assumes "conn_fifo ms c" and "loops_inv c" and "i < length (write_loops c)"
    and "write_loops c ! i = Write_awaits m" and "queue_inv c"
  shows "conn_fifo ms (writeLoop_written i m w c)"
proof -
  have wl: "write_loops c = [Write_awaits m]" and i: "i = 0"
    using assms(2-4) single_loop [of "write_loops c" i] by (auto simp: loops_inv_def)
  from assms(1) wl obtain d
    where ms: "ms = written c @ m # m_writeQueue c @ d @ pending_sends c"
      and d: "m_closed c \<or> d = []"
    by (auto simp: conn_fifo_def in_flight_def)
  show ?thesis
  proof (cases w)
    case (Inr u)
    have "conn_fifo ms (writeLoop_test i (c\<lparr>written := written c @ [m]\<rparr>))"
      using assms(2,3) ms d
      by (intro fifo_writeLoop_test [where d = d]) (auto simp: loops_inv_def pending_sends_def)
    with Inr show ?thesis by (simp add: writeLoop_written_def)
  next
    case (Inl x)
    then have "m_closed (writeLoop_written i m w c)" "written (writeLoop_written i m w c) = written c"
      "in_flight (writeLoop_written i m w c) = []"
      "pending_sends (writeLoop_written i m w c) = pending_sends c"
      "m_writeQueue (writeLoop_written i m w c) = []"
      using wl i assms(5)
      by (auto simp: queue_inv_def writeLoop_written_def in_flight_def remove_at_def pending_sends_def
          stopImpl_def notifyClosed_def)
    with ms show ?thesis
      by (auto simp: conn_fifo_def)
  qed
qed

fun sent_by :: "('i, 'o) conn_event \<Rightarrow> 'o list" where
  "sent_by (Call_send m) = [m]"
| "sent_by _ = []"

definition sent :: "('i, 'o) conn_event list \<Rightarrow> 'o list" where
  "sent es = concat (map sent_by es)"

lemma fifo_calls:
  "conn_fifo ms c \<Longrightarrow> conn_fifo ms (start c)"
  "conn_fifo ms c \<Longrightarrow> conn_fifo ms (stop c)"
  "conn_fifo ms c \<Longrightarrow> conn_fifo (ms @ [m]) (send m c)"
  by (auto simp: conn_fifo_def start_def stop_def send_def in_flight_def pending_sends_def)

lemma conn_step_fifo:
  assumes "conn_step c e c'" and "conn_inv c" and "conn_fifo ms c"
  shows "conn_fifo (ms @ sent_by e) c'"
  using assms(1)
proof cases
  case run_post
  with assms show ?thesis by (simp add: fifo_run_post conn_inv_def)
next
  case (run_writer i)
  with assms single_loop [of "write_loops c" i] have "in_flight c = []"
    by (auto simp: conn_inv_def loops_inv_def in_flight_def)
  with assms(3) obtain d
    where "ms = written c @ m_writeQueue c @ d @ pending_sends c" and "m_closed c \<or> d = []"
    by (auto simp: conn_fifo_def)
  then have "conn_fifo ms (writeLoop_test i c)"
    using run_writer assms(2) by (intro fifo_writeLoop_test) (auto simp: conn_inv_def)
  with run_writer show ?thesis by simp
next
  case (message_written i m w)
  with assms show ?thesis by (simp add: fifo_writer_done conn_inv_def)
qed (use assms in \<open>simp_all add: fifo_reader fifo_calls\<close>)

lemma conn_run_fifo:
  "conn_run c0 es c \<Longrightarrow> conn_inv c0 \<Longrightarrow> conn_fifo [] c0 \<Longrightarrow> conn_fifo (sent es) c"
proof (induction rule: conn_run.induct)
  case conn_run_init
  then show ?case by (simp add: sent_def)
next
  case (conn_run_step es c e c')
  then have "conn_fifo (sent es @ sent_by e) c'"
    by (intro conn_step_fifo [of c e]) (auto intro: conn_run_inv)
  then show ?case by (simp add: sent_def)
qed

lemma create_fifo: "connection_create cid cfg hm hc = Inr c \<Longrightarrow> conn_fifo [] c"
  by (auto simp: connection_create_def conn_fifo_def in_flight_def pending_sends_def
      split: if_splits)

section \<open>Members no step changes\<close>

definition same_members :: "('i, 'o) conn \<Rightarrow> ('i, 'o) conn \<Rightarrow> bool" where
  "same_members c c' \<longleftrightarrow>
     m_id c' = m_id c \<and> m_maxMessageBytes c' = m_maxMessageBytes c \<and>
     m_maxQueuedMessages c' = m_maxQueuedMessages c \<and> m_hasOnClosed c' = m_hasOnClosed c"

lemma run_post_frame: "same_members c (run_post p c)"
  by (cases p) (auto simp: conn_op_defs same_members_def)

lemma conn_step_frame: "conn_step c e c' \<Longrightarrow> same_members c c'"
proof (induction rule: conn_step.induct)
  case (run_post c p ps)
  then show ?case
    using run_post_frame [of "c\<lparr>posts := ps\<rparr>" p] by (simp add: same_members_def)
qed (auto simp: conn_op_defs same_members_def split: sum.splits)

lemma conn_run_frame: "conn_run c es c' \<Longrightarrow> same_members c c'"
proof (induction rule: conn_run.induct)
  case (conn_run_step es c1 e c2)
  then show ?case
    using conn_step_frame [of c1 e c2] by (simp add: same_members_def)
qed (simp add: same_members_def)

section \<open>Closing is final\<close>

text \<open>What a step of a closed connection may still change.\<close>

definition closed_extends :: "('i, 'o) conn \<Rightarrow> ('i, 'o) conn \<Rightarrow> bool" where
  "closed_extends c c' \<longleftrightarrow>
     m_closed c' \<and> delivered c' = delivered c \<and> closed_calls c' = closed_calls c \<and>
     stop_reason c' = stop_reason c \<and>
     prefix (written c) (written c') \<and>
     prefix (written c' @ in_flight c') (written c @ in_flight c)"

lemma closed_extends_refl: "m_closed c \<Longrightarrow> closed_extends c c"
  by (simp add: closed_extends_def)

lemma closed_extends_trans:
  "closed_extends c c1 \<Longrightarrow> closed_extends c1 c2 \<Longrightarrow> closed_extends c c2"
  unfolding closed_extends_def by (metis prefix_order.trans)

lemma closed_ops [simp]:
  "m_closed c \<Longrightarrow> stopImpl reason c = c"
  "m_closed c \<Longrightarrow> startImpl c = c"
  "m_closed c \<Longrightarrow> sendImpl m c = c"
  by (simp_all add: stopImpl_def startImpl_def sendImpl_def)

lemma closed_run_post: "m_closed c \<Longrightarrow> run_post p c = c"
  by (cases p) simp_all

lemma closed_writeLoop_test:
  assumes "conn_inv c" and "m_closed c" and "i < length (write_loops c)"
  shows "writeLoop_test i c = c\<lparr>m_writing := False, write_loops := []\<rparr>"
  using assms single_loop [of "write_loops c" i]
  by (auto simp: writeLoop_test_def remove_at_def conn_inv_def loops_inv_def)

lemma conn_step_closed:
  assumes "conn_step c e c'" and "conn_inv c" and "m_closed c"
  shows "closed_extends c c'"
  using assms(1)
proof cases
  case (run_writer i)
  with assms show ?thesis
    by (simp add: closed_writeLoop_test closed_extends_def in_flight_def)
next
  case (message_written i m w)
  have "write_loops c = [Write_awaits m]" and "i = 0"
    using message_written assms(2) single_loop [of "write_loops c" i]
    by (auto simp: conn_inv_def loops_inv_def)
  with message_written assms show ?thesis
    using closed_writeLoop_test [of "c\<lparr>written := written c @ [m]\<rparr>" i]
    by (cases w)
      (simp_all add: writeLoop_written_def closed_extends_def in_flight_def remove_at_def)
next
  case (run_post p ps)
  with assms show ?thesis
    by (simp add: closed_run_post closed_extends_def in_flight_def)
qed (use assms in \<open>auto simp: start_def stop_def send_def readLoop_test_def readLoop_message_def
       readLoop_handler_def closed_extends_def in_flight_def split: sum.splits\<close>)

lemma conn_run_closed:
  "conn_run c es c' \<Longrightarrow> conn_inv c \<Longrightarrow> m_closed c \<Longrightarrow> closed_extends c c'"
proof (induction rule: conn_run.induct)
  case conn_run_init
  then show ?case by (simp add: closed_extends_refl)
next
  case (conn_run_step es c1 e c2)
  then have ext: "closed_extends c c1" by blast
  then have "closed_extends c1 c2"
    using conn_run_step conn_run_inv [of c es c1]
    by (intro conn_step_closed) (auto simp: closed_extends_def)
  with ext show ?case by (rule closed_extends_trans)
qed

section \<open>Later states of a connection\<close>

text \<open>What the owner of a connection relies on when one of its steps is over.\<close>

definition later :: "('i, 'o) conn \<Rightarrow> ('i, 'o) conn \<Rightarrow> bool" where
  "later c c' \<longleftrightarrow> conn_inv c' \<and> same_members c c' \<and> (m_closed c \<longrightarrow> m_closed c')"

lemma later_posts: "conn_inv c \<Longrightarrow> later c (c\<lparr>posts := ps\<rparr>)"
  by (simp add: later_def same_members_def)

lemma later_step: "conn_step c e c' \<Longrightarrow> conn_inv c \<Longrightarrow> later c c'"
  using conn_step_inv [of c e c'] conn_step_frame [of c e c'] conn_step_closed [of c e c']
  by (auto simp: later_def closed_extends_def)

lemma later_readLoop_handler:
  assumes "conn_inv c" and "i < length (read_loops c)"
  shows "later c (readLoop_handler i r c)"
proof -
  have "same_members c (readLoop_handler i r c)"
    by (auto simp: readLoop_handler_def readLoop_test_def stopImpl_def notifyClosed_def
        same_members_def split: sum.splits)
  moreover have "m_closed c \<longrightarrow> m_closed (readLoop_handler i r c)"
    by (auto simp: readLoop_handler_def readLoop_test_def split: sum.splits)
  ultimately show ?thesis
    using readLoop_handler_inv [OF assms] by (simp add: later_def)
qed

text \<open>The step that closes a connection is the one that calls the close handler.\<close>

lemma close_calls_handler:
  assumes "conn_inv c" and "m_hasOnClosed c" and "later c c'"
  shows "closed_calls c < closed_calls c' \<longleftrightarrow> m_closed c' \<and> \<not> m_closed c"
  using assms by (auto simp: later_def same_members_def conn_inv_def close_inv_def)

text \<open>A closed connection, and one whose stop is posted.\<close>

definition stopping :: "('i, 'o) conn \<Rightarrow> bool" where
  "stopping c \<longleftrightarrow> m_closed c \<or> Post_stop \<in> set (posts c)"

lemma conn_step_stopping: "conn_step c e c' \<Longrightarrow> stopping c \<Longrightarrow> stopping c'"
proof (induction rule: conn_step.induct)
  case (run_post c p ps)
  then show ?case
    by (cases p) (auto simp: stopping_def startImpl_def sendImpl_def Let_def)
qed (auto simp: stopping_def start_def stop_def send_def readLoop_test_def readLoop_message_def
    readLoop_handler_def writeLoop_test_def writeLoop_written_def split: sum.splits)

lemma readLoop_handler_stopping: "stopping c \<Longrightarrow> stopping (readLoop_handler i r c)"
  by (auto simp: stopping_def readLoop_handler_def readLoop_test_def split: sum.splits)

lemma posts_stopping: "stopping c \<Longrightarrow> stopping (c\<lparr>posts := posts c @ ps\<rparr>)"
  by (auto simp: stopping_def)

text \<open>Running the posted handlers of a connection that is being stopped closes it.\<close>

lemma stopping_closes:
  "stopping c \<Longrightarrow> \<exists>n c'. n \<le> length (posts c) \<and> conn_execs (replicate n Run_post) c = Some c' \<and> m_closed c'"
proof (induction "posts c" arbitrary: c)
  case Nil
  then show ?case by (intro exI [of _ 0]) (simp add: stopping_def)
next
  case (Cons p ps)
  show ?case
  proof (cases "m_closed c")
    case True
    then show ?thesis by (intro exI [of _ 0]) simp
  next
    case False
    let ?c = "run_post p (c\<lparr>posts := ps\<rparr>)"
    have step: "conn_exec Run_post c = Some ?c"
      using Cons(2) [symmetric] by simp
    have "stopping ?c"
      using conn_step_stopping [OF conn_step.run_post [OF Cons(2) [symmetric]] Cons.prems] .
    moreover have "posts ?c = ps"
      by (cases p) (simp_all add: startImpl_def sendImpl_def Let_def)
    ultimately obtain n c' where "n \<le> length ps" "conn_execs (replicate n Run_post) ?c = Some c'"
      "m_closed c'"
      using Cons(1) [of ?c] by auto
    then show ?thesis
      using step Cons(2) [symmetric] by (intro exI [of _ "Suc n"] exI [of _ c']) simp
  qed
qed

text \<open>The message handler gets what was read, while the connection is open.\<close>

fun read_by :: "('i, 'o) conn \<Rightarrow> ('i, 'o) conn_event \<Rightarrow> 'i list" where
  "read_by c (Message_read i (Inr m)) = (if m_closed c then [] else [m])"
| "read_by c e = []"

lemma run_post_delivered: "delivered (run_post p c) = delivered c"
  by (cases p) (auto simp: conn_op_defs)

lemma conn_step_delivered: "conn_step c e c' \<Longrightarrow> delivered c' = delivered c @ read_by c e"
  by (induction rule: conn_step.induct)
    (auto simp: run_post_delivered start_def stop_def send_def readLoop_test_def
      readLoop_message_def readLoop_handler_def writeLoop_test_def writeLoop_written_def
      split: sum.splits)

text \<open>A message the handler is still busy with is one it was given.\<close>

definition handled_inv :: "('i, 'o) conn \<Rightarrow> bool" where
  "handled_inv c \<longleftrightarrow> (\<forall>m. Read_awaits_handler m \<in> set (read_loops c) \<longrightarrow> m \<in> set (delivered c))"

lemma set_remove_at: "set (remove_at i xs) \<subseteq> set xs"
  using set_take_subset [of i xs] set_drop_subset [of "Suc i" xs] by (auto simp: remove_at_def)

lemma handled_readLoop_test: "handled_inv c \<Longrightarrow> handled_inv (readLoop_test i c)"
  using set_remove_at [of i "read_loops c"] set_update_subset_insert [of "read_loops c" i]
  by (auto simp: handled_inv_def readLoop_test_def)

lemma handled_ends:
  "handled_inv c \<Longrightarrow> handled_inv (c\<lparr>read_loops := remove_at i (read_loops c)\<rparr>)"
  using set_remove_at [of i "read_loops c"] by (auto simp: handled_inv_def)

lemma handled_stopImpl: "handled_inv c \<Longrightarrow> handled_inv (stopImpl reason c)"
  by (simp add: handled_inv_def)

lemma handled_readLoop_handler: "handled_inv c \<Longrightarrow> handled_inv (readLoop_handler i r c)"
  using handled_ends [OF handled_stopImpl, of c i]
  by (auto simp: readLoop_handler_def handled_readLoop_test split: sum.splits)

lemma handled_readLoop_message:
  assumes "handled_inv c"
  shows "handled_inv (readLoop_message i r c)"
proof -
  have "handled_inv (c\<lparr>read_loops := (read_loops c)[i := Read_awaits_handler m],
      delivered := delivered c @ [m]\<rparr>)" for m
    using assms set_update_subset_insert [of "read_loops c" i "Read_awaits_handler m"]
    by (auto simp: handled_inv_def)
  then show ?thesis
    using assms handled_ends [OF handled_stopImpl [OF assms], of i "''read failed''"]
    by (auto simp: readLoop_message_def handled_ends split: sum.splits)
qed

lemma handled_same:
  "handled_inv c \<Longrightarrow> read_loops c' = read_loops c \<Longrightarrow> delivered c' = delivered c \<Longrightarrow> handled_inv c'"
  by (simp add: handled_inv_def)

lemma conn_step_handled: "conn_step c e c' \<Longrightarrow> handled_inv c \<Longrightarrow> handled_inv c'"
proof (induction rule: conn_step.induct)
  case (run_post c p ps)
  then show ?case
    by (cases p) (auto simp: handled_inv_def startImpl_def sendImpl_def Let_def)
qed (auto simp: handled_readLoop_test handled_readLoop_handler handled_readLoop_message start_def
    stop_def send_def writeLoop_test_def writeLoop_written_def
    intro: handled_same split: sum.splits)

section \<open>The queue drains\<close>

text \<open>Each successful write of an open connection takes the next message of the queue.\<close>

lemma drain_writes:
  "\<not> m_closed c \<Longrightarrow> write_loops c = [Write_awaits m] \<Longrightarrow>
     conn_execs (replicate (Suc (length (m_writeQueue c))) (Message_written 0 (Inr ()))) c =
       Some (c\<lparr>m_writeQueue := [], m_writing := False, write_loops := [],
               written := written c @ m # m_writeQueue c\<rparr>)"
proof (induction "m_writeQueue c" arbitrary: c m)
  case Nil
  from Nil(1) [symmetric] show ?case
    using Nil(2,3) by (simp add: writeLoop_written_def writeLoop_test_def remove_at_def)
next
  case (Cons m' q)
  let ?c = "c\<lparr>written := written c @ [m], m_writeQueue := q, write_loops := [Write_awaits m']\<rparr>"
  have "conn_exec (Message_written 0 (Inr ())) c = Some ?c"
    using Cons.prems Cons.hyps(2) [symmetric]
    by (simp add: writeLoop_written_def writeLoop_test_def)
  moreover have "conn_execs (replicate (Suc (length q)) (Message_written 0 (Inr ()))) ?c =
      Some (?c\<lparr>m_writeQueue := [], m_writing := False, write_loops := [],
               written := written ?c @ m' # q\<rparr>)"
    using Cons.hyps(1) [of ?c m'] Cons.prems by simp
  ultimately show ?case
    using Cons.hyps(2) [symmetric] by simp
qed

lemma drain_open:
  assumes "conn_inv c" and "\<not> m_closed c"
  shows "\<exists>es. set es \<subseteq> {Run_writer 0, Message_written 0 (Inr ())} \<and>
     length es \<le> length (m_writeQueue c) + 2 \<and>
     conn_execs es c =
       Some (c\<lparr>m_writeQueue := [], m_writing := False, write_loops := [],
               written := written c @ in_flight c @ m_writeQueue c\<rparr>)"
proof (cases "write_loops c")
  case Nil
  with assms have "m_writeQueue c = []" and "\<not> m_writing c"
    by (auto simp: conn_inv_defs)
  with Nil show ?thesis
    by (intro exI [of _ "[]"]) (simp add: in_flight_def)
next
  case (Cons w ws)
  with assms have ws: "write_loops c = [w]" and writing: "m_writing c"
    by (auto simp: conn_inv_defs)
  show ?thesis
  proof (cases w)
    case (Write_awaits m)
    with drain_writes [OF assms(2), of m] ws show ?thesis
      by (intro exI [of _ "replicate (Suc (length (m_writeQueue c))) (Message_written 0 (Inr ()))"])
        (auto simp: in_flight_def)
  next
    case Write_spawned
    show ?thesis
    proof (cases "m_writeQueue c")
      case Nil
      with Write_spawned ws show ?thesis
        by (intro exI [of _ "[Run_writer 0]"])
          (simp add: in_flight_def writeLoop_test_def remove_at_def)
    next
      case (Cons m q)
      let ?c = "c\<lparr>m_writeQueue := q, write_loops := [Write_awaits m]\<rparr>"
      have "conn_exec (Run_writer 0) c = Some ?c"
        using Write_spawned ws Cons assms(2) by (simp add: writeLoop_test_def)
      moreover have "conn_execs (replicate (Suc (length q)) (Message_written 0 (Inr ()))) ?c =
          Some (?c\<lparr>m_writeQueue := [], m_writing := False, write_loops := [],
                   written := written c @ m # q\<rparr>)"
        using drain_writes [of ?c m] assms(2) by simp
      ultimately show ?thesis
        using Write_spawned ws Cons
        by (intro exI [of _ "Run_writer 0 # replicate (Suc (length q)) (Message_written 0 (Inr ()))"])
          (auto simp: in_flight_def)
    qed
  qed
qed

section \<open>Properties\<close>

text \<open>
  C24: one coroutine of each kind. In every state a new connection can reach, at most one
  \<open>readLoop\<close> and at most one \<open>writeLoop\<close> are alive, so two writes are never interleaved on the
  socket; while the connection is open, \<open>m_writing\<close> is true exactly when a \<open>writeLoop\<close> lives and
  \<open>m_started\<close> exactly when a \<open>readLoop\<close> lives; the queue stays within its limit, and an open
  connection never has a queued message without a \<open>writeLoop\<close> to send it.
\<close>

theorem connection_loops_exclusive:
  assumes "connection_create cid cfg True hasOnClosed = Inr c0" and "conn_run c0 es c"
  shows "length (write_loops c) \<le> 1 \<and> length (read_loops c) \<le> 1 \<and>
     length (m_writeQueue c) \<le> m_maxQueuedMessages c \<and>
     (if m_closed c then m_writeQueue c = [] \<and> \<not> m_writing c
      else (m_writing c \<longleftrightarrow> write_loops c \<noteq> []) \<and> (m_started c \<longleftrightarrow> read_loops c \<noteq> []) \<and>
           (m_writeQueue c \<noteq> [] \<longrightarrow> write_loops c \<noteq> []))"
  using conn_run_inv [OF assms(2) create_inv [OF assms(1)]]
  by (auto simp: conn_inv_defs)

text \<open>A connection with one queue place, two messages sent and the first being written.\<close>

definition sample_conn :: "(nat, nat) conn" where
  "sample_conn =
     \<lparr>m_id = Connection_id 1, m_maxMessageBytes = 64, m_maxQueuedMessages = 1,
      m_hasOnClosed = True, m_started = False, m_closed = False, m_writing = False,
      m_writeQueue = [], posts = [], read_loops = [], write_loops = [],
      delivered = [], written = [], stop_reason = None, closed_calls = 0\<rparr>"

lemma sample_create:
  "connection_create (Connection_id 1) \<lparr>maxMessageBytes = 64, maxQueuedMessages = 1\<rparr> True True
     = Inr sample_conn"
  by (simp add: connection_create_def sample_conn_def)

definition sample_events :: "(nat, nat) conn_event list" where
  "sample_events =
     [Call_start, Call_send 5, Call_send 6, Run_post, Run_reader 0, Run_post, Run_writer 0, Run_post]"

lemma sample_run:
  "conn_run sample_conn sample_events
     (sample_conn\<lparr>m_started := True, m_writing := True, m_writeQueue := [6],
        read_loops := [Read_awaits_message], write_loops := [Write_awaits 5]\<rparr>)"
  by (simp add: conn_run_iff_execs sample_events_def sample_conn_def start_def send_def
      startImpl_def sendImpl_def readLoop_test_def writeLoop_test_def)

theorem connection_loops_exclusive_witness:
  "\<exists>c. conn_run sample_conn sample_events c \<and> m_writeQueue c = [6] \<and>
     length (write_loops c) \<le> 1 \<and> write_loops c \<noteq> []"
  using connection_loops_exclusive [OF sample_create sample_run] sample_run
  by (intro exI conjI) (auto simp: sample_conn_def)

text \<open>
  C15: messages leave in the order they were sent, without loss or duplication. The messages
  written are always a prefix of the messages given to \<open>send\<close>, in that order; and as long as
  the connection is open, every message sent is written, being written, queued or posted.
\<close>

theorem connection_fifo:
  assumes "connection_create cid cfg True hasOnClosed = Inr c0" and "conn_run c0 es c"
  shows "prefix (written c @ in_flight c) (sent es) \<and>
     (m_closed c \<or> sent es = written c @ in_flight c @ m_writeQueue c @ pending_sends c)"
  using conn_run_fifo [OF assms(2) create_inv [OF assms(1)] create_fifo [OF assms(1)]]
  by (auto simp: conn_fifo_def prefix_def)

theorem connection_fifo_witness:
  "\<exists>c. conn_run sample_conn sample_events c \<and> prefix (written c @ in_flight c) (sent sample_events)
     \<and> in_flight c = [5]"
  using connection_fifo [OF sample_create sample_run] sample_run
  by (intro exI conjI) (auto simp: sample_conn_def in_flight_def)

text \<open>
  C19: a connection closes once and for all. The close handler has been called exactly once if
  the connection is closed and never before; after the close no message reaches the message
  handler, the close is not repeated, and at most the write that was already on its way
  completes.
\<close>

theorem connection_closes_once:
  assumes "connection_create cid cfg True True = Inr c0" and "conn_run c0 es c"
    and "conn_run c fs c'"
  shows "closed_calls c = (if m_closed c then 1 else 0) \<and>
     (m_closed c \<longrightarrow>
        m_closed c' \<and> closed_calls c' = 1 \<and> stop_reason c' = stop_reason c \<and>
        delivered c' = delivered c \<and> prefix (written c') (written c @ in_flight c))"
proof -
  have hc: "m_hasOnClosed c0"
    using assms(1) by (auto simp: connection_create_def split: if_splits)
  have "conn_inv c"
    using conn_run_inv [OF assms(2) create_inv [OF assms(1)]] .
  with conn_run_closed [OF assms(3)] hc conn_run_frame [OF assms(2)] show ?thesis
    by (auto simp: conn_inv_def close_inv_def closed_extends_def same_members_def
        dest: append_prefixD)
qed

theorem connection_closes_once_witness:
  "\<exists>c c'. conn_run sample_conn sample_events c \<and> \<not> m_closed c \<and> closed_calls c = 0 \<and>
     conn_run c [Call_stop, Run_post, Message_written 0 (Inr ())] c' \<and> closed_calls c' = 1"
proof -
  let ?c = "sample_conn\<lparr>m_started := True, m_writing := True, m_writeQueue := [6],
        read_loops := [Read_awaits_message], write_loops := [Write_awaits 5]\<rparr>"
  let ?c1 = "?c\<lparr>m_closed := True, m_writing := False, m_writeQueue := [],
        closed_calls := 1, stop_reason := Some ''local stop''\<rparr>"
  let ?c2 = "?c1\<lparr>written := [5], write_loops := []\<rparr>"
  have 1: "conn_run ?c [Call_stop, Run_post] ?c1"
    by (simp add: conn_run_iff_execs sample_conn_def stop_def stopImpl_def notifyClosed_def)
  have 2: "conn_run ?c1 [Message_written 0 (Inr ())] ?c2"
    by (simp add: conn_run_iff_execs sample_conn_def writeLoop_written_def writeLoop_test_def
        remove_at_def)
  have 3: "conn_run sample_conn (sample_events @ [Call_stop, Run_post]) ?c1"
    by (rule conn_run_append [OF sample_run 1])
  have "closed_calls ?c2 = 1"
    using connection_closes_once [OF sample_create 3 2] by simp
  moreover have "closed_calls ?c = 0"
    using connection_closes_once [OF sample_create sample_run conn_run_init]
    by (simp add: sample_conn_def)
  moreover have "conn_run ?c [Call_stop, Run_post, Message_written 0 (Inr ())] ?c2"
    using conn_run_append [OF 1 2] by simp
  ultimately show ?thesis
    using sample_run by (intro exI conjI) (auto simp: sample_conn_def)
qed

text \<open>
  The queue drains. From any state a new connection can reach in which it is open, if the
  writes succeed, the \<open>writeLoop\<close> alone, in at most two steps more than there are queued
  messages, writes the message in flight and then the whole queue, and ends.
\<close>

lemma connection_drains:
  assumes "connection_create cid cfg True hasOnClosed = Inr c0" and "conn_run c0 es c"
    and "\<not> m_closed c"
  shows "\<exists>fs c'. set fs \<subseteq> {Run_writer 0, Message_written 0 (Inr ())} \<and>
     length fs \<le> length (m_writeQueue c) + 2 \<and> conn_run c fs c' \<and> \<not> m_closed c' \<and>
     written c' = written c @ in_flight c @ m_writeQueue c \<and>
     m_writeQueue c' = [] \<and> write_loops c' = []"
  using drain_open [OF conn_run_inv [OF assms(2) create_inv [OF assms(1)]] assms(3)] assms(3)
  unfolding conn_run_iff_execs by fastforce

text \<open>
  \<open>sendImpl\<close> branch by branch: a message is queued, starting a \<open>writeLoop\<close> exactly if none is
  writing, or a full queue closes the connection, or a closed connection ignores it.
\<close>

lemma sendImpl_behaviour:
  "sendImpl m c =
     (if m_closed c then c
      else if length (m_writeQueue c) < m_maxQueuedMessages c
      then c\<lparr>m_writeQueue := m_writeQueue c @ [m], m_writing := True,
             write_loops := write_loops c @ (if m_writing c then [] else [Write_spawned])\<rparr>
      else c\<lparr>m_closed := True, m_writeQueue := [], m_writing := False,
             stop_reason := Some ''write queue limit exceeded'',
             closed_calls := closed_calls c + (if m_hasOnClosed c then 1 else 0)\<rparr>)"
  by (auto simp: sendImpl_def stopImpl_def notifyClosed_def Let_def)


end
