(* ===== verification/World.thy ===== *)
theory World
  imports Std_Containers
begin

text \<open>
  \<open>server/src/game/WorldTypes.hpp\<close>, \<open>WorldAction.hpp\<close>, \<open>WorldState.hpp\<close> and \<open>WorldState.cpp\<close>:
  the players on the map, the identifiers they are given, their movement and the snapshot
  sent to clients. The snapshot is the JSON value the code builds; turning it into text is the
  JSON library's \<open>dump\<close>, a parameter that may throw.
\<close>

section \<open>Types\<close>

type_synonym player_id = u8

text \<open>A \<open>Position\<close> has the defaulted, lexicographic \<open>operator<=>\<close>.\<close>

datatype position = Position (pos_x: int) (pos_y: int)

definition compare_position :: "position \<Rightarrow> position \<Rightarrow> ordering" where
  "compare_position p q =
     (case three_way (pos_x p) (pos_x q) of
        Ord_equal \<Rightarrow> three_way (pos_y p) (pos_y q)
      | different \<Rightarrow> different)"

instantiation position :: linorder
begin

definition less_eq_position :: "position \<Rightarrow> position \<Rightarrow> bool" where
  "less_eq_position p q \<longleftrightarrow> compare_position p q \<noteq> Ord_greater"

definition less_position :: "position \<Rightarrow> position \<Rightarrow> bool" where
  "less_position p q \<longleftrightarrow> compare_position p q = Ord_less"

instance
  by standard (auto simp: less_eq_position_def less_position_def compare_position_def
      three_way_def position.expand split: if_splits ordering.splits)

end

record tile_map =
  tile_name :: string
  tile_width :: int
  tile_height :: int

record player_state =
  player_id_of :: player_id
  player_position :: position

datatype world_action = MoveAction position | InteractAction | WaitAction

record world =
  w_players :: "(player_id, player_state) std_map"
  w_map :: tile_map
  w_spawn :: position
  w_next :: player_id

section \<open>Operations\<close>

definition WorldState :: "tile_map \<Rightarrow> world" where
  "WorldState m = \<lparr>w_players = [], w_map = m, w_spawn = Position 0 0, w_next = 1\<rparr>"

definition createInitial :: world where
  "createInitial =
     WorldState \<lparr>tile_name = ''bootstrap'', tile_width = 32, tile_height = 18\<rparr>"

definition player :: "player_id \<Rightarrow> world \<Rightarrow> player_state option" where
  "player pid w = map_of (w_players w) pid"

definition player_id_max :: player_id where
  "player_id_max = 255"

definition addPlayer :: "world \<Rightarrow> player_id result \<times> world" where
  "addPlayer w =
     (if w_next w = player_id_max then (Inl (Runtime_error ''Too many players''), w)
      else let pid = w_next w;
               w1 = w\<lparr>w_next := w_next w + 1\<rparr>
           in (Inr pid, w1\<lparr>w_players := sm_emplace pid
                 \<lparr>player_id_of = pid, player_position = w_spawn w1\<rparr> (w_players w1)\<rparr>))"

definition removePlayer :: "player_id \<Rightarrow> world \<Rightarrow> bool \<times> world" where
  "removePlayer pid w =
     (sm_erased pid (w_players w) > 0, w\<lparr>w_players := sm_erase pid (w_players w)\<rparr>)"

text \<open>\<open>position.x += delta.x\<close>, then \<open>position.y += delta.y\<close>, on \<open>int\<close>.\<close>

definition add_position :: "position \<Rightarrow> position \<Rightarrow> position option" where
  "add_position p d =
     (case add_int32 (pos_x p) (pos_x d) of
        None \<Rightarrow> None
      | Some x \<Rightarrow> (case add_int32 (pos_y p) (pos_y d) of None \<Rightarrow> None | Some y \<Rightarrow> Some (Position x y)))"

definition movePlayer :: "player_id \<Rightarrow> position \<Rightarrow> world \<Rightarrow> fault + (bool \<times> world)" where
  "movePlayer pid delta w =
     (case map_of (w_players w) pid of
        None \<Rightarrow> Inr (False, w)
      | Some p \<Rightarrow>
          (case add_position (player_position p) delta of
             None \<Rightarrow> Inl Undefined_behaviour
           | Some q \<Rightarrow>
               Inr (True, w\<lparr>w_players :=
                      sm_assign pid (p\<lparr>player_position := q\<rparr>) (w_players w)\<rparr>)))"

datatype json =
    JInt int
  | JString string
  | JArray "json list"
  | JObject "(string \<times> json) list"

definition player_json :: "player_state \<Rightarrow> json" where
  "player_json p =
     JObject [(''id'', JInt (uint (player_id_of p))),
              (''position'', JObject [(''x'', JInt (pos_x (player_position p))),
                                      (''y'', JInt (pos_y (player_position p)))])]"

definition world_json :: "world \<Rightarrow> json" where
  "world_json w =
     JObject [(''world'', JString (tile_name (w_map w))),
              (''map'', JObject [(''width'', JInt (tile_width (w_map w))),
                                 (''height'', JInt (tile_height (w_map w)))]),
              (''players'', JArray (map player_json (map snd (w_players w))))]"

definition toJson :: "(json \<Rightarrow> string result) \<Rightarrow> world \<Rightarrow> string result" where
  "toJson dump w = dump (world_json w)"

section \<open>Well-formed worlds\<close>

text \<open>
  Keys are the identifiers of the players they hold, were all issued (they lie between 1 and
  the next identifier), and every coordinate is a value of \<open>int\<close>.
\<close>

definition in_range :: "position \<Rightarrow> bool" where
  "in_range p \<longleftrightarrow> in_int32 (pos_x p) \<and> in_int32 (pos_y p)"

definition world_ok :: "world \<Rightarrow> bool" where
  "world_ok w \<longleftrightarrow>
     sm_ok (w_players w) \<and> 1 \<le> w_next w \<and> in_range (w_spawn w) \<and>
     (\<forall>k p. map_of (w_players w) k = Some p \<longrightarrow>
        player_id_of p = k \<and> 1 \<le> k \<and> k < w_next w \<and> in_range (player_position p))"

lemma world_okD:
  "world_ok w \<Longrightarrow> sm_ok (w_players w)"
  "world_ok w \<Longrightarrow> map_of (w_players w) k = Some p \<Longrightarrow> k < w_next w"
  "world_ok w \<Longrightarrow> map_of (w_players w) k = Some p \<Longrightarrow> player_id_of p = k"
  by (auto simp: world_ok_def)

lemma world_ok_initial [intro]: "world_ok (WorldState m)"
  by (simp add: world_ok_def WorldState_def in_range_def)

lemma next_player_fresh: "world_ok w \<Longrightarrow> map_of (w_players w) (w_next w) = None"
  using world_okD(2) [of w "w_next w"] by (cases "map_of (w_players w) (w_next w)") auto

lemma next_player_less:
  assumes "(n :: player_id) \<noteq> player_id_max"
  shows "n < n + 1" and "unat (n + 1) = Suc (unat n)"
proof -
  have "unat n \<noteq> 255"
    using assms by (auto simp: player_id_max_def word_eq_iff_unsigned [where 'a = nat])
  moreover have "unat n < 2 ^ LENGTH(8)"
    by (rule unsigned_less)
  ultimately have "Suc (unat n) < 2 ^ LENGTH(8)"
    by simp
  then show "unat (n + 1) = Suc (unat n)"
    by (rule unat_inc_no_wrap)
  then show "n < n + 1"
    by (simp add: word_less_nat_alt)
qed

section \<open>The operations on well-formed worlds\<close>

lemma add_position_Some:
  "add_position p d = Some q \<longleftrightarrow>
     in_range q \<and> pos_x q = pos_x p + pos_x d \<and> pos_y q = pos_y p + pos_y d"
  by (cases q) (auto simp: add_position_def in_range_def split: option.splits)

lemma addPlayer_cases:
  obtains (full) "w_next w = player_id_max" and "addPlayer w = (Inl (Runtime_error ''Too many players''), w)"
  | (added) w' where "w_next w \<noteq> player_id_max" and "addPlayer w = (Inr (w_next w), w')"
      and "w_next w' = w_next w + 1" and "w_map w' = w_map w" and "w_spawn w' = w_spawn w"
      and "w_players w' = sm_emplace (w_next w)
             \<lparr>player_id_of = w_next w, player_position = w_spawn w\<rparr> (w_players w)"
proof (cases "w_next w = player_id_max")
  case True
  then show ?thesis by (intro full) (simp_all add: addPlayer_def)
next
  case False
  then show ?thesis by (intro added [of "snd (addPlayer w)"]) (simp_all add: addPlayer_def Let_def)
qed

lemma find_added [world_simps]:
  assumes "world_ok w" and "addPlayer w = (Inr pid, w')"
  shows "pid = w_next w" and "map_of (w_players w') =
    (map_of (w_players w))(w_next w \<mapsto> \<lparr>player_id_of = w_next w, player_position = w_spawn w\<rparr>)"
  using assms next_player_fresh [OF assms(1)] world_okD(1) [OF assms(1)]
  by (cases rule: addPlayer_cases [of w]; simp add: sm.emplace_fresh)+

lemma world_ok_addPlayer:
  assumes "world_ok w" and "addPlayer w = (r, w')"
  shows "world_ok w'"
proof (cases rule: addPlayer_cases [of w])
  case full
  with assms show ?thesis by simp
next
  case (added w'')
  with assms have w': "w'' = w'" and r: "addPlayer w = (Inr (w_next w), w')" by auto
  note lt = next_player_less [OF added(1)]
  have "k < w_next w + 1" if "k < w_next w" for k
    using that lt(1) by (rule less_trans)
  moreover have "1 \<le> w_next w" "1 \<le> w_next w + 1"
    using assms(1) lt(1) by (auto simp: world_ok_def)
  ultimately show ?thesis
    using assms(1) added(3-6) find_added(2) [OF assms(1) r] lt(1) sm.ok_emplace
    unfolding w' world_ok_def by (auto simp: in_range_def)
qed

lemma find_removed [world_simps]:
  "world_ok w \<Longrightarrow> removePlayer pid w = (b, w') \<Longrightarrow>
     map_of (w_players w') = (map_of (w_players w))(pid := None) \<and>
     (b \<longleftrightarrow> map_of (w_players w) pid \<noteq> None) \<and>
     w_map w' = w_map w \<and> w_spawn w' = w_spawn w \<and> w_next w' = w_next w"
  by (auto simp: removePlayer_def sm_erased_def sm.find_erase world_okD(1) split: if_splits)

lemma world_ok_removePlayer:
  assumes "world_ok w" and "removePlayer pid w = (b, w')"
  shows "world_ok w'"
  using assms find_removed [OF assms] sm.ok_erase [of "w_players w" pid]
  by (auto simp: world_ok_def removePlayer_def)

lemma movePlayer_cases:
  assumes "world_ok w"
  obtains (absent) "map_of (w_players w) pid = None" and "movePlayer pid d w = Inr (False, w)"
  | (overflow) p where "map_of (w_players w) pid = Some p"
      and "add_position (player_position p) d = None"
      and "movePlayer pid d w = Inl Undefined_behaviour"
  | (moved) p q w' where "map_of (w_players w) pid = Some p"
      and "add_position (player_position p) d = Some q"
      and "movePlayer pid d w = Inr (True, w')"
      and "map_of (w_players w') = (map_of (w_players w))(pid \<mapsto> p\<lparr>player_position := q\<rparr>)"
      and "sm_ok (w_players w')"
      and "w_map w' = w_map w" and "w_spawn w' = w_spawn w" and "w_next w' = w_next w"
  using world_okD(1) [OF assms]
  by (cases "map_of (w_players w) pid";
      cases "add_position (player_position (the (map_of (w_players w) pid))) d")
    (auto simp: movePlayer_def sm.find_assign sm.ok_assign)

lemma world_ok_movePlayer:
  assumes "world_ok w" and "movePlayer pid d w = Inr (b, w')"
  shows "world_ok w'"
  using assms
  by (cases rule: movePlayer_cases [OF assms(1), of pid d])
    (auto simp: world_ok_def add_position_Some)

section \<open>Properties\<close>

text \<open>
  Identifiers are unique for the lifetime of the world. In a well-formed world
  \<open>addPlayer\<close> either throws and changes nothing, exactly when all identifiers up to 254 have
  been issued, or returns an identifier above every one in use, puts a player with that
  identifier on the spawn position and leaves every other player alone; the world stays
  well-formed.
\<close>

lemma addPlayer_fresh:
  assumes "world_ok w"
  shows "case addPlayer w of
      (Inl x, w') \<Rightarrow> w' = w \<and> unat (w_next w) = 255 \<and> x = Runtime_error ''Too many players''
    | (Inr pid, w') \<Rightarrow>
        world_ok w' \<and> player pid w = None \<and> (\<forall>k. player k w \<noteq> None \<longrightarrow> k < pid) \<and>
        player pid w' = Some \<lparr>player_id_of = pid, player_position = w_spawn w\<rparr> \<and>
        (\<forall>k. k \<noteq> pid \<longrightarrow> player k w' = player k w) \<and> pid < w_next w'"
proof (cases rule: addPlayer_cases [of w])
  case full
  then show ?thesis by (simp add: player_id_max_def)
next
  case (added w')
  with find_added [OF assms added(2)] world_ok_addPlayer [OF assms added(2)]
    next_player_fresh [OF assms] next_player_less [OF added(1)] world_okD(2) [OF assms]
  show ?thesis by (auto simp: player_def)
qed

text \<open>
  C31: the snapshot is the world. In a well-formed world the \<open>players\<close> array lists each
  player exactly once, by strictly ascending identifier, with its own identifier and position,
  next to the name and size of the map.
\<close>

fun json_field :: "string \<Rightarrow> json \<Rightarrow> json option" where
  "json_field k (JObject fs) = map_of fs k"
| "json_field k _ = None"


text \<open>The initial world with one player, at which the theorems are applied.\<close>

definition sample_world :: world where
  "sample_world = snd (addPlayer createInitial)"

lemma sample_world_ok: "world_ok sample_world"
  unfolding sample_world_def
  by (rule world_ok_addPlayer [of createInitial "fst (addPlayer createInitial)"])
    (simp_all add: createInitial_def world_ok_initial)


text \<open>
  A move adds the delta and nothing else, or it is undefined. In a well-formed world
  \<open>movePlayer\<close> of an unknown player returns false and changes nothing; of a known player it
  adds the two coordinates, changes no other player and keeps the world well-formed, unless a
  sum leaves the range of \<open>int\<close>, and only then the behaviour is undefined. The size of the map
  plays no role.
\<close>

lemma movePlayer_adds_delta:
  assumes "world_ok w"
  shows "case movePlayer pid d w of
      Inr (False, w') \<Rightarrow> w' = w \<and> player pid w = None
    | Inr (True, w') \<Rightarrow>
        world_ok w' \<and>
        (\<exists>p. player pid w = Some p \<and>
           player pid w' = Some (p\<lparr>player_position :=
             Position (pos_x (player_position p) + pos_x d)
                      (pos_y (player_position p) + pos_y d)\<rparr>)) \<and>
        (\<forall>k. k \<noteq> pid \<longrightarrow> player k w' = player k w) \<and> w_next w' = w_next w
    | Inl f \<Rightarrow> f = Undefined_behaviour \<and>
        (\<exists>p. player pid w = Some p \<and>
           \<not> (in_int32 (pos_x (player_position p) + pos_x d) \<and>
              in_int32 (pos_y (player_position p) + pos_y d)))"
  using assms
proof (cases rule: movePlayer_cases [where pid = pid and d = d])
  case absent
  then show ?thesis by (simp add: player_def)
next
  case (overflow p)
  then show ?thesis
    by (auto simp: player_def add_position_def split: option.splits)
next
  case (moved p q w')
  then have "q = Position (pos_x (player_position p) + pos_x d) (pos_y (player_position p) + pos_y d)"
    by (cases q) (simp add: add_position_Some)
  with moved world_ok_movePlayer [OF assms moved(3)] show ?thesis
    by (simp add: player_def)
qed

end
