(* ===== verification/World_Service.thy ===== *)
theory World_Service
  imports World
begin

text \<open>
  \<open>server/src/game/PlayerConnectionRegistry.hpp\<close>/\<open>.cpp\<close> and \<open>WorldService.hpp\<close>/\<open>.cpp\<close>: which
  connection plays which player, and the service that keeps the registry and the world in
  step. The service uses the registry through the contract \<open>player_registry\<close>; what clients of
  the service may rely on is the abstract service at the end, which knows connections and
  positions but no player identifiers.
\<close>

section \<open>PlayerConnectionRegistry\<close>

type_synonym connection_key = u16

record registry =
  m_playersByConnection :: "(connection_key, player_id) std_map"

definition new_registry :: registry where
  "new_registry = \<lparr>m_playersByConnection = []\<rparr>"

definition playerFor :: "registry \<Rightarrow> connection_key \<Rightarrow> player_id option" where
  "playerFor r connection = map_of (m_playersByConnection r) connection"

definition bind_player :: "connection_key \<Rightarrow> player_id \<Rightarrow> registry \<Rightarrow> registry" where
  "bind_player connection p r =
     r\<lparr>m_playersByConnection := sm_assign connection p (m_playersByConnection r)\<rparr>"

definition unbind_player :: "connection_key \<Rightarrow> registry \<Rightarrow> registry" where
  "unbind_player connection r =
     r\<lparr>m_playersByConnection := sm_erase connection (m_playersByConnection r)\<rparr>"

definition registry_ok :: "registry \<Rightarrow> bool" where
  "registry_ok r \<longleftrightarrow> sm_ok (m_playersByConnection r)"

text \<open>
  The contract: a lookup after \<open>bind\<close> and \<open>unbind\<close>. From it follows what keeps two
  connections from ever sharing a player.
\<close>

definition exclusive :: "('c \<rightharpoonup> 'p) \<Rightarrow> bool" where
  "exclusive m \<longleftrightarrow> (\<forall>c c' p. m c = Some p \<longrightarrow> m c' = Some p \<longrightarrow> c = c')"

locale player_registry =
  fixes ok :: "'r \<Rightarrow> bool"
    and lookup :: "'r \<Rightarrow> 'c \<Rightarrow> 'p option"
    and bnd :: "'c \<Rightarrow> 'p \<Rightarrow> 'r \<Rightarrow> 'r"
    and unbnd :: "'c \<Rightarrow> 'r \<Rightarrow> 'r"
  assumes ok_bnd: "ok r \<Longrightarrow> ok (bnd c p r)"
    and ok_unbnd: "ok r \<Longrightarrow> ok (unbnd c r)"
    and lookup_bnd: "ok r \<Longrightarrow> lookup (bnd c p r) = (lookup r)(c \<mapsto> p)"
    and lookup_unbnd: "ok r \<Longrightarrow> lookup (unbnd c r) = (lookup r)(c := None)"
begin

lemma exclusive_bnd:
  "ok r \<Longrightarrow> exclusive (lookup r) \<Longrightarrow> \<forall>c'. lookup r c' \<noteq> Some p \<Longrightarrow>
     exclusive (lookup (bnd c p r))"
  by (auto simp: exclusive_def lookup_bnd)

lemma exclusive_unbnd:
  "ok r \<Longrightarrow> exclusive (lookup r) \<Longrightarrow> exclusive (lookup (unbnd c r))"
  by (auto simp: exclusive_def lookup_unbnd)

lemma unbnd_loses_player:
  "ok r \<Longrightarrow> exclusive (lookup r) \<Longrightarrow> lookup r c = Some p \<Longrightarrow> lookup (unbnd c r) c' \<noteq> Some p"
  by (auto simp: exclusive_def lookup_unbnd)

lemma bnd_adds_player:
  "ok r \<Longrightarrow> lookup r c = None \<Longrightarrow>
     (\<exists>c'. lookup (bnd c p r) c' = Some q) \<longleftrightarrow> q = p \<or> (\<exists>c'. lookup r c' = Some q)"
  by (auto simp: lookup_bnd) (metis option.distinct(1))

lemma unbnd_keeps_others:
  "ok r \<Longrightarrow> lookup r c = Some p \<Longrightarrow> q \<noteq> p \<Longrightarrow>
     (\<exists>c'. lookup (unbnd c r) c' = Some q) \<longleftrightarrow> (\<exists>c'. lookup r c' = Some q)"
  by (auto simp: lookup_unbnd) (metis option.inject)

end

interpretation reg: player_registry registry_ok playerFor bind_player unbind_player
  by unfold_locales
    (auto simp: registry_ok_def playerFor_def bind_player_def unbind_player_def
      sm.find_assign sm.find_erase)

section \<open>WorldService\<close>

record service =
  sv_state :: world
  sv_connections :: registry

definition WorldService :: "world \<Rightarrow> service" where
  "WorldService state = \<lparr>sv_state = state, sv_connections = new_registry\<rparr>"

definition default_WorldService :: service where
  "default_WorldService = WorldService createInitial"

definition connect :: "connection_key \<Rightarrow> service \<Rightarrow> player_id result \<times> service" where
  "connect connection s =
     (case playerFor (sv_connections s) connection of
        Some existingPlayer \<Rightarrow> (Inr existingPlayer, s)
      | None \<Rightarrow>
          (case addPlayer (sv_state s) of
             (Inl x, w) \<Rightarrow> (Inl x, s\<lparr>sv_state := w\<rparr>)
           | (Inr p, w) \<Rightarrow>
               (Inr p, s\<lparr>sv_state := w,
                         sv_connections := bind_player connection p (sv_connections s)\<rparr>)))"

definition disconnect :: "connection_key \<Rightarrow> service \<Rightarrow> service" where
  "disconnect connection s =
     (case playerFor (sv_connections s) connection of
        None \<Rightarrow> s
      | Some p \<Rightarrow>
          s\<lparr>sv_connections := unbind_player connection (sv_connections s),
            sv_state := snd (removePlayer p (sv_state s))\<rparr>)"

fun applyToPlayer :: "player_id \<Rightarrow> world_action \<Rightarrow> service \<Rightarrow> fault + service" where
  "applyToPlayer p (MoveAction delta) s =
     (case movePlayer p delta (sv_state s) of
        Inl f \<Rightarrow> Inl f
      | Inr (_, w) \<Rightarrow> Inr (s\<lparr>sv_state := w\<rparr>))"
| "applyToPlayer p InteractAction s = Inr s"
| "applyToPlayer p WaitAction s = Inr s"

definition apply_action :: "connection_key \<Rightarrow> world_action \<Rightarrow> service \<Rightarrow> fault + service" where
  "apply_action connection action s =
     (case playerFor (sv_connections s) connection of
        None \<Rightarrow> Inr s
      | Some p \<Rightarrow> applyToPlayer p action s)"

definition snapshotJson :: "(json \<Rightarrow> string result) \<Rightarrow> service \<Rightarrow> string result" where
  "snapshotJson dump s = toJson dump (sv_state s)"

section \<open>The registry and the world agree\<close>

definition service_ok :: "service \<Rightarrow> bool" where
  "service_ok s \<longleftrightarrow>
     world_ok (sv_state s) \<and> registry_ok (sv_connections s) \<and>
     exclusive (playerFor (sv_connections s)) \<and>
     (\<forall>p. (\<exists>c. playerFor (sv_connections s) c = Some p) \<longleftrightarrow> player p (sv_state s) \<noteq> None)"

lemma service_okD:
  "service_ok s \<Longrightarrow> world_ok (sv_state s)"
  "service_ok s \<Longrightarrow> registry_ok (sv_connections s)"
  "service_ok s \<Longrightarrow> exclusive (playerFor (sv_connections s))"
  "service_ok s \<Longrightarrow> playerFor (sv_connections s) c = Some p \<Longrightarrow> \<exists>q. player p (sv_state s) = Some q"
  by (auto simp: service_ok_def)

lemma service_ok_initial: "world_ok w \<Longrightarrow> w_players w = [] \<Longrightarrow> service_ok (WorldService w)"
  by (auto simp: service_ok_def WorldService_def new_registry_def registry_ok_def playerFor_def
      player_def exclusive_def)

lemma service_ok_default: "service_ok default_WorldService"
  unfolding default_WorldService_def
  by (rule service_ok_initial) (auto simp: createInitial_def WorldState_def
      intro: world_ok_initial [unfolded WorldState_def])

lemma fresh_player_unbound:
  "service_ok s \<Longrightarrow> playerFor (sv_connections s) c \<noteq> Some (w_next (sv_state s))"
  using next_player_fresh [OF service_okD(1)] service_okD(4) [of s c "w_next (sv_state s)"]
  by (auto simp: player_def)

lemma connect_cases:
  assumes "service_ok s"
  obtains (known) p where "playerFor (sv_connections s) c = Some p" and "connect c s = (Inr p, s)"
  | (exhausted) "playerFor (sv_connections s) c = None" and "w_next (sv_state s) = player_id_max"
      and "connect c s = (Inl (Runtime_error ''Too many players''), s)"
  | (created) w' where "playerFor (sv_connections s) c = None"
      and "w_next (sv_state s) \<noteq> player_id_max"
      and "addPlayer (sv_state s) = (Inr (w_next (sv_state s)), w')"
      and "connect c s = (Inr (w_next (sv_state s)),
             s\<lparr>sv_state := w',
               sv_connections := bind_player c (w_next (sv_state s)) (sv_connections s)\<rparr>)"
proof (cases "playerFor (sv_connections s) c")
  case (Some p)
  then show ?thesis by (intro known) (simp_all add: connect_def)
next
  case None
  show ?thesis
  proof (cases rule: addPlayer_cases [of "sv_state s"])
    case full
    with None show ?thesis by (intro exhausted) (simp_all add: connect_def)
  next
    case (added w')
    with None show ?thesis by (intro created [of w']) (simp_all add: connect_def)
  qed
qed

lemma service_ok_connect:
  assumes ok: "service_ok s"
  shows "service_ok (snd (connect c s))"
  using ok
proof (cases rule: connect_cases [where c = c])
  case (created w')
  let ?p = "w_next (sv_state s)"
  note find = find_added(2) [OF service_okD(1) [OF ok] created(3)]
  have "world_ok w'"
    using service_okD(1) [OF ok] created(3) by (rule world_ok_addPlayer)
  moreover have "exclusive (playerFor (bind_player c ?p (sv_connections s)))"
    using fresh_player_unbound [OF ok]
    by (intro reg.exclusive_bnd service_okD [OF ok]) simp
  moreover have "registry_ok (bind_player c ?p (sv_connections s))"
    using ok by (intro reg.ok_bnd service_okD)
  moreover have "(\<exists>c'. playerFor (bind_player c ?p (sv_connections s)) c' = Some p)
      \<longleftrightarrow> player p w' \<noteq> None" for p
    using ok by (auto simp: reg.bnd_adds_player [OF service_okD(2) [OF ok] created(1)]
        player_def find service_ok_def)
  ultimately show ?thesis
    using created(4) by (simp add: service_ok_def)
qed (use ok in simp_all)

lemma service_ok_disconnect:
  assumes ok: "service_ok s"
  shows "service_ok (disconnect c s)"
proof (cases "playerFor (sv_connections s) c")
  case None
  with ok show ?thesis by (simp add: disconnect_def)
next
  case (Some p)
  let ?r = "unbind_player c (sv_connections s)"
  obtain b w' where rem: "removePlayer p (sv_state s) = (b, w')" by fastforce
  note find = find_removed [OF service_okD(1) [OF ok] rem]
  note r = service_okD(2,3) [OF ok]
  have "(\<exists>c'. playerFor ?r c' = Some q) \<longleftrightarrow> player q w' \<noteq> None" for q
    using ok find Some reg.unbnd_loses_player [OF r Some] reg.unbnd_keeps_others [OF r(1) Some, of q]
    by (cases "q = p") (auto simp: player_def service_ok_def)
  moreover have "world_ok w'"
    using service_okD(1) [OF ok] rem by (rule world_ok_removePlayer)
  ultimately show ?thesis
    using Some rem r reg.ok_unbnd [of "sv_connections s" c]
      reg.exclusive_unbnd [of "sv_connections s" c]
    by (simp add: disconnect_def service_ok_def)
qed

lemma service_ok_apply:
  assumes ok: "service_ok s" and "apply_action c a s = Inr s'"
  shows "service_ok s'"
proof (cases "playerFor (sv_connections s) c")
  case (Some p)
  show ?thesis
  proof (cases a)
    case (MoveAction d)
    with Some assms(2) obtain b w' where mv: "movePlayer p d (sv_state s) = Inr (b, w')"
      and s': "s' = s\<lparr>sv_state := w'\<rparr>"
      by (auto simp: apply_action_def split: sum.splits)
    have "player q w' \<noteq> None \<longleftrightarrow> player q (sv_state s) \<noteq> None" for q
      using service_okD(1) [OF ok] mv
      by (cases rule: movePlayer_cases [where pid = p and d = d]) (auto simp: player_def)
    with ok world_ok_movePlayer [OF service_okD(1) [OF ok] mv] show ?thesis
      by (simp add: service_ok_def s')
  qed (use assms Some in \<open>auto simp: apply_action_def\<close>)
qed (use assms in \<open>simp add: apply_action_def\<close>)

section \<open>The abstract service\<close>

text \<open>
  What a client of the service sees: the position of every connection that plays, how many
  players were ever created, and where players start. An operation answers with the exception
  it threw, if any; undefined behaviour ends the run.
\<close>

record abstract_service =
  positions :: "connection_key \<rightharpoonup> position"
  issued :: nat
  start_position :: position

datatype service_op =
    Op_connect connection_key
  | Op_disconnect connection_key
  | Op_apply connection_key world_action

fun spec_exec :: "service_op \<Rightarrow> abstract_service \<Rightarrow> (exn option \<times> abstract_service) option" where
  "spec_exec (Op_connect c) a =
     (if positions a c \<noteq> None then Some (None, a)
      else if issued a = 254 then Some (Some (Runtime_error ''Too many players''), a)
      else Some (None, a\<lparr>positions := (positions a)(c \<mapsto> start_position a),
                         issued := Suc (issued a)\<rparr>))"
| "spec_exec (Op_disconnect c) a = Some (None, a\<lparr>positions := (positions a)(c := None)\<rparr>)"
| "spec_exec (Op_apply c (MoveAction d)) a =
     (case positions a c of
        None \<Rightarrow> Some (None, a)
      | Some p \<Rightarrow>
          (let q = Position (pos_x p + pos_x d) (pos_y p + pos_y d)
           in if in_range q then Some (None, a\<lparr>positions := (positions a)(c \<mapsto> q)\<rparr>) else None))"
| "spec_exec (Op_apply c _) a = Some (None, a)"

fun service_exec :: "service_op \<Rightarrow> service \<Rightarrow> (exn option \<times> service) option" where
  "service_exec (Op_connect c) s =
     (case connect c s of (Inl x, s') \<Rightarrow> Some (Some x, s') | (Inr _, s') \<Rightarrow> Some (None, s'))"
| "service_exec (Op_disconnect c) s = Some (None, disconnect c s)"
| "service_exec (Op_apply c act) s =
     (case apply_action c act s of Inl _ \<Rightarrow> None | Inr s' \<Rightarrow> Some (None, s'))"

fun run_ops ::
  "(service_op \<Rightarrow> 's \<Rightarrow> (exn option \<times> 's) option) \<Rightarrow> service_op list \<Rightarrow> 's \<Rightarrow>
     (exn option list \<times> 's) option" where
  "run_ops f [] s = Some ([], s)"
| "run_ops f (e # es) s =
     (case f e s of
        None \<Rightarrow> None
      | Some (r, s1) \<Rightarrow>
          (case run_ops f es s1 of None \<Rightarrow> None | Some (rs, s2) \<Rightarrow> Some (r # rs, s2)))"

definition position_of :: "service \<Rightarrow> connection_key \<Rightarrow> position option" where
  "position_of s c =
     (case playerFor (sv_connections s) c of
        None \<Rightarrow> None
      | Some p \<Rightarrow> map_option player_position (player p (sv_state s)))"

definition abs_service :: "service \<Rightarrow> abstract_service" where
  "abs_service s =
     \<lparr>positions = position_of s, issued = unat (w_next (sv_state s)) - 1,
      start_position = w_spawn (sv_state s)\<rparr>"

lemma position_of_None:
  "service_ok s \<Longrightarrow> position_of s c = None \<longleftrightarrow> playerFor (sv_connections s) c = None"
  using service_okD(4) [of s c] by (auto simp: position_of_def split: option.splits)

lemma next_bounds:
  assumes "service_ok s"
  shows "1 \<le> unat (w_next (sv_state s))"
    and "unat (w_next (sv_state s)) = 255 \<longleftrightarrow> w_next (sv_state s) = player_id_max"
proof -
  show "1 \<le> unat (w_next (sv_state s))"
    using service_okD(1) [OF assms] by (simp add: world_ok_def word_le_nat_alt)
  show "unat (w_next (sv_state s)) = 255 \<longleftrightarrow> w_next (sv_state s) = player_id_max"
    by (auto simp: player_id_max_def word_eq_iff_unsigned [where 'a = nat])
qed

lemma sim_connect:
  assumes ok: "service_ok s"
  shows "map_option (map_prod id abs_service) (service_exec (Op_connect c) s) =
     spec_exec (Op_connect c) (abs_service s)"
  using ok
proof (cases rule: connect_cases [where c = c])
  case (known p)
  with position_of_None [OF ok, of c] show ?thesis by (auto simp: abs_service_def)
next
  case exhausted
  with position_of_None [OF ok, of c] show ?thesis
    by (simp add: abs_service_def player_id_max_def)
next
  case (created w')
  let ?n = "w_next (sv_state s)"
  note find = find_added(2) [OF service_okD(1) [OF ok] created(3)]
  have w': "w_next w' = ?n + 1" "w_spawn w' = w_spawn (sv_state s)"
    using created(2,3) by (auto simp: addPlayer_def Let_def)
  have "position_of (snd (connect c s)) = (position_of s)(c \<mapsto> w_spawn (sv_state s))"
    using created(4) find fresh_player_unbound [OF ok]
    by (auto simp: fun_eq_iff position_of_def reg.lookup_bnd service_okD(2) [OF ok] player_def
        split: option.splits)
  moreover have "issued (abs_service s) \<noteq> 254"
    using next_bounds [OF ok] created(2) by (simp add: abs_service_def)
  ultimately show ?thesis
    using created(1,4) position_of_None [OF ok, of c] next_player_less(2) [OF created(2)]
      next_bounds(1) [OF ok] w'
    by (simp add: abs_service_def)
qed

lemma sim_disconnect:
  assumes ok: "service_ok s"
  shows "map_option (map_prod id abs_service) (service_exec (Op_disconnect c) s) =
     spec_exec (Op_disconnect c) (abs_service s)"
proof (cases "playerFor (sv_connections s) c")
  case None
  with position_of_None [OF ok, of c] show ?thesis
    by (auto simp: abs_service_def disconnect_def fun_upd_idem)
next
  case (Some p)
  obtain b w' where rem: "removePlayer p (sv_state s) = (b, w')" by fastforce
  note find = find_removed [OF service_okD(1) [OF ok] rem]
  have "position_of (disconnect c s) = (position_of s)(c := None)"
    using Some rem find service_okD(3) [OF ok]
    by (auto simp: fun_eq_iff position_of_def disconnect_def player_def exclusive_def
        reg.lookup_unbnd service_okD(2) [OF ok] split: option.splits)
  with Some rem find show ?thesis
    by (simp add: abs_service_def disconnect_def)
qed

lemma sim_apply:
  assumes ok: "service_ok s"
  shows "map_option (map_prod id abs_service) (service_exec (Op_apply c act) s) =
     spec_exec (Op_apply c act) (abs_service s)"
proof (cases "playerFor (sv_connections s) c")
  case None
  with position_of_None [OF ok, of c] show ?thesis
    by (cases act) (auto simp: abs_service_def apply_action_def)
next
  case (Some p)
  show ?thesis
  proof (cases act)
    case (MoveAction d)
    note w_ok = service_okD(1) [OF ok]
    from service_okD(4) [OF ok Some] obtain q where q: "player p (sv_state s) = Some q" by blast
    have pos: "position_of s c = Some (player_position q)"
      using Some q by (simp add: position_of_def)
    let ?t = "Position (pos_x (player_position q) + pos_x d) (pos_y (player_position q) + pos_y d)"
    from w_ok show ?thesis
    proof (cases rule: movePlayer_cases [where pid = p and d = d])
      case absent
      with q show ?thesis by (simp add: player_def)
    next
      case (overflow p')
      with q have "\<not> in_range ?t"
        using add_position_Some [of "player_position q" d ?t] by (auto simp: player_def)
      with overflow MoveAction Some pos show ?thesis
        by (simp add: apply_action_def abs_service_def Let_def)
    next
      case (moved p' q' w')
      with q have "p' = q" by (simp add: player_def)
      with moved have t: "q' = ?t" "in_range ?t"
        using add_position_Some [of "player_position q" d q'] by (cases q'; simp)+
      have "position_of (s\<lparr>sv_state := w'\<rparr>) = (position_of s)(c \<mapsto> ?t)"
        using Some moved(4) t \<open>p' = q\<close> service_okD(3) [OF ok]
        by (auto simp: fun_eq_iff position_of_def player_def exclusive_def split: option.splits)
      with moved MoveAction Some pos t show ?thesis
        by (simp add: apply_action_def abs_service_def Let_def)
    qed
  qed (use Some in \<open>auto simp: apply_action_def\<close>)
qed

lemma sim_exec:
  "service_ok s \<Longrightarrow>
     map_option (map_prod id abs_service) (service_exec e s) = spec_exec e (abs_service s)"
  by (cases e) (simp_all only: sim_connect sim_disconnect sim_apply)

lemma service_ok_exec: "service_ok s \<Longrightarrow> service_exec e s = Some (r, s') \<Longrightarrow> service_ok s'"
  using service_ok_connect [of s] service_ok_disconnect [of s] service_ok_apply [of s]
  by (cases e) (auto split: prod.splits sum.splits, (metis snd_conv)+)

lemma sim_run:
  "service_ok s \<Longrightarrow>
     map_option (map_prod id abs_service) (run_ops service_exec es s) =
       run_ops spec_exec es (abs_service s)"
proof (induction es arbitrary: s)
  case (Cons e es)
  show ?case
  proof (cases "service_exec e s")
    case None
    with sim_exec [OF Cons.prems, of e] show ?thesis by simp
  next
    case (Some rs)
    obtain r s1 where rs: "rs = (r, s1)" by fastforce
    with Some sim_exec [OF Cons.prems, of e] Cons.IH [OF service_ok_exec [OF Cons.prems, of e r s1]]
    show ?thesis
      by (auto split: option.splits simp: map_option_case dest: sym)
  qed
qed simp

lemma service_ok_run: "service_ok s \<Longrightarrow> run_ops service_exec es s = Some (rs, s') \<Longrightarrow> service_ok s'"
  by (induction es arbitrary: s rs)
    (auto split: option.splits prod.splits dest: service_ok_exec)

section \<open>Properties\<close>

definition initial_abstract_service :: abstract_service where
  "initial_abstract_service =
     \<lparr>positions = Map.empty, issued = 0, start_position = Position 0 0\<rparr>"

lemma abs_default: "abs_service default_WorldService = initial_abstract_service"
  by (auto simp: abs_service_def default_WorldService_def WorldService_def createInitial_def
      WorldState_def initial_abstract_service_def position_of_def new_registry_def playerFor_def)

text \<open>
  C13: the world service implements its specification. Whatever sequence of connects,
  disconnects and actions the server's service is given, it answers each operation with the
  same exception as the abstract service, ends in undefined behaviour exactly when a move
  overflows there, and leaves every connection at the position the abstract service says:
  player identifiers, the registry and the map of players are an implementation detail.
\<close>

theorem world_service_refines:
  "map_option (map_prod id abs_service) (run_ops service_exec es default_WorldService) =
     run_ops spec_exec es initial_abstract_service"
  using sim_run [OF service_ok_default] by (simp add: abs_default)

text \<open>
  No shared and no orphaned players. After any sequence of operations, two connections
  never play the same player, every registered connection plays a player of the world, and
  every player of the world is played by a connection.
\<close>

lemma players_match_connections:
  assumes "run_ops service_exec es default_WorldService = Some (rs, s)"
  shows "(\<forall>c c' p. playerFor (sv_connections s) c = Some p \<longrightarrow>
            playerFor (sv_connections s) c' = Some p \<longrightarrow> c = c') \<and>
     {p. player p (sv_state s) \<noteq> None} = {p. \<exists>c. playerFor (sv_connections s) c = Some p}"
  using service_ok_run [OF service_ok_default assms]
  unfolding service_ok_def exclusive_def by blast

lemma run_ops_append:
  "run_ops f (es @ fs) s =
     (case run_ops f es s of
        None \<Rightarrow> None
      | Some (rs, s1) \<Rightarrow>
          (case run_ops f fs s1 of None \<Rightarrow> None | Some (rs', s2) \<Rightarrow> Some (rs @ rs', s2)))"
  by (induction es arbitrary: s) (auto split: option.splits prod.splits)

lemma reconnecting_uses_up_ids:
  assumes "positions a = Map.empty" and "issued a + n \<le> 254"
  shows "run_ops spec_exec (concat (replicate n [Op_connect c, Op_disconnect c])) a =
     Some (replicate (2 * n) None, a\<lparr>issued := issued a + n\<rparr>)"
  using assms
proof (induction n arbitrary: a)
  case (Suc n)
  let ?a = "a\<lparr>issued := Suc (issued a)\<rparr>"
  have 1: "run_ops spec_exec [Op_connect c, Op_disconnect c] a = Some ([None, None], ?a)"
    using Suc.prems by simp
  have 2: "run_ops spec_exec (concat (replicate n [Op_connect c, Op_disconnect c])) ?a =
      Some (replicate (2 * n) None, ?a\<lparr>issued := issued ?a + n\<rparr>)"
    using Suc.prems by (intro Suc.IH) simp_all
  show ?case
    by (simp only: replicate_Suc concat.simps run_ops_append 1 2 option.case prod.case) simp
qed simp

text \<open>
  C30: identifiers are used up for good. After a single client has connected and
  disconnected 254 times, nobody plays, and yet every further connect, of any client, is
  refused with "Too many players".
\<close>

theorem player_ids_run_out:
  "\<exists>rs s. run_ops service_exec (concat (replicate 254 [Op_connect c, Op_disconnect c]))
            default_WorldService = Some (rs, s) \<and>
     (\<forall>p. player p (sv_state s) = None) \<and>
     (\<forall>c'. connect c' s = (Inl (Runtime_error ''Too many players''), s))"
proof -
  let ?es = "concat (replicate 254 [Op_connect c, Op_disconnect c])"
  have "run_ops spec_exec ?es initial_abstract_service =
      Some (replicate 508 None, initial_abstract_service\<lparr>issued := 254\<rparr>)"
    using reconnecting_uses_up_ids [of initial_abstract_service 254 c]
    by (simp add: initial_abstract_service_def del: replicate.simps)
  then have "map_option (map_prod id abs_service) (run_ops service_exec ?es default_WorldService)
      = Some (replicate 508 None, initial_abstract_service\<lparr>issued := 254\<rparr>)"
    using sim_run [OF service_ok_default, of ?es] by (simp only: abs_default)
  then obtain rs s where run: "run_ops service_exec ?es default_WorldService = Some (rs, s)"
    and abs: "abs_service s = initial_abstract_service\<lparr>issued := 254\<rparr>"
    by auto
  note ok = service_ok_run [OF service_ok_default run]
  from abs have none: "position_of s c' = None" for c'
    by (simp add: abs_service_def initial_abstract_service_def)
  then have unbound: "playerFor (sv_connections s) c' = None" for c'
    using position_of_None [OF ok] by blast
  then have "player p (sv_state s) = None" for p
    using ok by (simp add: service_ok_def)
  moreover have "unat (w_next (sv_state s)) - 1 = 254"
    using abs by (simp add: abs_service_def initial_abstract_service_def)
  then have "w_next (sv_state s) = player_id_max"
    using next_bounds [OF ok] by linarith
  then have "connect c' s = (Inl (Runtime_error ''Too many players''), s)" for c'
    using unbound [of c'] by (simp add: connect_def addPlayer_def)
  ultimately show ?thesis
    using run by blast
qed

end
