(* ===== verification/Message_Handler.thy ===== *)
theory Message_Handler
  imports Protocol World_Service
begin

text \<open>
  \<open>server/src/network/ServerMessageHandler.hpp\<close>/\<open>.cpp\<close>: what the server answers to a client
  message, and what it does when a connection is gone. The handler owns no state; it works on
  the world service.
\<close>

definition makeErrorResponse :: "u64 \<Rightarrow> int \<Rightarrow> string \<Rightarrow> ServerMessage" where
  "makeErrorResponse request_id code message =
     new_ServerMessage
       \<lparr>server_request_id := request_id,
        server_status := STATUS_ERROR,
        server_payload := Some (ErrorReply \<lparr>error_code_field = code, error_message = message\<rparr>)\<rparr>"

definition onMessage ::
  "(json \<Rightarrow> string result) \<Rightarrow> connection_id \<Rightarrow> ClientMessage \<Rightarrow> service \<Rightarrow>
     ServerMessage result \<times> service" where
  "onMessage dump cid message s =
     (case connect (raw_id cid) s of
        (Inl x, s1) \<Rightarrow> (Inl x, s1)
      | (Inr _, s1) \<Rightarrow>
          (let response = new_ServerMessage\<lparr>server_request_id := client_request_id message\<rparr>
           in case client_payload message of
                Some (Ping ping) \<Rightarrow>
                  (Inr (response\<lparr>server_status := STATUS_OK,
                          server_payload := Some (Pong \<lparr>pong_timestamp = ping_timestamp ping\<rparr>)\<rparr>), s1)
              | Some StateSnapshot \<Rightarrow>
                  (case snapshotJson dump s1 of
                     Inl x \<Rightarrow> (Inl x, s1)
                   | Inr text \<Rightarrow>
                       (Inr (response\<lparr>server_status := STATUS_OK,
                          server_payload := Some (StateSnapshotReply \<lparr>state_json = text\<rparr>)\<rparr>), s1))
              | None \<Rightarrow>
                  (Inr (makeErrorResponse (client_request_id message) 400
                          ''Client message payload is not set''), s1)))"

definition onDisconnect :: "connection_id \<Rightarrow> service \<Rightarrow> service" where
  "onDisconnect cid s = disconnect (raw_id cid) s"

section \<open>What an answer is\<close>

text \<open>
  \<open>answers request response\<close>: the response carries the request's identifier and the payload
  the protocol document gives for the request's payload.
\<close>

fun answers_payload :: "client_payload option \<Rightarrow> status \<Rightarrow> server_payload option \<Rightarrow> bool" where
  "answers_payload (Some (Ping p)) st q \<longleftrightarrow>
     st = STATUS_OK \<and> q = Some (Pong \<lparr>pong_timestamp = ping_timestamp p\<rparr>)"
| "answers_payload (Some StateSnapshot) st q \<longleftrightarrow>
     st = STATUS_OK \<and> (\<exists>text. q = Some (StateSnapshotReply \<lparr>state_json = text\<rparr>))"
| "answers_payload None st q \<longleftrightarrow>
     st = STATUS_ERROR \<and> q = Some (ErrorReply
       \<lparr>error_code_field = 400, error_message = ''Client message payload is not set''\<rparr>)"

definition answers :: "ClientMessage \<Rightarrow> ServerMessage \<Rightarrow> bool" where
  "answers request response \<longleftrightarrow>
     server_request_id response = client_request_id request \<and>
     answers_payload (client_payload request) (server_status response) (server_payload response)"

lemma onMessage_answers:
  "onMessage dump cid m s = (Inr r, s') \<Longrightarrow> answers m r"
  by (auto simp: onMessage_def answers_def makeErrorResponse_def new_ServerMessage_def Let_def
      split: sum.splits prod.splits option.splits client_payload.splits)

text \<open>Handling a message touches the service only through \<open>connect\<close>.\<close>

lemma onMessage_service: "snd (onMessage dump cid m s) = snd (connect (raw_id cid) s)"
  by (auto simp: onMessage_def Let_def
      split: sum.splits prod.splits option.splits client_payload.splits)

lemma onMessage_ok: "service_ok s \<Longrightarrow> service_ok (snd (onMessage dump cid m s))"
  by (simp add: onMessage_service service_ok_connect)

lemma onDisconnect_ok: "service_ok s \<Longrightarrow> service_ok (onDisconnect cid s)"
  by (simp add: onDisconnect_def service_ok_disconnect)

lemma connect_registers:
  assumes "service_ok s"
  shows "playerFor (sv_connections (snd (connect k s))) k' =
     (if k' = k \<and> isl (fst (connect k s)) = False then Some (projr (fst (connect k s)))
      else playerFor (sv_connections s) k')"
  using assms
  by (cases rule: connect_cases [where c = k])
    (auto simp: reg.lookup_bnd service_okD(2) [OF assms])

lemma onMessage_registers:
  "service_ok s \<Longrightarrow> k' \<noteq> raw_id cid \<Longrightarrow>
     playerFor (sv_connections (snd (onMessage dump cid m s))) k' = playerFor (sv_connections s) k'"
  by (simp add: onMessage_service connect_registers)

lemma onDisconnect_unregisters:
  assumes "service_ok s"
  shows "playerFor (sv_connections (onDisconnect cid s)) =
           (playerFor (sv_connections s))(raw_id cid := None)"
proof (cases "playerFor (sv_connections s) (raw_id cid)")
  case None
  then show ?thesis by (auto simp: onDisconnect_def disconnect_def)
next
  case (Some p)
  then show ?thesis
    by (simp add: onDisconnect_def disconnect_def reg.lookup_unbnd service_okD(2) [OF assms])
qed

end
