(* ===== verification/Server.thy ===== *)
theory Server
  imports Connection Message_Handler
begin

text \<open>
  \<open>server/src/network/ServerConnectionManager.hpp\<close>/\<open>.cpp\<close>, \<open>TcpServer.hpp\<close>/\<open>.cpp\<close> and
  \<open>tcp_server_config.hpp\<close>: the server around the connections. Connection objects are shared
  between the manager and their coroutines, so they live in a store and are referred to by
  their place in it, in the order of their creation. The program runs its \<open>io_context\<close> on one
  thread: a step of the server is one accept, one stop, or one step of one connection,
  together with the handlers it calls synchronously.
\<close>

section \<open>ServerConnectionManager\<close>

type_synonym server_conn = "(ClientMessage, ServerMessage) conn"
type_synonym conn_ref = nat

record manager =
  mc_connections :: "(connection_id, conn_ref) unordered_map"
  mc_stopped :: bool
  mc_nextConnectionId :: connection_id

definition new_manager :: manager where
  "new_manager =
     \<lparr>mc_connections = Map.empty, mc_stopped = False, mc_nextConnectionId = Connection_id 0\<rparr>"

text \<open>\<open>maxQueuedMessages\<close> keeps its default.\<close>

definition server_conn_config :: "u32 \<Rightarrow> conn_config" where
  "server_conn_config max_message_bytes =
     \<lparr>maxMessageBytes = max_message_bytes, maxQueuedMessages = 1024\<rparr>"

definition manager_create ::
  "u32 \<Rightarrow> server_conn list \<Rightarrow> manager \<Rightarrow> conn_ref option result \<times> server_conn list \<times> manager" where
  "manager_create max_message_bytes heap m =
     (if mc_stopped m then (Inr None, heap, m)
      else let (connectionId, nxt) = pre_increment (mc_nextConnectionId m);
               m1 = m\<lparr>mc_nextConnectionId := nxt\<rparr>
           in if raw_id connectionId = 0
              then (Inl (Runtime_error ''Too many connections''), heap, m1)
              else case connection_create connectionId (server_conn_config max_message_bytes)
                          True True of
                     Inl x \<Rightarrow> (Inl x, heap, m1)
                   | Inr c \<Rightarrow>
                       (Inr (Some (length heap)), heap @ [c],
                        m1\<lparr>mc_connections :=
                             um_emplace connectionId (length heap) (mc_connections m1)\<rparr>))"

definition manager_remove :: "connection_id \<Rightarrow> manager \<Rightarrow> bool \<times> manager" where
  "manager_remove cid m =
     (if mc_stopped m then (False, m)
      else case mc_connections m cid of
             None \<Rightarrow> (False, m)
           | Some _ \<Rightarrow> (True, m\<lparr>mc_connections := um_erase cid (mc_connections m)\<rparr>))"

definition manager_get :: "connection_id \<Rightarrow> manager \<Rightarrow> conn_ref option" where
  "manager_get cid m = (if mc_stopped m then None else mc_connections m cid)"

definition manager_send ::
  "connection_id \<Rightarrow> ServerMessage \<Rightarrow> manager \<Rightarrow> server_conn list \<Rightarrow> server_conn list" where
  "manager_send cid message m heap =
     (if mc_stopped m then heap
      else case manager_get cid m of
             None \<Rightarrow> heap
           | Some ref \<Rightarrow> heap[ref := send message (heap ! ref)])"

text \<open>\<open>makeSnapshot\<close>: the connections in the order in which the unordered map is iterated.\<close>

definition makeSnapshot :: "connection_id list \<Rightarrow> manager \<Rightarrow> conn_ref list" where
  "makeSnapshot order m = map (\<lambda>cid. the (mc_connections m cid)) order"

definition for_each :: "(server_conn \<Rightarrow> server_conn) \<Rightarrow> conn_ref list \<Rightarrow> server_conn list \<Rightarrow>
     server_conn list" where
  "for_each f refs heap = fold (\<lambda>ref h. h[ref := f (h ! ref)]) refs heap"

definition manager_broadcast ::
  "connection_id list \<Rightarrow> ServerMessage \<Rightarrow> manager \<Rightarrow> server_conn list \<Rightarrow> server_conn list" where
  "manager_broadcast order message m heap =
     (if mc_stopped m then heap else for_each (send message) (makeSnapshot order m) heap)"

definition manager_stopAll ::
  "connection_id list \<Rightarrow> manager \<Rightarrow> server_conn list \<Rightarrow> manager \<times> server_conn list" where
  "manager_stopAll order m heap =
     (if mc_stopped m then (m, heap)
      else let m1 = m\<lparr>mc_stopped := True\<rparr>;
               refs = makeSnapshot order m1
           in (m1\<lparr>mc_connections := Map.empty\<rparr>, for_each stop refs heap))"

section \<open>TcpServer\<close>

record tcp_server_config =
  port :: u16
  max_message_bytes :: u32

definition default_tcp_server_config :: tcp_server_config where
  "default_tcp_server_config = \<lparr>port = 1234, max_message_bytes = 1024 * 1024\<rparr>"

text \<open>\<open>ts_accepting\<close>: the accept loop of \<open>start\<close> stands at its \<open>async_accept\<close>.\<close>

record server =
  srv_heap :: "server_conn list"
  srv_manager :: manager
  srv_service :: service
  ts_config :: tcp_server_config
  ts_stopped :: bool
  ts_accepting :: bool

definition new_server :: "tcp_server_config \<Rightarrow> service \<Rightarrow> server" where
  "new_server cfg s =
     \<lparr>srv_heap = [], srv_manager = new_manager, srv_service = s, ts_config = cfg,
      ts_stopped = False, ts_accepting = True\<rparr>"

text \<open>\<open>main\<close>: the default configuration and a default world service.\<close>

definition initial_server :: server where
  "initial_server = new_server default_tcp_server_config default_WorldService"

text \<open>The message handler and the close handler \<open>create\<close> gives to a connection.\<close>

definition handleMessage ::
  "(json \<Rightarrow> string result) \<Rightarrow> connection_id \<Rightarrow> ClientMessage \<Rightarrow> server \<Rightarrow> unit result \<times> server" where
  "handleMessage dump cid message s =
     (case onMessage dump cid message (srv_service s) of
        (Inl x, v) \<Rightarrow> (Inl x, s\<lparr>srv_service := v\<rparr>)
      | (Inr response, v) \<Rightarrow>
          (Inr (), s\<lparr>srv_service := v,
                     srv_heap := manager_send cid
                       (response\<lparr>server_request_id := client_request_id message\<rparr>)
                       (srv_manager s) (srv_heap s)\<rparr>))"

definition handleDisconnect :: "connection_id \<Rightarrow> server \<Rightarrow> server" where
  "handleDisconnect cid s =
     s\<lparr>srv_service := onDisconnect cid (srv_service s),
       srv_manager := snd (manager_remove cid (srv_manager s))\<rparr>"

text \<open>
  One round of the accept loop. An exception of \<open>create\<close> leaves \<open>start\<close>, whose coroutine was
  spawned detached: the loop is over, as it is after \<open>break\<close>.
\<close>

definition accept_socket :: "server \<Rightarrow> server" where
  "accept_socket s =
     (case manager_create (max_message_bytes (ts_config s)) (srv_heap s) (srv_manager s) of
        (Inl _, h, m) \<Rightarrow> s\<lparr>srv_heap := h, srv_manager := m, ts_accepting := False\<rparr>
      | (Inr None, h, m) \<Rightarrow> s\<lparr>srv_heap := h, srv_manager := m, ts_accepting := False\<rparr>
      | (Inr (Some ref), h, m) \<Rightarrow> s\<lparr>srv_heap := h[ref := start (h ! ref)], srv_manager := m\<rparr>)"

definition accept_error :: "error_code \<Rightarrow> server \<Rightarrow> server" where
  "accept_error ec s =
     (if ts_stopped s \<and> (ec = Ec_operation_aborted \<or> ec = Ec_bad_descriptor)
      then s\<lparr>ts_accepting := False\<rparr>
      else if ts_stopped s then s\<lparr>ts_accepting := False\<rparr>
      else s)"

definition stop_server :: "connection_id list \<Rightarrow> server \<Rightarrow> server" where
  "stop_server order s =
     (if ts_stopped s then s
      else let (m, h) = manager_stopAll order (srv_manager s) (srv_heap s)
           in s\<lparr>ts_stopped := True, srv_manager := m, srv_heap := h\<rparr>)"

section \<open>Steps of the server\<close>

text \<open>
  Storing a connection after one of its steps; if the step called the close handler,
  \<open>handleDisconnect\<close> runs.
\<close>

definition settle :: "conn_ref \<Rightarrow> server_conn \<Rightarrow> server \<Rightarrow> server" where
  "settle ref c' s =
     (let c = srv_heap s ! ref;
          s1 = s\<lparr>srv_heap := (srv_heap s)[ref := c']\<rparr>
      in if closed_calls c < closed_calls c' then handleDisconnect (m_id c) s1 else s1)"

text \<open>
  A delivered message is handled at once: \<open>handleMessage\<close> never suspends, so the read loop
  goes on with its result in the same step.
\<close>

definition deliver ::
  "(json \<Rightarrow> string result) \<Rightarrow> conn_ref \<Rightarrow> nat \<Rightarrow> ClientMessage \<Rightarrow> server \<Rightarrow> server" where
  "deliver dump ref i message s =
     (let (r, s1) = handleMessage dump (m_id (srv_heap s ! ref)) message s
      in settle ref (readLoop_handler i r (srv_heap s1 ! ref)) s1)"

fun run_strand ::
  "(json \<Rightarrow> string result) \<Rightarrow> conn_ref \<Rightarrow> (ClientMessage, ServerMessage) conn_event \<Rightarrow>
     server_conn \<Rightarrow> server \<Rightarrow> server" where
  "run_strand dump ref (Message_read i (Inr message)) c' s =
     (if m_closed (srv_heap s ! ref) then settle ref c' s
      else deliver dump ref i message (settle ref c' s))"
| "run_strand dump ref e c' s = settle ref c' s"

text \<open>What the scheduler and the network do by themselves; the calls come from the server.\<close>

fun strand_event :: "(ClientMessage, ServerMessage) conn_event \<Rightarrow> bool" where
  "strand_event Run_post = True"
| "strand_event (Run_reader i) = True"
| "strand_event (Message_read i r) = True"
| "strand_event (Run_writer i) = True"
| "strand_event (Message_written i w) = True"
| "strand_event _ = False"

datatype server_event =
    Accepted
  | Accept_failed error_code
  | Stop_server
  | Strand conn_ref "(ClientMessage, ServerMessage) conn_event"

inductive server_step ::
  "(json \<Rightarrow> string result) \<Rightarrow> server \<Rightarrow> server_event \<Rightarrow> server \<Rightarrow> bool" for dump where
  accepted: "ts_accepting s \<Longrightarrow> server_step dump s Accepted (accept_socket s)"
| accept_failed: "ts_accepting s \<Longrightarrow> ec \<noteq> Ec_success \<Longrightarrow>
     server_step dump s (Accept_failed ec) (accept_error ec s)"
| stopping: "iteration_of (mc_connections (srv_manager s)) order \<Longrightarrow>
     server_step dump s Stop_server (stop_server order s)"
| strand: "ref < length (srv_heap s) \<Longrightarrow> strand_event e \<Longrightarrow>
     conn_step (srv_heap s ! ref) e c' \<Longrightarrow>
     server_step dump s (Strand ref e) (run_strand dump ref e c' s)"

inductive_cases server_step_elims:
  "server_step dump s Accepted s'" "server_step dump s (Accept_failed ec) s'"
  "server_step dump s Stop_server s'" "server_step dump s (Strand ref e) s'"

inductive server_run ::
  "(json \<Rightarrow> string result) \<Rightarrow> server_event list \<Rightarrow> server \<Rightarrow> bool" for dump where
  server_start: "server_run dump [] initial_server"
| server_next: "server_run dump es s \<Longrightarrow> server_step dump s e s' \<Longrightarrow> server_run dump (es @ [e]) s'"

section \<open>The invariant of the server\<close>

definition id_at :: "conn_ref \<Rightarrow> connection_id" where
  "id_at ref = Connection_id (word_of_nat (Suc ref))"

text \<open>The connection objects: never more than identifiers, each with the identifier of its place.\<close>

definition heap_inv :: "server_conn list \<Rightarrow> bool" where
  "heap_inv heap \<longleftrightarrow>
     length heap \<le> 65535 \<and>
     (\<forall>ref < length heap. conn_inv (heap ! ref) \<and> m_hasOnClosed (heap ! ref) \<and>
        m_id (heap ! ref) = id_at ref)"

text \<open>The manager holds the open connections, all of them until it is stopped, then none.\<close>

definition manager_inv :: "server_conn list \<Rightarrow> manager \<Rightarrow> bool" where
  "manager_inv heap m \<longleftrightarrow>
     (\<forall>cid ref. mc_connections m cid = Some ref \<longrightarrow>
        ref < length heap \<and> cid = id_at ref \<and> \<not> m_closed (heap ! ref)) \<and>
     (\<not> mc_stopped m \<longrightarrow>
        (\<forall>ref < length heap. \<not> m_closed (heap ! ref) \<longrightarrow> mc_connections m (id_at ref) = Some ref)) \<and>
     (mc_stopped m \<longrightarrow> mc_connections m = Map.empty)"

text \<open>Only open connections have players.\<close>

definition players_inv :: "server_conn list \<Rightarrow> service \<Rightarrow> bool" where
  "players_inv heap s \<longleftrightarrow>
     service_ok s \<and>
     (\<forall>k p. playerFor (sv_connections s) k = Some p \<longrightarrow>
        (\<exists>ref < length heap. Connection_id k = id_at ref \<and> \<not> m_closed (heap ! ref)))"

definition server_inv :: "server \<Rightarrow> bool" where
  "server_inv s \<longleftrightarrow>
     heap_inv (srv_heap s) \<and> manager_inv (srv_heap s) (srv_manager s) \<and>
     players_inv (srv_heap s) (srv_service s) \<and>
     (ts_stopped s \<longleftrightarrow> mc_stopped (srv_manager s)) \<and>
     (ts_accepting s \<longrightarrow>
        mc_nextConnectionId (srv_manager s) = Connection_id (word_of_nat (length (srv_heap s))))"

lemma server_invD:
  "server_inv s \<Longrightarrow> heap_inv (srv_heap s)"
  "server_inv s \<Longrightarrow> manager_inv (srv_heap s) (srv_manager s)"
  "server_inv s \<Longrightarrow> players_inv (srv_heap s) (srv_service s)"
  by (simp_all add: server_inv_def)

lemma heap_invD:
  "heap_inv h \<Longrightarrow> ref < length h \<Longrightarrow> conn_inv (h ! ref)"
  "heap_inv h \<Longrightarrow> ref < length h \<Longrightarrow> m_hasOnClosed (h ! ref)"
  "heap_inv h \<Longrightarrow> ref < length h \<Longrightarrow> m_id (h ! ref) = id_at ref"
  by (simp_all add: heap_inv_def)

lemma unat_u16: "n \<le> 65535 \<Longrightarrow> unat (word_of_nat n :: u16) = n"
  by (simp add: unat_of_nat)

lemma unat_id_at: "ref < 65535 \<Longrightarrow> unat (raw_id (id_at ref)) = Suc ref"
  using unat_u16 [of "Suc ref"] by (simp only: id_at_def connection_id.sel Suc_le_eq)

lemma id_at_inj:
  assumes "heap_inv h" and "ref < length h" and "ref' < length h" and "id_at ref = id_at ref'"
  shows "ref = ref'"
proof -
  have "Suc ref \<le> 65535" "Suc ref' \<le> 65535"
    using assms(1-3) by (auto simp: heap_inv_def)
  moreover have "unat (word_of_nat (Suc ref) :: u16) = unat (word_of_nat (Suc ref') :: u16)"
    using assms(4) by (simp add: id_at_def)
  ultimately show ?thesis
    by (simp only: unat_u16)
qed

lemma server_inv_initial: "server_inv initial_server"
  using service_ok_default
  by (auto simp: server_inv_def initial_server_def new_server_def new_manager_def heap_inv_def
      manager_inv_def players_inv_def default_WorldService_def WorldService_def new_registry_def
      playerFor_def)

text \<open>Replacing an object by a later state of it.\<close>

lemma heap_inv_later:
  assumes "heap_inv h" and "ref < length h" and "later (h ! ref) c'"
  shows "heap_inv (h[ref := c'])"
  using assms by (auto simp: heap_inv_def later_def same_members_def nth_list_update)

lemma later_keeps_open:
  assumes "server_inv s" and "ref < length (srv_heap s)" and "later (srv_heap s ! ref) c'"
    and "m_closed c' = m_closed (srv_heap s ! ref)"
  shows "server_inv (s\<lparr>srv_heap := (srv_heap s)[ref := c']\<rparr>)"
proof -
  have "m_closed ((srv_heap s)[ref := c'] ! r) = m_closed (srv_heap s ! r)" for r
    using assms(2,4) by (cases "r = ref") simp_all
  with assms heap_inv_later [OF server_invD(1) [OF assms(1)] assms(2,3)] show ?thesis
    by (simp add: server_inv_def manager_inv_def players_inv_def)
qed

lemma closing_manager:
  assumes "manager_inv h m" and "heap_inv h" and "ref < length h" and "m_closed c'"
  shows "manager_inv (h[ref := c']) (snd (manager_remove (id_at ref) m))"
proof (cases "mc_stopped m \<or> mc_connections m (id_at ref) = None")
  case False
  then have rem: "snd (manager_remove (id_at ref) m) =
      m\<lparr>mc_connections := um_erase (id_at ref) (mc_connections m)\<rparr>"
    by (auto simp: manager_remove_def)
  show ?thesis
    unfolding rem manager_inv_def
    using assms False id_at_inj [OF assms(2)]
    by (auto simp: manager_inv_def um_erase_def nth_list_update split: if_splits)
next
  case True
  then have rem: "snd (manager_remove (id_at ref) m) = m"
    by (auto simp: manager_remove_def)
  show ?thesis
    unfolding rem manager_inv_def
    using assms True by (auto simp: manager_inv_def nth_list_update split: if_splits)
qed

lemma closing_players:
  assumes "players_inv h s" and "heap_inv h" and "ref < length h" and "m_closed c'"
  shows "players_inv (h[ref := c']) (onDisconnect (id_at ref) s)"
proof -
  have ok: "service_ok s" using assms(1) by (simp add: players_inv_def)
  have "\<exists>r < length h. Connection_id k = id_at r \<and> \<not> m_closed (h[ref := c'] ! r)"
    if "playerFor (sv_connections (onDisconnect (id_at ref) s)) k = Some p" for k p
  proof -
    from that have "k \<noteq> raw_id (id_at ref)" and "playerFor (sv_connections s) k = Some p"
      by (auto simp: onDisconnect_unregisters [OF ok] split: if_splits)
    with assms(1) obtain r where r: "r < length h" "Connection_id k = id_at r" "\<not> m_closed (h ! r)"
      by (auto simp: players_inv_def)
    moreover have "r \<noteq> ref"
      using r(2) \<open>k \<noteq> raw_id (id_at ref)\<close> by (metis connection_id.sel)
    ultimately show ?thesis by auto
  qed
  then show ?thesis
    using onDisconnect_ok [OF ok] by (simp add: players_inv_def)
qed

lemma manager_remove_frame [simp]:
  "mc_stopped (snd (manager_remove cid m)) = mc_stopped m"
  "mc_nextConnectionId (snd (manager_remove cid m)) = mc_nextConnectionId m"
  by (auto simp: manager_remove_def split: option.splits)

lemma settle_inv:
  assumes inv: "server_inv s" and ref: "ref < length (srv_heap s)"
    and later: "later (srv_heap s ! ref) c'"
  shows "server_inv (settle ref c' s)"
proof (cases "m_closed c' \<and> \<not> m_closed (srv_heap s ! ref)")
  case False
  with later have "m_closed c' = m_closed (srv_heap s ! ref)"
    by (auto simp: later_def)
  with later_keeps_open [OF assms] False close_calls_handler [OF heap_invD(1,2) [OF server_invD(1) [OF inv] ref] later]
  show ?thesis
    by (simp add: settle_def)
next
  case True
  let ?h = "(srv_heap s)[ref := c']"
  have "m_id (srv_heap s ! ref) = id_at ref"
    using inv ref by (simp add: heap_invD server_invD)
  with True close_calls_handler [OF heap_invD(1,2) [OF server_invD(1) [OF inv] ref] later]
  have "settle ref c' s = handleDisconnect (id_at ref) (s\<lparr>srv_heap := ?h\<rparr>)"
    by (simp add: settle_def)
  moreover have "manager_inv ?h (snd (manager_remove (id_at ref) (srv_manager s)))"
    using closing_manager [OF server_invD(2,1) [OF inv] ref] True by simp
  moreover have "players_inv ?h (onDisconnect (id_at ref) (srv_service s))"
    using closing_players [OF server_invD(3,1) [OF inv] ref] True by simp
  ultimately show ?thesis
    using inv heap_inv_later [OF server_invD(1) [OF inv] ref later]
    by (simp add: server_inv_def handleDisconnect_def)
qed

text \<open>Sending through the manager reaches the object of the identifier, if it is open.\<close>

lemma manager_send_open:
  assumes "heap_inv h" and "manager_inv h m" and "ref < length h"
  shows "manager_send (id_at ref) message m h =
     (if mc_stopped m \<or> m_closed (h ! ref) then h else h[ref := send message (h ! ref)])"
proof (cases "mc_connections m (id_at ref)")
  case None
  with assms(2,3) show ?thesis
    by (auto simp: manager_send_def manager_get_def manager_inv_def)
next
  case (Some r)
  with assms have "r = ref" and "\<not> m_closed (h ! ref)"
    using id_at_inj [OF assms(1)] by (auto simp: manager_inv_def)
  with Some show ?thesis
    by (simp add: manager_send_def manager_get_def)
qed

lemma handleMessage_eq:
  assumes "server_inv s" and "ref < length (srv_heap s)"
  shows "handleMessage dump (id_at ref) message s =
     (case onMessage dump (id_at ref) message (srv_service s) of
        (Inl x, v) \<Rightarrow> (Inl x, s\<lparr>srv_service := v\<rparr>)
      | (Inr response, v) \<Rightarrow>
          (Inr (), s\<lparr>srv_service := v,
             srv_heap := (if mc_stopped (srv_manager s) \<or> m_closed (srv_heap s ! ref)
               then srv_heap s
               else (srv_heap s)[ref := send response (srv_heap s ! ref)])\<rparr>))"
proof -
  have "r\<lparr>server_request_id := client_request_id message\<rparr> = r"
    if "onMessage dump (id_at ref) message v = (Inr r, v')" for v r v'
    using onMessage_answers [OF that] by (simp add: answers_def)
  with manager_send_open [OF server_invD(1,2) [OF assms(1)] assms(2)] show ?thesis
    by (auto simp: handleMessage_def split: sum.splits prod.splits)
qed

lemma registering_players:
  assumes "players_inv h s" and "ref < length h" and "\<not> m_closed (h ! ref)"
  shows "players_inv h (snd (onMessage dump (id_at ref) message s))"
proof -
  have ok: "service_ok s" using assms(1) by (simp add: players_inv_def)
  have "\<exists>r < length h. Connection_id k = id_at r \<and> \<not> m_closed (h ! r)"
    if "playerFor (sv_connections (snd (onMessage dump (id_at ref) message s))) k = Some p" for k p
  proof (cases "k = raw_id (id_at ref)")
    case True
    with assms(2,3) show ?thesis by (intro exI [of _ ref]) (simp add: id_at_def)
  next
    case False
    with that onMessage_registers [OF ok False] assms(1) show ?thesis
      by (auto simp: players_inv_def)
  qed
  with onMessage_ok [OF ok] show ?thesis
    by (simp add: players_inv_def)
qed

lemma handleMessage_inv:
  assumes inv: "server_inv s" and ref: "ref < length (srv_heap s)"
    and "\<not> m_closed (srv_heap s ! ref)"
    and hm: "handleMessage dump (id_at ref) message s = (r, s1)"
  shows "server_inv s1"
proof -
  obtain res v where om: "onMessage dump (id_at ref) message (srv_service s) = (res, v)"
    by fastforce
  have "players_inv (srv_heap s) v"
    using registering_players [OF server_invD(3) [OF inv] ref assms(3), of dump message] om by simp
  with inv have inv1: "server_inv (s\<lparr>srv_service := v\<rparr>)"
    by (simp add: server_inv_def)
  have "later (srv_heap s ! ref) (send resp (srv_heap s ! ref))" for resp
    using heap_invD(1) [OF server_invD(1) [OF inv] ref] by (simp add: send_def later_posts)
  then have inv2: "server_inv (s\<lparr>srv_service := v,
      srv_heap := (srv_heap s)[ref := send resp (srv_heap s ! ref)]\<rparr>)" for resp
    using later_keeps_open [OF inv1, of ref "send resp (srv_heap s ! ref)"] ref
    by (simp add: send_def)
  have "s1 = s\<lparr>srv_service := v\<rparr> \<or> (\<exists>resp. s1 = s\<lparr>srv_service := v,
      srv_heap := (srv_heap s)[ref := send resp (srv_heap s ! ref)]\<rparr>)"
    using hm handleMessage_eq [OF inv ref, of dump message] om
    by (auto split: sum.splits if_splits)
  with inv1 inv2 show ?thesis by blast
qed

lemma handleMessage_conn:
  assumes "server_inv s" and "ref < length (srv_heap s)"
    and "handleMessage dump (id_at ref) message s = (r, s1)"
  shows "length (srv_heap s1) = length (srv_heap s)"
    and "\<exists>ps. srv_heap s1 ! ref = (srv_heap s ! ref)\<lparr>posts := ps\<rparr>"
proof -
  have same: "\<exists>ps. c = c\<lparr>posts := ps\<rparr>" for c :: server_conn
    by (rule exI [of _ "posts c"]) simp
  show "length (srv_heap s1) = length (srv_heap s)"
    and "\<exists>ps. srv_heap s1 ! ref = (srv_heap s ! ref)\<lparr>posts := ps\<rparr>"
    using assms(3) handleMessage_eq [OF assms(1,2), of dump message] assms(2) same
    by (auto simp: send_def split: sum.splits prod.splits if_splits)
qed

lemma settle_heap [simp]: "srv_heap (settle ref c' s) = (srv_heap s)[ref := c']"
  by (simp add: settle_def handleDisconnect_def Let_def)

lemma deliver_inv:
  assumes inv: "server_inv s" and ref: "ref < length (srv_heap s)"
    and open_c: "\<not> m_closed (srv_heap s ! ref)" and i: "i < length (read_loops (srv_heap s ! ref))"
  shows "server_inv (deliver dump ref i message s)"
proof -
  have cid: "m_id (srv_heap s ! ref) = id_at ref"
    using inv ref by (simp add: server_invD heap_invD)
  obtain r s1 where hm: "handleMessage dump (id_at ref) message s = (r, s1)" by fastforce
  note inv1 = handleMessage_inv [OF inv ref open_c hm]
  note h1 = handleMessage_conn [OF inv ref hm]
  have ref1: "ref < length (srv_heap s1)" using h1(1) ref by simp
  have "later (srv_heap s1 ! ref) (readLoop_handler i r (srv_heap s1 ! ref))"
    using h1(2) i heap_invD(1) [OF server_invD(1) [OF inv1] ref1]
    by (intro later_readLoop_handler) auto
  then show ?thesis
    using settle_inv [OF inv1 ref1] cid hm by (simp add: deliver_def)
qed

lemma run_strand_inv:
  assumes inv: "server_inv s" and ref: "ref < length (srv_heap s)"
    and step: "conn_step (srv_heap s ! ref) e c'"
  shows "server_inv (run_strand dump ref e c' s)"
proof -
  have "conn_inv (srv_heap s ! ref)"
    using inv ref by (simp add: server_invD heap_invD)
  then have settled: "server_inv (settle ref c' s)"
    using settle_inv [OF inv ref] later_step [OF step] by simp
  show ?thesis
  proof (cases "\<exists>i message. e = Message_read i (Inr message) \<and> \<not> m_closed (srv_heap s ! ref)")
    case False
    with settled show ?thesis
      by (cases "(dump, ref, e, c', s)" rule: run_strand.cases) auto
  next
    case True
    then obtain i message where e: "e = Message_read i (Inr message)"
      and open_c: "\<not> m_closed (srv_heap s ! ref)" by blast
    from step e open_c have c': "\<not> m_closed c'" "i < length (read_loops c')"
      by (auto simp: readLoop_message_def elim!: conn_step_elims)
    then have "server_inv (deliver dump ref i message (settle ref c' s))"
      using ref by (intro deliver_inv [OF settled]) simp_all
    with e open_c show ?thesis by simp
  qed
qed

text \<open>Accepting a connection, and stopping.\<close>

lemma accept_socket_cases:
  assumes inv: "server_inv s" and acc: "ts_accepting s"
  obtains (ends) m where "accept_socket s = s\<lparr>srv_manager := m, ts_accepting := False\<rparr>"
      and "mc_connections m = mc_connections (srv_manager s)"
      and "mc_stopped m = mc_stopped (srv_manager s)"
  | (new) c m where "length (srv_heap s) < 65535"
      and "connection_create (id_at (length (srv_heap s)))
             (server_conn_config (max_message_bytes (ts_config s))) True True = Inr c"
      and "accept_socket s = s\<lparr>srv_heap := srv_heap s @ [start c], srv_manager := m\<rparr>"
      and "mc_connections m =
             (mc_connections (srv_manager s))(id_at (length (srv_heap s)) \<mapsto> length (srv_heap s))"
      and "\<not> mc_stopped (srv_manager s)" and "\<not> mc_stopped m"
      and "mc_nextConnectionId m = id_at (length (srv_heap s))"
proof -
  let ?m = "srv_manager s" and ?h = "srv_heap s" and ?n = "length (srv_heap s)"
  let ?m1 = "?m\<lparr>mc_nextConnectionId := id_at ?n\<rparr>"
  have nxt: "pre_increment (mc_nextConnectionId ?m) = (id_at ?n, id_at ?n)"
    using inv acc by (simp add: server_inv_def pre_increment_def id_at_def add.commute Let_def)
  have fresh: "mc_connections ?m (id_at ?n) = None" if "?n < 65535"
  proof (rule ccontr)
    assume "mc_connections ?m (id_at ?n) \<noteq> None"
    then obtain r where "r < ?n" and "id_at ?n = id_at r"
      using server_invD(2) [OF inv] by (auto simp: manager_inv_def)
    moreover have "unat (raw_id (id_at ?n)) = Suc ?n" "unat (raw_id (id_at r)) = Suc r"
      using that \<open>r < ?n\<close> by (simp_all add: unat_id_at)
    ultimately show False by simp
  qed
  have nonzero: "?n < 65535" if "raw_id (id_at ?n) \<noteq> 0"
  proof (rule ccontr)
    assume "\<not> ?n < 65535"
    then have "?n = 65535" using server_invD(1) [OF inv] by (simp add: heap_inv_def)
    with that show False by (simp add: id_at_def)
  qed
  consider "mc_stopped ?m" | "\<not> mc_stopped ?m" "raw_id (id_at ?n) = 0"
    | x where "\<not> mc_stopped ?m" "raw_id (id_at ?n) \<noteq> 0"
        "connection_create (id_at ?n) (server_conn_config (max_message_bytes (ts_config s)))
           True True = (Inl x :: server_conn result)"
    | c where "\<not> mc_stopped ?m" "raw_id (id_at ?n) \<noteq> 0"
        "connection_create (id_at ?n) (server_conn_config (max_message_bytes (ts_config s)))
           True True = (Inr c :: server_conn result)"
    by (metis sum.exhaust)
  then show ?thesis
  proof cases
    case 1
    then show ?thesis
      by (intro ends [of ?m]) (simp_all add: accept_socket_def manager_create_def)
  next
    case 2
    with nxt show ?thesis
      by (intro ends [of ?m1]) (simp_all add: accept_socket_def manager_create_def)
  next
    case 3
    with nxt show ?thesis
      by (intro ends [of ?m1]) (simp_all add: accept_socket_def manager_create_def)
  next
    case 4
    with nxt fresh nonzero show ?thesis
      by (intro new [of c "?m1\<lparr>mc_connections := um_emplace (id_at ?n) ?n (mc_connections ?m)\<rparr>"])
        (simp_all add: accept_socket_def manager_create_def um_emplace_def)
  qed
qed

lemma accept_socket_inv:
  assumes inv: "server_inv s" and acc: "ts_accepting s"
  shows "server_inv (accept_socket s)"
  using assms
proof (cases rule: accept_socket_cases)
  case (ends m)
  with inv show ?thesis by (simp add: server_inv_def manager_inv_def)
next
  case (new c m)
  let ?h = "srv_heap s" and ?n = "length (srv_heap s)"
  have c: "conn_inv (start c)" "m_hasOnClosed (start c)" "m_id (start c) = id_at ?n"
    "\<not> m_closed (start c)"
    using create_inv [OF new(2)] new(2)
    by (auto simp: start_def connection_create_def split: if_splits)
  have h: "heap_inv (?h @ [start c])"
    using server_invD(1) [OF inv] c new(1) by (auto simp: heap_inv_def nth_append less_Suc_eq)
  have other: "(?h @ [start c]) ! r = ?h ! r" "id_at r \<noteq> id_at ?n" if "r < ?n" for r
    using that id_at_inj [OF h, of r ?n] by (auto simp: nth_append)
  have "manager_inv (?h @ [start c]) m"
    unfolding manager_inv_def new(4)
  proof (intro conjI allI impI)
    fix cid r
    assume "((mc_connections (srv_manager s))(id_at ?n \<mapsto> ?n)) cid = Some r"
    then consider "cid = id_at ?n" "r = ?n" | "mc_connections (srv_manager s) cid = Some r"
      by (metis fun_upd_apply option.inject)
    then have "r < Suc ?n \<and> cid = id_at r \<and> \<not> m_closed ((?h @ [start c]) ! r)"
    proof cases
      case 1
      with c show ?thesis by simp
    next
      case 2
      then have "r < ?n" "cid = id_at r" "\<not> m_closed (?h ! r)"
        using server_invD(2) [OF inv] by (auto simp: manager_inv_def)
      with other [of r] show ?thesis by simp
    qed
    then show "r < length (?h @ [start c])" "cid = id_at r" "\<not> m_closed ((?h @ [start c]) ! r)"
      by simp_all
  next
    fix r
    assume "r < length (?h @ [start c])" and "\<not> m_closed ((?h @ [start c]) ! r)"
    then show "((mc_connections (srv_manager s))(id_at ?n \<mapsto> ?n)) (id_at r) = Some r"
      using server_invD(2) [OF inv] other [of r] new(5)
      by (cases "r = ?n") (auto simp: manager_inv_def less_Suc_eq)
  qed (use new(6) in simp)
  moreover have "players_inv (?h @ [start c]) (srv_service s)"
    using server_invD(3) [OF inv] by (fastforce simp: players_inv_def nth_append)
  ultimately show ?thesis
    using inv h new(3,5-7) by (simp add: server_inv_def id_at_def)
qed

lemma for_each_posts:
  assumes "\<And>c. \<exists>ps. f c = c\<lparr>posts := ps\<rparr>"
  shows "length (for_each f refs h) = length h \<and>
     (\<forall>i < length h. \<exists>ps. for_each f refs h ! i = (h ! i)\<lparr>posts := ps\<rparr>)"
proof (induction refs arbitrary: h)
  case Nil
  have "\<exists>ps. c = c\<lparr>posts := ps\<rparr>" for c :: server_conn
    by (rule exI [of _ "posts c"]) simp
  then show ?case by (simp add: for_each_def)
next
  case (Cons r refs)
  obtain ps where f: "f (h ! r) = (h ! r)\<lparr>posts := ps\<rparr>" using assms by blast
  have "\<exists>ps. for_each f (r # refs) h ! i = (h ! i)\<lparr>posts := ps\<rparr>" if "i < length h" for i
  proof -
    from Cons.IH [of "h[r := f (h ! r)]"] that obtain qs
      where "for_each f (r # refs) h ! i = (h[r := f (h ! r)] ! i)\<lparr>posts := qs\<rparr>"
      by (auto simp: for_each_def)
    then show ?thesis
      using f that by (cases "i = r") auto
  qed
  with Cons.IH [of "h[r := f (h ! r)]"] show ?case
    by (simp add: for_each_def)
qed

definition same_view :: "server_conn list \<Rightarrow> server_conn list \<Rightarrow> bool" where
  "same_view h h' \<longleftrightarrow>
     length h' = length h \<and>
     (\<forall>i < length h. m_closed (h' ! i) = m_closed (h ! i) \<and> m_id (h' ! i) = m_id (h ! i) \<and>
        m_hasOnClosed (h' ! i) = m_hasOnClosed (h ! i) \<and> conn_inv (h' ! i) = conn_inv (h ! i))"

lemma same_view_inv:
  assumes "same_view h h'"
  shows "heap_inv h \<Longrightarrow> heap_inv h'" and "players_inv h v \<Longrightarrow> players_inv h' v"
  using assms by (auto simp: same_view_def heap_inv_def players_inv_def)

lemma stop_server_inv:
  assumes inv: "server_inv s"
  shows "server_inv (stop_server order s)"
proof (cases "ts_stopped s")
  case False
  let ?h = "srv_heap s"
  let ?m = "srv_manager s\<lparr>mc_stopped := True, mc_connections := Map.empty\<rparr>"
  let ?h' = "for_each stop (makeSnapshot order (srv_manager s\<lparr>mc_stopped := True\<rparr>)) ?h"
  have st: "stop_server order s = s\<lparr>ts_stopped := True, srv_manager := ?m, srv_heap := ?h'\<rparr>"
    using False inv by (simp add: stop_server_def manager_stopAll_def server_inv_def Let_def)
  have "\<exists>ps. stop c = c\<lparr>posts := ps\<rparr>" for c :: server_conn
    by (auto simp: stop_def)
  note h' = for_each_posts [where f = stop, OF this]
  have "same_view ?h ?h'"
    unfolding same_view_def
  proof (intro conjI allI impI)
    fix i
    assume "i < length ?h"
    then obtain ps where "?h' ! i = (?h ! i)\<lparr>posts := ps\<rparr>" using h' by blast
    then show "m_closed (?h' ! i) = m_closed (?h ! i)" "m_id (?h' ! i) = m_id (?h ! i)"
      "m_hasOnClosed (?h' ! i) = m_hasOnClosed (?h ! i)" "conn_inv (?h' ! i) = conn_inv (?h ! i)"
      by simp_all
  qed (use h' in simp)
  note view = same_view_inv [OF this]
  have "heap_inv ?h'" and "players_inv ?h' (srv_service s)"
    using view server_invD [OF inv] by blast+
  moreover have "ts_accepting s \<longrightarrow>
      mc_nextConnectionId (srv_manager s) = Connection_id (word_of_nat (length ?h))"
    using inv by (simp add: server_inv_def)
  moreover have "length ?h' = length ?h" using h' by blast
  ultimately show ?thesis
    unfolding st by (simp add: server_inv_def manager_inv_def)
qed (use inv in \<open>simp add: stop_server_def\<close>)

lemma server_step_inv: "server_step dump s e s' \<Longrightarrow> server_inv s \<Longrightarrow> server_inv s'"
proof (induction rule: server_step.induct)
  case (accept_failed s ec)
  then show ?case by (simp add: accept_error_def server_inv_def)
qed (auto intro: accept_socket_inv stop_server_inv run_strand_inv)

lemma server_run_inv: "server_run dump es s \<Longrightarrow> server_inv s"
  by (induction rule: server_run.induct) (auto intro: server_inv_initial server_step_inv)

section \<open>Every request is answered once, in order\<close>

text \<open>
  \<open>replied st k c\<close>: the responses given to \<open>c\<close> answer, one for one and in order, the requests
  delivered to it, all but the last \<open>k\<close> of them while the server runs and \<open>c\<close> is open.
\<close>

definition replied :: "bool \<Rightarrow> nat \<Rightarrow> server_conn \<Rightarrow> bool" where
  "replied st k c \<longleftrightarrow>
     (\<exists>ms. conn_fifo ms c \<and> length ms \<le> length (delivered c) \<and>
        list_all2 answers (take (length ms) (delivered c)) ms \<and>
        (st \<or> m_closed c \<or> length ms + k = length (delivered c)))"

lemma replied_step:
  assumes "conn_step c e c'" and "strand_event e" and "conn_inv c" and "replied st 0 c"
  shows "replied st (length (read_by c e)) c'"
proof -
  obtain ms where ms: "conn_fifo ms c" "length ms \<le> length (delivered c)"
    "list_all2 answers (take (length ms) (delivered c)) ms"
    "st \<or> m_closed c \<or> length ms = length (delivered c)"
    using assms(4) by (auto simp: replied_def)
  have "sent_by e = []" using assms(2) by (cases e) simp_all
  then have "conn_fifo ms c'" using conn_step_fifo [OF assms(1,3) ms(1)] by simp
  moreover have "m_closed c \<Longrightarrow> m_closed c'"
    using conn_step_closed [OF assms(1,3)] by (simp add: closed_extends_def)
  ultimately show ?thesis
    using ms conn_step_delivered [OF assms(1)] unfolding replied_def
    by (intro exI [of _ ms]) auto
qed

lemma replied_send:
  assumes "replied st 1 c" and "\<not> st" and "\<not> m_closed c" and "answers (last (delivered c)) r"
  shows "replied st 0 (send r c)"
proof -
  obtain ms where ms: "conn_fifo ms c" "list_all2 answers (take (length ms) (delivered c)) ms"
    "Suc (length ms) = length (delivered c)"
    using assms(1-3) by (auto simp: replied_def)
  then have "delivered c = take (length ms) (delivered c) @ [last (delivered c)]"
    by (metis butlast_conv_take append_butlast_last_id length_0_conv nat.distinct(1) diff_Suc_1)
  then have "list_all2 answers (delivered c) (ms @ [r])"
    using ms(2) assms(4) by (metis list_all2_appendI list_all2_Cons list_all2_Nil)
  then show ?thesis
    using ms(3) fifo_calls(3) [OF ms(1), of r] unfolding replied_def
    by (intro exI [of _ "ms @ [r]"]) (simp add: send_def)
qed

lemma replied_done: "replied st k c \<Longrightarrow> st \<or> m_closed c \<Longrightarrow> replied st 0 c"
  by (auto simp: replied_def)

lemma replied_stopped: "replied st k c \<Longrightarrow> replied True k' c"
  by (auto simp: replied_def)

lemma replied_stop: "replied st k c \<Longrightarrow> replied st k (stop c)"
  using fifo_calls(2) [of _ c] unfolding replied_def by (elim exE, intro exI conjI) (auto simp: stop_def)

lemma replied_handler:
  assumes "replied st k c" and "isl r \<or> k = 0"
  shows "replied st 0 (readLoop_handler i r c)"
proof -
  obtain ms where ms: "conn_fifo ms c" "length ms \<le> length (delivered c)"
    "list_all2 answers (take (length ms) (delivered c)) ms"
    "st \<or> m_closed c \<or> length ms + k = length (delivered c)"
    using assms(1) by (auto simp: replied_def)
  have "delivered (readLoop_handler i r c) = delivered c"
    by (auto simp: readLoop_handler_def readLoop_test_def split: sum.splits)
  moreover have "m_closed c \<or> isl r \<Longrightarrow> m_closed (readLoop_handler i r c)"
    by (auto simp: readLoop_handler_def readLoop_test_def split: sum.splits)
  ultimately show ?thesis
    using ms assms(2) fifo_reader(3) [OF ms(1), of i r] unfolding replied_def
    by (intro exI [of _ ms]) auto
qed

definition server_replies :: "server \<Rightarrow> bool" where
  "server_replies s \<longleftrightarrow> (\<forall>c \<in> set (srv_heap s). replied (mc_stopped (srv_manager s)) 0 c)"

lemma settle_stopped [simp]: "mc_stopped (srv_manager (settle ref c' s)) = mc_stopped (srv_manager s)"
  by (simp add: settle_def handleDisconnect_def Let_def)

lemma set_update: "(\<forall>x \<in> set xs. P x) \<Longrightarrow> P y \<Longrightarrow> \<forall>x \<in> set (xs[i := y]). P x"
  using set_update_subset_insert by fastforce

lemma for_each_all:
  assumes "\<And>c. P c \<Longrightarrow> P (f c)"
  shows "\<forall>c \<in> set h. P c \<Longrightarrow> set refs \<subseteq> {..< length h} \<Longrightarrow> \<forall>c \<in> set (for_each f refs h). P c"
proof (induction refs arbitrary: h)
  case (Cons r refs)
  then have "\<forall>c \<in> set (h[r := f (h ! r)]). P c"
    by (intro set_update assms) simp_all
  with Cons.IH [of "h[r := f (h ! r)]"] Cons.prems(2) show ?case
    by (simp add: for_each_def)
qed (simp add: for_each_def)

lemma replies_settle:
  assumes "server_replies s" and "replied (mc_stopped (srv_manager s)) 0 c'"
  shows "server_replies (settle ref c' s)"
  using assms set_update [of "srv_heap s" "replied (mc_stopped (srv_manager s)) 0" c' ref]
  by (simp add: server_replies_def)

lemma replies_accept:
  assumes inv: "server_inv s" and acc: "ts_accepting s" and "server_replies s"
  shows "server_replies (accept_socket s)"
  using inv acc
proof (cases rule: accept_socket_cases)
  case (ends m)
  with assms(3) show ?thesis by (simp add: server_replies_def)
next
  case (new c m)
  have "delivered c = []"
    using new(2) by (auto simp: connection_create_def split: if_splits)
  then have "replied False 0 (start c)"
    using fifo_calls(1) [OF create_fifo [OF new(2)]]
    by (auto simp: replied_def start_def intro!: exI [of _ "[]"])
  with new(3,5,6) assms(3) show ?thesis by (simp add: server_replies_def)
qed

lemma replies_stop:
  assumes inv: "server_inv s" and "iteration_of (mc_connections (srv_manager s)) order"
    and "server_replies s"
  shows "server_replies (stop_server order s)"
proof (cases "ts_stopped s")
  case False
  then have running: "\<not> mc_stopped (srv_manager s)" using inv by (simp add: server_inv_def)
  let ?refs = "makeSnapshot order (srv_manager s\<lparr>mc_stopped := True\<rparr>)"
  have "set ?refs \<subseteq> {..< length (srv_heap s)}"
    using server_invD(2) [OF inv] assms(2)
    by (fastforce simp: makeSnapshot_def iteration_of_def manager_inv_def)
  moreover have "\<forall>c \<in> set (srv_heap s). replied True 0 c"
    using assms(3) replied_stopped by (auto simp: server_replies_def)
  ultimately have "\<forall>c \<in> set (for_each stop ?refs (srv_heap s)). replied True 0 c"
    using for_each_all [where P = "replied True 0" and f = stop] replied_stop by blast
  with False running show ?thesis
    by (simp add: server_replies_def stop_server_def manager_stopAll_def Let_def)
qed (use assms(3) in \<open>simp add: stop_server_def\<close>)

text \<open>The step that delivers a request also answers it.\<close>

lemma replies_deliver:
  assumes inv: "server_inv s" and ref: "ref < length (srv_heap s)"
    and open_c: "\<not> m_closed (srv_heap s ! ref)"
    and others: "\<And>r. r < length (srv_heap s) \<Longrightarrow> r \<noteq> ref \<Longrightarrow>
      replied (mc_stopped (srv_manager s)) 0 (srv_heap s ! r)"
    and this_one: "replied (mc_stopped (srv_manager s)) 1 (srv_heap s ! ref)"
    and last: "last (delivered (srv_heap s ! ref)) = message"
  shows "server_replies (deliver dump ref i message s)"
proof -
  let ?st = "mc_stopped (srv_manager s)" and ?c = "srv_heap s ! ref"
  have cid: "m_id ?c = id_at ref"
    using inv ref by (simp add: server_invD heap_invD)
  obtain res v where om: "onMessage dump (id_at ref) message (srv_service s) = (res, v)"
    by fastforce
  have replies: "server_replies (settle ref c' s1)"
    if "replied ?st 0 c'" "mc_stopped (srv_manager s1) = ?st" "length (srv_heap s1) = length (srv_heap s)"
      "\<And>r. r \<noteq> ref \<Longrightarrow> srv_heap s1 ! r = srv_heap s ! r" for c' s1
  proof -
    have "replied ?st 0 ((srv_heap s1)[ref := c'] ! r)" if "r < length (srv_heap s)" for r
      using that others [of r] \<open>replied ?st 0 c'\<close> \<open>length (srv_heap s1) = length (srv_heap s)\<close>
        \<open>\<And>r. r \<noteq> ref \<Longrightarrow> srv_heap s1 ! r = srv_heap s ! r\<close>
      by (cases "r = ref") simp_all
    with that show ?thesis by (auto simp: server_replies_def all_set_conv_all_nth)
  qed
  show ?thesis
  proof (cases res)
    case (Inl x)
    have "replied ?st 0 (readLoop_handler i (Inl x) ?c)"
      using replied_handler [OF this_one] by simp
    then show ?thesis
      using Inl om replies [of _ "s\<lparr>srv_service := v\<rparr>"] cid handleMessage_eq [OF inv ref]
      by (simp add: deliver_def)
  next
    case (Inr response)
    let ?h = "if ?st then srv_heap s else (srv_heap s)[ref := send response ?c]"
    have hm: "handleMessage dump (id_at ref) message s =
        (Inr (), s\<lparr>srv_service := v, srv_heap := ?h\<rparr>)"
      using om Inr open_c handleMessage_eq [OF inv ref, of dump message] by simp
    have "replied ?st 0 (?h ! ref)"
      using replied_done [OF this_one] replied_send [OF this_one _ open_c] ref last
        onMessage_answers [of dump "id_at ref" message "srv_service s" response v] om Inr
      by (cases ?st) simp_all
    then have "replied ?st 0 (readLoop_handler i (Inr ()) (?h ! ref))"
      by (rule replied_handler) simp
    then show ?thesis
      using replies [of _ "s\<lparr>srv_service := v, srv_heap := ?h\<rparr>"] cid hm
      by (simp add: deliver_def)
  qed
qed

lemma replies_strand:
  assumes inv: "server_inv s" and ref: "ref < length (srv_heap s)"
    and step: "conn_step (srv_heap s ! ref) e c'" and "strand_event e" and rep: "server_replies s"
  shows "server_replies (run_strand dump ref e c' s)"
proof -
  let ?st = "mc_stopped (srv_manager s)" and ?c = "srv_heap s ! ref"
  have c: "conn_inv ?c" and rc: "replied ?st 0 ?c"
    using inv ref rep by (simp_all add: server_invD heap_invD server_replies_def)
  note rc' = replied_step [OF step assms(4) c rc]
  show ?thesis
  proof (cases "\<exists>i message. e = Message_read i (Inr message) \<and> \<not> m_closed ?c")
    case False
    then have "read_by ?c e = []" and "run_strand dump ref e c' s = settle ref c' s"
      by (cases "(dump, ref, e, c', s)" rule: run_strand.cases; auto)+
    with rc' replies_settle [OF rep] show ?thesis by simp
  next
    case True
    then obtain i message where e: "e = Message_read i (Inr message)"
      and open_c: "\<not> m_closed ?c" by blast
    have "later ?c c'" using later_step [OF step c] .
    note inv1 = settle_inv [OF inv ref this]
    from step e open_c have "\<not> m_closed c'"
      by (auto simp: readLoop_message_def elim!: conn_step_elims)
    moreover have "last (delivered c') = message"
      using conn_step_delivered [OF step] e open_c by simp
    moreover have "replied ?st 1 c'" using rc' e open_c by simp
    ultimately have "server_replies (deliver dump ref i message (settle ref c' s))"
      using ref rep by (intro replies_deliver [OF inv1]) (auto simp: server_replies_def)
    with e open_c show ?thesis by simp
  qed
qed

lemma server_run_replies: "server_run dump es s \<Longrightarrow> server_replies s"
proof (induction rule: server_run.induct)
  case server_start
  then show ?case by (simp add: server_replies_def initial_server_def new_server_def)
next
  case (server_next es s e s')
  note inv = server_run_inv [OF server_next(1)]
  from server_next(2) show ?case
  proof cases
    case (accept_failed ec)
    with server_next.IH show ?thesis by (simp add: accept_error_def server_replies_def)
  qed (use server_next.IH inv in \<open>auto intro: replies_accept replies_stop replies_strand\<close>)
qed

section \<open>Running the server\<close>

text \<open>The steps but for \<open>stop\<close> as a function, \<open>None\<close> where an event is not enabled.\<close>

fun server_exec :: "(json \<Rightarrow> string result) \<Rightarrow> server_event \<Rightarrow> server \<Rightarrow> server option" where
  "server_exec dump Accepted s = (if ts_accepting s then Some (accept_socket s) else None)"
| "server_exec dump (Accept_failed ec) s =
     (if ts_accepting s \<and> ec \<noteq> Ec_success then Some (accept_error ec s) else None)"
| "server_exec dump Stop_server s = None"
| "server_exec dump (Strand ref e) s =
     (if ref < length (srv_heap s) \<and> strand_event e
      then map_option (\<lambda>c'. run_strand dump ref e c' s) (conn_exec e (srv_heap s ! ref))
      else None)"

abbreviation server_execs :: "(json \<Rightarrow> string result) \<Rightarrow> server_event list \<Rightarrow> server \<Rightarrow> server option" where
  "server_execs dump \<equiv> runs (server_exec dump)"

lemma server_exec_step: "server_exec dump e s = Some s' \<Longrightarrow> server_step dump s e s'"
  by (cases e) (auto intro: server_step.intros simp: conn_step_iff_exec split: if_splits)

interpretation server_trace: traced_machine "server_exec dump" "server_run dump" for dump
  by unfold_locales (auto intro: server_next server_exec_step)

lemmas server_execs_run = server_trace.runs_reached

text \<open>A client connects, asks for a pong and is answered.\<close>

definition sample_dump :: "json \<Rightarrow> string result" where
  "sample_dump j = Inr ''{}''"

definition sample_ping :: ClientMessage where
  "sample_ping = new_ClientMessage
     \<lparr>client_request_id := 7, client_payload := Some (Ping \<lparr>ping_timestamp = 42\<rparr>)\<rparr>"

definition sample_server_events :: "server_event list" where
  "sample_server_events =
     [Accepted, Strand 0 Run_post, Strand 0 (Run_reader 0), Strand 0 (Message_read 0 (Inr sample_ping)),
      Strand 0 Run_post, Strand 0 (Run_writer 0), Strand 0 (Message_written 0 (Inr ()))]"

definition sample_server :: server where
  "sample_server = the (server_execs sample_dump sample_server_events initial_server)"

lemma sample_server_some: "server_execs sample_dump sample_server_events initial_server \<noteq> None"
  by code_simp

lemma sample_server_run: "server_run sample_dump sample_server_events sample_server"
  using server_execs_run [OF server_start, of sample_dump sample_server_events sample_server]
    sample_server_some
  by (simp add: sample_server_def)

section \<open>Properties\<close>

lemma server_run_config: "server_run dump es s \<Longrightarrow> ts_config s = default_tcp_server_config"
proof (induction rule: server_run.induct)
  case (server_next es s e s')
  have settle: "ts_config (settle ref c s) = ts_config s" for ref c s
    by (simp add: settle_def handleDisconnect_def Let_def)
  have "ts_config (deliver dump ref i m s) = ts_config s" for ref i m s
    by (auto simp: deliver_def settle handleMessage_def split: prod.splits sum.splits)
  then have "ts_config (run_strand dump ref e c s) = ts_config s" for ref e c s
    by (cases "(dump, ref, e, c, s)" rule: run_strand.cases) (simp_all add: settle)
  with server_next(2,3) show ?case
    by cases (auto simp: accept_socket_def accept_error_def stop_server_def
        split: prod.splits sum.splits option.splits)
qed (simp add: initial_server_def new_server_def)

lemma id_at_raw: "raw_id (id_at ref) = word_of_nat (Suc ref)"
  by (simp add: id_at_def)

text \<open>
  C14: no ghost players. Whatever the clients, the network and the scheduler do, every player
  of the world belongs to exactly one connection, and that connection is open: a player leaves
  the world with its connection.
\<close>

theorem players_have_open_connections:
  assumes "server_run dump es s" and "player p (sv_state (srv_service s)) = Some q"
  shows "\<exists>!ref. ref < length (srv_heap s) \<and> \<not> m_closed (srv_heap s ! ref) \<and>
     playerFor (sv_connections (srv_service s)) (raw_id (m_id (srv_heap s ! ref))) = Some p"
proof -
  note inv = server_run_inv [OF assms(1)]
  have ok: "service_ok (srv_service s)"
    using server_invD(3) [OF inv] by (simp add: players_inv_def)
  then obtain k where k: "playerFor (sv_connections (srv_service s)) k = Some p"
    using assms(2) by (auto simp: service_ok_def)
  then obtain ref where ref: "ref < length (srv_heap s)" "Connection_id k = id_at ref"
    "\<not> m_closed (srv_heap s ! ref)"
    using server_invD(3) [OF inv] by (auto simp: players_inv_def)
  have id: "m_id (srv_heap s ! r) = id_at r" if "r < length (srv_heap s)" for r
    using inv that by (simp add: server_invD heap_invD)
  show ?thesis
  proof (rule ex1I [of _ ref])
    show "ref < length (srv_heap s) \<and> \<not> m_closed (srv_heap s ! ref) \<and>
       playerFor (sv_connections (srv_service s)) (raw_id (m_id (srv_heap s ! ref))) = Some p"
      using ref k id by (metis connection_id.sel)
  next
    fix r
    assume r: "r < length (srv_heap s) \<and> \<not> m_closed (srv_heap s ! r) \<and>
       playerFor (sv_connections (srv_service s)) (raw_id (m_id (srv_heap s ! r))) = Some p"
    then have "raw_id (id_at r) = k"
      using k id service_okD(3) [OF ok] by (auto simp: exclusive_def)
    then show "r = ref"
      using r ref id_at_inj [OF server_invD(1) [OF inv]] by (metis connection_id.collapse)
  qed
qed

theorem players_have_open_connections_witness:
  "\<exists>!ref. ref < length (srv_heap sample_server) \<and> \<not> m_closed (srv_heap sample_server ! ref) \<and>
     playerFor (sv_connections (srv_service sample_server))
       (raw_id (m_id (srv_heap sample_server ! ref))) = Some 1"
proof -
  have "player 1 (sv_state (srv_service sample_server)) \<noteq> None"
    by code_simp
  then show ?thesis
    using players_have_open_connections [OF sample_server_run] by blast
qed

text \<open>
  C25: the connection manager holds, under their identifiers, exactly the open connections
  until the server is stopped, and none afterwards; identifiers are never 0 and never given
  twice, so at most 65535 connections are ever accepted.
\<close>

theorem manager_holds_open_connections:
  assumes "server_run dump es s"
  shows "(mc_connections (srv_manager s) cid = Some ref \<longleftrightarrow>
       \<not> ts_stopped s \<and> ref < length (srv_heap s) \<and> m_id (srv_heap s ! ref) = cid \<and>
       \<not> m_closed (srv_heap s ! ref)) \<and>
     distinct (map m_id (srv_heap s)) \<and> Connection_id 0 \<notin> set (map m_id (srv_heap s)) \<and>
     length (srv_heap s) \<le> 65535"
proof -
  note inv = server_run_inv [OF assms]
  note heap = server_invD(1) [OF inv]
  have id: "m_id (srv_heap s ! r) = id_at r" if "r < length (srv_heap s)" for r
    using heap that by (simp add: heap_invD)
  have len: "length (srv_heap s) \<le> 65535" using heap by (simp add: heap_inv_def)
  have "distinct (map m_id (srv_heap s))"
    using id id_at_inj [OF heap] by (auto simp: distinct_conv_nth)
  moreover have "id_at r \<noteq> Connection_id 0" if "r < length (srv_heap s)" for r
    using that len unat_id_at [of r] by auto
  then have "Connection_id 0 \<notin> set (map m_id (srv_heap s))"
    using id by (metis in_set_conv_nth length_map nth_map)
  ultimately show ?thesis
    using inv id len server_invD(2) [OF inv]
    by (cases "ts_stopped s") (auto simp: server_inv_def manager_inv_def)
qed

theorem manager_holds_open_connections_witness:
  "mc_connections (srv_manager sample_server) (Connection_id 1) = Some 0 \<and>
   \<not> m_closed (srv_heap sample_server ! 0)"
proof -
  have "mc_connections (srv_manager sample_server) (Connection_id 1) = Some 0"
    by code_simp
  then show ?thesis
    using manager_holds_open_connections [OF sample_server_run, of "Connection_id 1" 0] by simp
qed

text \<open>
  C10: the server answers in order. For every connection of every run, the messages written to
  it, with the one being written, answer the first requests delivered to the handler, one for
  one and in the order of arrival, each with the identifier of its request and the payload the
  protocol gives it. While the server runs and the connection is open, every delivered
  request has its answer written, being written, queued or posted.
\<close>

theorem server_answers_in_order:
  assumes "server_run dump es s" and "ref < length (srv_heap s)"
  shows "let c = srv_heap s ! ref; out = written c @ in_flight c
     in length out \<le> length (delivered c) \<and>
        list_all2 answers (take (length out) (delivered c)) out \<and>
        (\<not> m_closed c \<and> \<not> ts_stopped s \<longrightarrow>
           list_all2 answers (delivered c) (out @ m_writeQueue c @ pending_sends c))"
proof -
  let ?c = "srv_heap s ! ref"
  let ?out = "written ?c @ in_flight ?c"
  obtain ms where ms: "conn_fifo ms ?c" "length ms \<le> length (delivered ?c)"
    "list_all2 answers (take (length ms) (delivered ?c)) ms"
    "mc_stopped (srv_manager s) \<or> m_closed ?c \<or> length ms = length (delivered ?c)"
    using server_run_replies [OF assms(1)] nth_mem [OF assms(2)]
    unfolding server_replies_def replied_def by (metis add_0_right)
  then obtain d where d: "ms = ?out @ m_writeQueue ?c @ d @ pending_sends ?c" "m_closed ?c \<or> d = []"
    by (auto simp: conn_fifo_def)
  let ?n = "length ?out"
  have "?n \<le> length ms" using d(1) by simp
  moreover have "list_all2 answers (take ?n (take (length ms) (delivered ?c))) (take ?n ms)"
    using ms(3) by (rule list_all2_takeI)
  moreover have "take ?n ms = ?out" using d(1) by simp
  moreover have "ts_stopped s \<longleftrightarrow> mc_stopped (srv_manager s)"
    using server_run_inv [OF assms(1)] by (simp add: server_inv_def)
  ultimately show ?thesis
    using ms(2-4) d by (auto simp: Let_def min_def simp del: length_append)
qed

theorem server_answers_in_order_witness:
  "\<exists>c. c = srv_heap sample_server ! 0 \<and> delivered c = [sample_ping] \<and> length (written c) = 1 \<and>
     list_all2 answers [sample_ping] (written c)"
proof -
  let ?c = "srv_heap sample_server ! 0"
  have "delivered ?c = [sample_ping]" "length (written ?c) = 1" "in_flight ?c = []"
    "0 < length (srv_heap sample_server)"
    by code_simp+
  then show ?thesis
    using server_answers_in_order [OF sample_server_run, of 0] by (simp add: Let_def)
qed

text \<open>
  C29: what the accept loop does with an accepted socket. A running server that has accepted
  fewer than 65535 connections since it started makes a connection with the next identifier,
  starts it and goes on accepting. After the 65535th no socket is served any more, however few
  connections are still open: \<open>create\<close> throws, and the exception ends the accept loop, while
  the server is not stopped.
\<close>

theorem accept_socket_limit:
  assumes "server_run dump es s" and "ts_accepting s" and "\<not> ts_stopped s"
  shows "if length (srv_heap s) < 65535
     then \<exists>c. srv_heap (accept_socket s) = srv_heap s @ [c] \<and>
            m_id c = Connection_id (word_of_nat (Suc (length (srv_heap s)))) \<and>
            posts c = [Post_start] \<and> \<not> m_closed c \<and> m_maxMessageBytes c = 1024 * 1024 \<and>
            ts_accepting (accept_socket s) \<and> \<not> ts_stopped (accept_socket s)
     else srv_heap (accept_socket s) = srv_heap s \<and> \<not> ts_accepting (accept_socket s) \<and>
            \<not> ts_stopped (accept_socket s)"
proof -
  note inv = server_run_inv [OF assms(1)]
  have running: "\<not> mc_stopped (srv_manager s)" using inv assms(3) by (simp add: server_inv_def)
  have cfg: "max_message_bytes (ts_config s) = 1024 * 1024"
    using server_run_config [OF assms(1)] by (simp add: default_tcp_server_config_def)
  let ?n = "length (srv_heap s)"
  have nxt: "pre_increment (mc_nextConnectionId (srv_manager s)) = (id_at ?n, id_at ?n)"
    using inv assms(2) by (simp add: server_inv_def pre_increment_def id_at_def add.commute Let_def)
  show ?thesis
  proof (cases "?n < 65535")
    case True
    then have "raw_id (id_at ?n) \<noteq> 0" using unat_id_at [of ?n] by auto
    with True running cfg nxt assms(2,3) show ?thesis
      by (simp add: accept_socket_def manager_create_def connection_create_def server_conn_config_def
          start_def id_at_def)
  next
    case False
    then have "?n = 65535" using server_invD(1) [OF inv] by (simp add: heap_inv_def)
    then have "raw_id (id_at ?n) = 0" by (simp add: id_at_def)
    with False running nxt assms(3) show ?thesis
      by (simp add: accept_socket_def manager_create_def)
  qed
qed

theorem accept_socket_limit_witness:
  "\<exists>c. srv_heap (accept_socket sample_server) = srv_heap sample_server @ [c] \<and>
     m_id c = Connection_id 2 \<and> ts_accepting (accept_socket sample_server)"
proof -
  have 1: "length (srv_heap sample_server) = 1" "ts_accepting sample_server" "\<not> ts_stopped sample_server"
    by code_simp+
  show ?thesis
    using accept_socket_limit [OF sample_server_run 1(2,3)] 1(1) by auto
qed

end
