(* ===== verification/Request_Manager.thy ===== *)
theory Request_Manager
  imports Connection
begin

text \<open>
  \<open>client/src/network/ClientTypes.hpp\<close> and \<open>ClientRequestManager.hpp\<close>/\<open>.cpp\<close>: the requests a
  client has in flight. Every operation runs on the client's strand. A call of \<open>send\<close> is cut
  where it waits for its timer: \<open>send_begin\<close> is what it does before, \<open>send_resume\<close> what it does
  with the outcome of the wait. The connection objects live in a store, as they do on the
  server.
\<close>

section \<open>Configuration\<close>

text \<open>Durations are counts of the clock's ticks, which may be negative.\<close>

record client_config =
  cfg_maxMessageBytes :: u32
  cfg_maxQueuedMessages :: nat
  cfg_maxPendingRequests :: nat
  cfg_connectTimeout :: int
  cfg_requestTimeout :: int

definition default_client_config :: client_config where
  "default_client_config =
     \<lparr>cfg_maxMessageBytes = 1024 * 1024, cfg_maxQueuedMessages = 1024,
      cfg_maxPendingRequests = 1024, cfg_connectTimeout = 5 * 10 ^ 9,
      cfg_requestTimeout = 5 * 10 ^ 9\<rparr>"

definition validate :: "client_config \<Rightarrow> unit result" where
  "validate cfg =
     (if cfg_maxMessageBytes cfg = 0
      then Inl (Invalid_argument ''Client maxMessageBytes must be greater than zero'')
      else if cfg_maxQueuedMessages cfg = 0
      then Inl (Invalid_argument ''Client maxQueuedMessages must be greater than zero'')
      else if cfg_maxPendingRequests cfg = 0
      then Inl (Invalid_argument ''Client maxPendingRequests must be greater than zero'')
      else if cfg_connectTimeout cfg \<le> 0
      then Inl (Invalid_argument ''Client connectTimeout must be greater than zero'')
      else if cfg_requestTimeout cfg \<le> 0
      then Inl (Invalid_argument ''Client requestTimeout must be greater than zero'')
      else Inr ())"

section \<open>State\<close>

type_synonym client_conn = "(ServerMessage, ClientMessage) conn"

datatype PendingState = Waiting | Completed | Failed

text \<open>
  A \<open>steady_timer\<close> with one wait: running, or done with the error code its wait will be resumed
  with. Cancelling it aborts a running wait and does nothing to one that is done already, as
  documented by Asio.
\<close>

datatype timer = Timer_running | Timer_done error_code

fun timer_cancel :: "timer \<Rightarrow> timer" where
  "timer_cancel Timer_running = Timer_done Ec_operation_aborted"
| "timer_cancel (Timer_done ec) = Timer_done ec"

text \<open>\<open>pr_address\<close> is where the object lives, for the comparison of pointers in \<open>send\<close>.\<close>

record pending_request =
  pr_address :: nat
  pr_timer :: timer
  pr_state :: PendingState
  pr_response :: "ServerMessage option"
  pr_error :: string

definition PendingRequest :: "nat \<Rightarrow> pending_request" where
  "PendingRequest address =
     \<lparr>pr_address = address, pr_timer = Timer_running, pr_state = Waiting, pr_response = None,
      pr_error = []\<rparr>"

text \<open>
  \<open>m_pendingRequests\<close> is held as the list of its entries, one for each key; no operation
  depends on their order. \<open>m_onClosed\<close> is given by whether it is set.
\<close>

record request_manager =
  rq_maxMessageBytes :: u32
  rq_maxQueuedMessages :: nat
  m_maxPendingRequests :: nat
  m_nextRequestId :: u64
  m_connection :: "nat option"
  m_onClosed :: bool
  m_pendingRequests :: "(u64 \<times> pending_request) list"

definition ClientRequestManager :: "client_config \<Rightarrow> request_manager" where
  "ClientRequestManager cfg =
     \<lparr>rq_maxMessageBytes = cfg_maxMessageBytes cfg,
      rq_maxQueuedMessages = cfg_maxQueuedMessages cfg,
      m_maxPendingRequests = cfg_maxPendingRequests cfg,
      m_nextRequestId = 0, m_connection = None, m_onClosed = False, m_pendingRequests = []\<rparr>"

section \<open>Operations\<close>

definition find_pending :: "u64 \<Rightarrow> request_manager \<Rightarrow> pending_request option" where
  "find_pending k m = map_of (m_pendingRequests m) k"

definition update_pending ::
  "(pending_request \<Rightarrow> pending_request) \<Rightarrow> u64 \<Rightarrow> request_manager \<Rightarrow> request_manager" where
  "update_pending f k m =
     m\<lparr>m_pendingRequests :=
        map (\<lambda>(k', p). (k', if k' = k then f p else p)) (m_pendingRequests m)\<rparr>"

text \<open>\<open>start\<close>: an exception of \<open>create\<close> leaves the manager as it was.\<close>

definition rq_start ::
  "bool \<Rightarrow> client_conn list \<Rightarrow> request_manager \<Rightarrow>
     unit result \<times> client_conn list \<times> request_manager" where
  "rq_start onClosed conns m =
     (if m_connection m \<noteq> None
      then (Inl (Logic_error ''Client connection is already active''), conns, m)
      else case connection_create (Connection_id 0)
                  \<lparr>maxMessageBytes = rq_maxMessageBytes m,
                   maxQueuedMessages = rq_maxQueuedMessages m\<rparr> True True of
             Inl x \<Rightarrow> (Inl x, conns, m)
           | Inr connection \<Rightarrow>
               (Inr (), conns @ [start connection],
                m\<lparr>m_connection := Some (length conns), m_onClosed := onClosed\<rparr>))"

definition fail_pending :: "string \<Rightarrow> pending_request \<Rightarrow> pending_request" where
  "fail_pending reason p =
     (if pr_state p = Waiting
      then p\<lparr>pr_state := Failed, pr_error := reason, pr_timer := timer_cancel (pr_timer p)\<rparr>
      else p)"

definition failPendingRequests :: "string \<Rightarrow> request_manager \<Rightarrow> request_manager" where
  "failPendingRequests reason m =
     m\<lparr>m_pendingRequests := map (\<lambda>(k, p). (k, fail_pending reason p)) (m_pendingRequests m)\<rparr>"

definition rq_stop ::
  "string \<Rightarrow> client_conn list \<Rightarrow> request_manager \<Rightarrow> client_conn list \<times> request_manager" where
  "rq_stop reason conns m =
     (case m_connection m of
        None \<Rightarrow> (conns, m)
      | Some ref \<Rightarrow> (conns[ref := stop (conns ! ref)], failPendingRequests reason m))"

definition nextRequestId :: "request_manager \<Rightarrow> u64 \<times> request_manager" where
  "nextRequestId m = (let k = m_nextRequestId m + 1 in (k, m\<lparr>m_nextRequestId := k\<rparr>))"

text \<open>
  \<open>send\<close> up to its \<open>co_await\<close>, with the address of the new object. If the identifier were taken,
  \<open>emplace\<close> would drop the new object and the timer be used after its end.
\<close>

definition send_begin ::
  "nat \<Rightarrow> ClientMessage \<Rightarrow> client_conn list \<Rightarrow> request_manager \<Rightarrow>
     (fault + u64) \<times> client_conn list \<times> request_manager" where
  "send_begin address message conns m =
     (case m_connection m of
        None \<Rightarrow> (Inl (Thrown (Runtime_error ''Client is not connected'')), conns, m)
      | Some ref \<Rightarrow>
          if length (m_pendingRequests m) \<ge> m_maxPendingRequests m
          then (Inl (Thrown (Runtime_error ''Too many pending client requests'')), conns, m)
          else let (requestId, m1) = nextRequestId m;
                   conns1 = conns[ref := send (message\<lparr>client_request_id := requestId\<rparr>) (conns ! ref)]
               in if find_pending requestId m1 \<noteq> None
                  then (Inl Undefined_behaviour, conns1, m1)
                  else (Inr requestId, conns1,
                        m1\<lparr>m_pendingRequests :=
                             m_pendingRequests m1 @ [(requestId, PendingRequest address)]\<rparr>))"

text \<open>\<open>send\<close> after its \<open>co_await\<close>, with the error code of the wait.\<close>

definition send_resume ::
  "u64 \<Rightarrow> nat \<Rightarrow> error_code \<Rightarrow> request_manager \<Rightarrow> ServerMessage result \<times> request_manager" where
  "send_resume requestId pendingRaw ec m =
     (case find_pending requestId m of
        None \<Rightarrow> (Inl (Runtime_error ''Pending request state was lost''), m)
      | Some completed \<Rightarrow>
          if pr_address completed \<noteq> pendingRaw
          then (Inl (Runtime_error ''Pending request state was lost''), m)
          else let m1 = m\<lparr>m_pendingRequests :=
                     filter (\<lambda>(k, p). k \<noteq> requestId) (m_pendingRequests m)\<rparr>
               in (if ec = Ec_success then Inl (Runtime_error ''Request timed out'')
                   else if ec \<noteq> Ec_operation_aborted
                   then Inl (System_error ec ''Pending request wait failed'')
                   else if pr_state completed = Failed then Inl (Runtime_error (pr_error completed))
                   else if pr_state completed \<noteq> Completed \<or> pr_response completed = None
                   then Inl (Runtime_error ''Pending request was cancelled without response'')
                   else Inr (the (pr_response completed)), m1))"

definition complete_pending :: "ServerMessage \<Rightarrow> pending_request \<Rightarrow> pending_request" where
  "complete_pending message p =
     p\<lparr>pr_state := Completed, pr_response := Some message, pr_timer := timer_cancel (pr_timer p)\<rparr>"

definition receive :: "ServerMessage \<Rightarrow> request_manager \<Rightarrow> request_manager" where
  "receive message m =
     (case find_pending (server_request_id message) m of
        None \<Rightarrow> m
      | Some pending \<Rightarrow>
          if pr_state pending \<noteq> Waiting then m
          else update_pending (complete_pending message) (server_request_id message) m)"

text \<open>\<open>connectionClosed\<close>, and whether it calls \<open>m_onClosed\<close>.\<close>

definition rq_connectionClosed :: "request_manager \<Rightarrow> bool \<times> request_manager" where
  "rq_connectionClosed m =
     (let m1 = failPendingRequests ''Connection closed before response was received''
                 (m\<lparr>m_connection := None\<rparr>)
      in if \<not> m_onClosed m1 then (False, m1) else (True, m1\<lparr>m_onClosed := False\<rparr>))"

text \<open>
  The two \<open>sendRequest\<close>s: the message each of them sends, and what each makes of the response.
\<close>

definition request_message :: "client_payload \<Rightarrow> ClientMessage" where
  "request_message p = new_ClientMessage\<lparr>client_payload := Some p\<rparr>"

definition ping_result :: "ServerMessage result \<Rightarrow> PongResponse result" where
  "ping_result r =
     (case r of
        Inl x \<Rightarrow> Inl x
      | Inr response \<Rightarrow>
          if server_status response \<noteq> STATUS_OK then Inl (Runtime_error (error_text response))
          else case server_payload response of
                 Some (Pong pong) \<Rightarrow> Inr pong
               | _ \<Rightarrow> Inl (Runtime_error ''Ping response has unexpected payload''))"

definition snapshot_result :: "ServerMessage result \<Rightarrow> StateSnapshotResponse result" where
  "snapshot_result r =
     (case r of
        Inl x \<Rightarrow> Inl x
      | Inr response \<Rightarrow>
          if server_status response \<noteq> STATUS_OK then Inl (Runtime_error (error_text response))
          else case server_payload response of
                 Some (StateSnapshotReply snapshot) \<Rightarrow> Inr snapshot
               | _ \<Rightarrow> Inl (Runtime_error ''State snapshot response has unexpected payload''))"

text \<open>The timer of a pending request is done: it expired, or its wait failed.\<close>

definition expire_pending :: "error_code \<Rightarrow> pending_request \<Rightarrow> pending_request" where
  "expire_pending ec p =
     (if pr_timer p = Timer_running then p\<lparr>pr_timer := Timer_done ec\<rparr> else p)"

section \<open>A pending request is settled once\<close>

text \<open>
  \<open>settled p\<close>: what the waiting call of \<open>send\<close> is going to return, once its wait is done.
\<close>

definition wait_result :: "error_code \<Rightarrow> pending_request \<Rightarrow> ServerMessage result" where
  "wait_result ec p =
     (if ec = Ec_success then Inl (Runtime_error ''Request timed out'')
      else if ec \<noteq> Ec_operation_aborted then Inl (System_error ec ''Pending request wait failed'')
      else if pr_state p = Failed then Inl (Runtime_error (pr_error p))
      else if pr_state p \<noteq> Completed \<or> pr_response p = None
      then Inl (Runtime_error ''Pending request was cancelled without response'')
      else Inr (the (pr_response p)))"

fun settled :: "pending_request \<Rightarrow> ServerMessage result option" where
  "settled p = (case pr_timer p of Timer_running \<Rightarrow> None | Timer_done ec \<Rightarrow> Some (wait_result ec p))"

declare settled.simps [simp del]

text \<open>The well-formed entries of the table, by their state.\<close>

definition pending_ok :: "u64 \<Rightarrow> pending_request \<Rightarrow> bool" where
  "pending_ok k p \<longleftrightarrow>
     (case pr_state p of
        Waiting \<Rightarrow> pr_timer p \<noteq> Timer_done Ec_operation_aborted \<and> pr_response p = None
      | Completed \<Rightarrow> pr_timer p \<noteq> Timer_running \<and>
          (\<exists>r. pr_response p = Some r \<and> server_request_id r = k)
      | Failed \<Rightarrow> pr_timer p \<noteq> Timer_running)"

lemma pending_ok_new: "pending_ok k (PendingRequest a)"
  by (simp add: pending_ok_def PendingRequest_def)

text \<open>
  The contract of the operations on the entries: they keep an entry well formed and in its
  place, and never change what its call is going to return.
\<close>

definition map_pending ::
  "(u64 \<Rightarrow> pending_request \<Rightarrow> pending_request) \<Rightarrow> request_manager \<Rightarrow> request_manager" where
  "map_pending f m = m\<lparr>m_pendingRequests := map (\<lambda>(k, p). (k, f k p)) (m_pendingRequests m)\<rparr>"

text \<open>
  What the table as a whole keeps: one entry for each identifier, never more than the limit,
  no identifier above the last one given.
\<close>

definition rq_inv :: "request_manager \<Rightarrow> bool" where
  "rq_inv m \<longleftrightarrow>
     distinct (map fst (m_pendingRequests m)) \<and>
     length (m_pendingRequests m) \<le> m_maxPendingRequests m \<and>
     (\<forall>(k, p) \<in> set (m_pendingRequests m).
        pending_ok k p \<and> 0 < unat k \<and> unat k \<le> unat (m_nextRequestId m))"

lemma keys_map_pending: "map fst (m_pendingRequests (map_pending f m)) = map fst (m_pendingRequests m)"
  by (simp add: map_pending_def case_prod_unfold comp_def)

lemma find_map_pending:
  "find_pending k (map_pending f m) = map_option (f k) (find_pending k m)"
proof -
  have "map_of (map (\<lambda>(k, p). (k, f k p)) ps) k = map_option (f k) (map_of ps k)" for ps
    by (induction ps) auto
  then show ?thesis by (simp add: find_pending_def map_pending_def)
qed

locale pending_operation =
  fixes f :: "u64 \<Rightarrow> pending_request \<Rightarrow> pending_request"
  assumes ok: "pending_ok k p \<Longrightarrow> pending_ok k (f k p)"
    and keeps: "pending_ok k p \<Longrightarrow> settled p = Some r \<Longrightarrow> settled (f k p) = Some r"
    and address: "pr_address (f k p) = pr_address p"
begin

lemma map_inv: "rq_inv m \<Longrightarrow> rq_inv (map_pending f m)"
  unfolding rq_inv_def keys_map_pending by (auto simp: map_pending_def ok)

lemma map_settled:
  assumes "rq_inv m" and "find_pending k m = Some p" and "settled p = Some r"
  obtains p' where "find_pending k (map_pending f m) = Some p'" and "settled p' = Some r"
    and "pr_address p' = pr_address p"
proof -
  have "pending_ok k p"
    using assms(1,2) by (fastforce simp: rq_inv_def find_pending_def dest: map_of_SomeD)
  then show ?thesis
    using that [of "f k p"] assms(2,3) by (simp add: find_map_pending keeps address)
qed

lemma map_found:
  "find_pending k m = Some p \<Longrightarrow>
     find_pending k (map_pending f m) = Some (f k p) \<and> pr_address (f k p) = pr_address p"
  by (simp add: find_map_pending address)

end

definition complete_if :: "ServerMessage \<Rightarrow> u64 \<Rightarrow> pending_request \<Rightarrow> pending_request" where
  "complete_if message k p =
     (if server_request_id message = k \<and> pr_state p = Waiting then complete_pending message p else p)"

definition expire_if :: "u64 \<Rightarrow> error_code \<Rightarrow> u64 \<Rightarrow> pending_request \<Rightarrow> pending_request" where
  "expire_if k0 ec k p =
     (if k = k0 \<and> ec \<noteq> Ec_operation_aborted then expire_pending ec p else p)"

lemma timer_cancel_not_running [simp]: "timer_cancel t \<noteq> Timer_running"
  by (cases t) simp_all

lemmas pending_defs = pending_ok_def settled.simps wait_result_def complete_if_def
  complete_pending_def expire_if_def expire_pending_def fail_pending_def

interpretation failing: pending_operation "\<lambda>k. fail_pending reason" for reason
  by unfold_locales
    (auto simp: pending_defs split: PendingState.splits timer.splits if_splits)

interpretation completing: pending_operation "complete_if message" for message
  by unfold_locales
    (auto simp: pending_defs split: PendingState.splits timer.splits if_splits)

interpretation expiring: pending_operation "expire_if k0 ec" for k0 ec
  by unfold_locales
    (auto simp: pending_defs split: PendingState.splits timer.splits if_splits)

lemma failPendingRequests_map: "failPendingRequests reason m = map_pending (\<lambda>k. fail_pending reason) m"
  by (simp add: failPendingRequests_def map_pending_def)

lemma pending_ext:
  assumes "\<And>k p. find_pending k m = Some p \<Longrightarrow> f k p = g k p" and "rq_inv m"
  shows "map_pending f m = map_pending g m"
proof -
  have "map (\<lambda>(k, p). (k, f k p)) (m_pendingRequests m) = map (\<lambda>(k, p). (k, g k p)) (m_pendingRequests m)"
    using assms by (auto simp: rq_inv_def find_pending_def)
  then show ?thesis by (simp add: map_pending_def)
qed

lemma receive_map:
  assumes "rq_inv m"
  shows "receive message m = map_pending (complete_if message) m"
proof -
  let ?k = "server_request_id message"
  have same: "map_pending (\<lambda>k p. p) m = m"
    by (simp add: map_pending_def)
  show ?thesis
  proof (cases "find_pending ?k m")
    case None
    then have "map_pending (complete_if message) m = map_pending (\<lambda>k p. p) m"
      using assms by (intro pending_ext) (auto simp: complete_if_def)
    with None same show ?thesis by (simp add: receive_def)
  next
    case (Some p)
    have "map_pending (complete_if message) m =
        (if pr_state p = Waiting then map_pending (\<lambda>k p. if k = ?k then complete_pending message p else p) m
         else map_pending (\<lambda>k p. p) m)"
      using assms Some by (auto simp: complete_if_def intro!: pending_ext)
    with Some same show ?thesis
      by (auto simp: receive_def update_pending_def map_pending_def)
  qed
qed

lemma update_expire_map:
  "ec \<noteq> Ec_operation_aborted \<Longrightarrow> update_pending (expire_pending ec) k m = map_pending (expire_if k ec) m"
  by (auto simp: update_pending_def map_pending_def expire_if_def)

end
