(* ===== verification/Client.thy ===== *)
theory Client
  imports Request_Manager
begin

text \<open>
  \<open>client/src/network/ConnectionManager.hpp\<close>/\<open>.cpp\<close> and \<open>Client.hpp\<close>/\<open>.cpp\<close>: the connection
  state of the client, the coroutines that wait for it, and the client as a whole, with its
  request manager and its connections. All of it runs on one strand: a step is what one
  coroutine or posted handler does up to its next suspension, and the scheduler, the network
  and the callers choose which. A coroutine is cut at its \<open>co_await\<close>s; the \<open>dispatch\<close> to the
  strand it begins with is where its call takes effect.
\<close>

section \<open>State\<close>

datatype ConnectionState = Disconnected | Connecting | Connected | Disconnecting

text \<open>\<open>m_connectingSocket\<close>, when it is set.\<close>

datatype connecting_socket = Socket_open | Socket_closed

text \<open>
  A coroutine in \<open>waitForDisconnected\<close>: the timer it waits for never expires, so its wait ends
  only when it is cancelled.
\<close>

datatype waiter = Waiter_waits | Waiter_done error_code

text \<open>A coroutine of \<open>sendRequest\<close> at the wait in \<open>send\<close>, with its local variables.\<close>

record sender =
  snd_payload :: client_payload
  snd_requestId :: u64
  snd_pendingRaw :: nat

text \<open>
  What a finished call returned or threw; of \<open>sendRequest\<close> also the request and the identifier
  it got, if it got one.
\<close>

datatype outcome =
    Connect_returns "unit result"
  | Disconnect_returns "unit result"
  | Ping_returns PingRequest "u64 option" "PongResponse result"
  | Snapshot_returns "u64 option" "StateSnapshotResponse result"

text \<open>
  \<open>m_manager\<close> is the request manager, \<open>m_state\<close> and \<open>m_connectingSocket\<close> are the connection
  manager's; \<open>cl_conns\<close> are the connection objects; \<open>cl_connects\<close>, \<open>m_disconnectWaiters\<close> and
  \<open>cl_senders\<close> the suspended coroutines; \<open>cl_posted_closes\<close> the posted calls of
  \<open>connectionClosed\<close>; \<open>cl_allocated\<close> the objects allocated; \<open>cl_outcomes\<close> the finished calls.
\<close>

record client =
  m_manager :: request_manager
  m_state :: ConnectionState
  m_connectingSocket :: "connecting_socket option"
  m_disconnectWaiters :: "waiter list"
  cl_conns :: "client_conn list"
  cl_connects :: nat
  cl_senders :: "sender list"
  cl_posted_closes :: nat
  cl_allocated :: nat
  cl_outcomes :: "outcome list"

text \<open>
  The constructor of \<open>ConnectionManager\<close>, which refuses a null pointer, and \<open>Client::create\<close>, which
  gives it the request manager just made.
\<close>

definition ConnectionManager :: "request_manager option \<Rightarrow> client result" where
  "ConnectionManager manager =
     (case manager of
        None \<Rightarrow> Inl (Invalid_argument ''ConnectionManager requires request manager'')
      | Some m \<Rightarrow>
          Inr \<lparr>m_manager = m, m_state = Disconnected,
               m_connectingSocket = None, m_disconnectWaiters = [], cl_conns = [],
               cl_connects = 0, cl_senders = [], cl_posted_closes = 0, cl_allocated = 0,
               cl_outcomes = []\<rparr>)"

definition client_create :: "client_config \<Rightarrow> client result" where
  "client_create cfg =
     (case validate cfg of
        Inl x \<Rightarrow> Inl x
      | Inr _ \<Rightarrow> ConnectionManager (Some (ClientRequestManager cfg)))"

lemma ConnectionManager_some [simp]:
  "ConnectionManager (Some m) =
     Inr \<lparr>m_manager = m, m_state = Disconnected, m_connectingSocket = None, m_disconnectWaiters = [],
          cl_conns = [], cl_connects = 0, cl_senders = [], cl_posted_closes = 0, cl_allocated = 0,
          cl_outcomes = []\<rparr>"
  by (simp add: ConnectionManager_def)

section \<open>ConnectionManager\<close>

definition log_outcome :: "outcome \<Rightarrow> client \<Rightarrow> client" where
  "log_outcome oc c = c\<lparr>cl_outcomes := cl_outcomes c @ [oc]\<rparr>"

fun waiter_cancel :: "waiter \<Rightarrow> waiter" where
  "waiter_cancel Waiter_waits = Waiter_done Ec_operation_aborted"
| "waiter_cancel (Waiter_done ec) = Waiter_done ec"

definition setState :: "ConnectionState \<Rightarrow> client \<Rightarrow> client" where
  "setState st c =
     (let c1 = c\<lparr>m_state := st\<rparr>
      in if m_state c = Disconnecting \<and> st = Disconnected
         then c1\<lparr>m_disconnectWaiters := map waiter_cancel (m_disconnectWaiters c1)\<rparr>
         else c1)"

definition closeConnectingSocket :: "client \<Rightarrow> client" where
  "closeConnectingSocket c =
     (case m_connectingSocket c of None \<Rightarrow> c | Some _ \<Rightarrow> c\<lparr>m_connectingSocket := Some Socket_closed\<rparr>)"

definition cm_connectionClosed :: "client \<Rightarrow> client" where
  "cm_connectionClosed c =
     (if m_state c = Connected \<or> m_state c = Disconnecting then setState Disconnected c else c)"

text \<open>\<open>connect\<close> up to the wait for \<open>async_connect\<close>, and after it, with its error code.\<close>

definition connect_begin :: "client \<Rightarrow> client" where
  "connect_begin c =
     (if m_state c \<noteq> Disconnected
      then log_outcome (Connect_returns
             (Inl (Logic_error ''Connect is not allowed in current connection state''))) c
      else (setState Connecting c)
             \<lparr>m_connectingSocket := Some Socket_open, cl_connects := Suc (cl_connects c)\<rparr>)"

definition connect_failed :: "exn \<Rightarrow> client \<Rightarrow> client" where
  "connect_failed x c =
     log_outcome (Connect_returns (Inl x))
       (setState Disconnected ((closeConnectingSocket c)\<lparr>m_connectingSocket := None\<rparr>))"

definition connect_resume :: "error_code \<Rightarrow> client \<Rightarrow> client" where
  "connect_resume ec c0 =
     (let c = c0\<lparr>cl_connects := cl_connects c0 - 1\<rparr>
      in if m_state c = Disconnecting
         then connect_failed (System_error Ec_operation_aborted ''Connection attempt was cancelled'') c
         else if ec \<noteq> Ec_success
         then connect_failed
                (if ec = Ec_operation_aborted then Runtime_error ''Connection timed out''
                 else System_error ec ''Failed to connect to server'') c
         else let c1 = c\<lparr>m_connectingSocket := None\<rparr>
              in case rq_start True (cl_conns c1) (m_manager c1) of
                   (Inl x, conns, m) \<Rightarrow>
                     log_outcome (Connect_returns (Inl x))
                       (setState Disconnected (c1\<lparr>cl_conns := conns, m_manager := m\<rparr>))
                 | (Inr _, conns, m) \<Rightarrow>
                     log_outcome (Connect_returns (Inr ()))
                       (setState Connected (c1\<lparr>cl_conns := conns, m_manager := m\<rparr>)))"

definition waitForDisconnected :: "client \<Rightarrow> client" where
  "waitForDisconnected c = c\<lparr>m_disconnectWaiters := m_disconnectWaiters c @ [Waiter_waits]\<rparr>"

definition disconnect_begin :: "client \<Rightarrow> client" where
  "disconnect_begin c =
     (case m_state c of
        Disconnected \<Rightarrow> log_outcome (Disconnect_returns (Inr ())) c
      | Disconnecting \<Rightarrow> waitForDisconnected c
      | Connecting \<Rightarrow> waitForDisconnected (closeConnectingSocket (setState Disconnecting c))
      | Connected \<Rightarrow>
          (let c1 = setState Disconnecting c;
               (conns, m) = rq_stop ''client disconnected'' (cl_conns c1) (m_manager c1)
           in waitForDisconnected (c1\<lparr>cl_conns := conns, m_manager := m\<rparr>)))"

text \<open>The waiting coroutine \<open>i\<close> of \<open>disconnect\<close>, resumed with the code of its wait.\<close>

definition disconnect_resume :: "nat \<Rightarrow> error_code \<Rightarrow> client \<Rightarrow> client" where
  "disconnect_resume i ec c0 =
     (let c = c0\<lparr>m_disconnectWaiters := remove_at i (m_disconnectWaiters c0)\<rparr>
      in if ec = Ec_operation_aborted then log_outcome (Disconnect_returns (Inr ())) c
         else log_outcome (Disconnect_returns
                (Inl (System_error ec ''Failed to wait for client disconnect''))) c)"

section \<open>Requests\<close>

definition request_outcome :: "client_payload \<Rightarrow> u64 option \<Rightarrow> ServerMessage result \<Rightarrow> outcome" where
  "request_outcome payload k r =
     (case payload of
        Ping request \<Rightarrow> Ping_returns request k (ping_result r)
      | StateSnapshot \<Rightarrow> Snapshot_returns k (snapshot_result r))"

text \<open>\<open>sendRequest\<close> up to its wait; undefined if \<open>send\<close> is.\<close>

definition request_begin :: "client_payload \<Rightarrow> client \<Rightarrow> client option" where
  "request_begin payload c0 =
     (let address = cl_allocated c0;
          c = c0\<lparr>cl_allocated := Suc address\<rparr>
      in case send_begin address (request_message payload) (cl_conns c) (m_manager c) of
           (Inl Undefined_behaviour, conns, m) \<Rightarrow> None
         | (Inl (Thrown x), conns, m) \<Rightarrow>
             Some (log_outcome (request_outcome payload None (Inl x))
                     (c\<lparr>cl_conns := conns, m_manager := m\<rparr>))
         | (Inr requestId, conns, m) \<Rightarrow>
             Some (c\<lparr>cl_conns := conns, m_manager := m,
                     cl_senders := cl_senders c @
                       [\<lparr>snd_payload = payload, snd_requestId = requestId, snd_pendingRaw = address\<rparr>]\<rparr>))"

definition request_resume :: "nat \<Rightarrow> error_code \<Rightarrow> client \<Rightarrow> client" where
  "request_resume i ec c0 =
     (let s = cl_senders c0 ! i;
          c = c0\<lparr>cl_senders := remove_at i (cl_senders c0)\<rparr>;
          (r, m) = send_resume (snd_requestId s) (snd_pendingRaw s) ec (m_manager c)
      in log_outcome (request_outcome (snd_payload s) (Some (snd_requestId s)) r)
           (c\<lparr>m_manager := m\<rparr>))"

section \<open>The handlers of a connection\<close>

text \<open>
  Storing a connection after one of its steps; the close handler posts \<open>connectionClosed\<close>.
\<close>

definition client_settle :: "nat \<Rightarrow> client_conn \<Rightarrow> client \<Rightarrow> client" where
  "client_settle ref x c =
     (let y = cl_conns c ! ref;
          c1 = c\<lparr>cl_conns := (cl_conns c)[ref := x]\<rparr>
      in if closed_calls y < closed_calls x
         then c1\<lparr>cl_posted_closes := Suc (cl_posted_closes c1)\<rparr> else c1)"

text \<open>The message handler: it goes to the client's strand, and then runs \<open>receive\<close> to its end.\<close>

definition client_receive :: "nat \<Rightarrow> nat \<Rightarrow> ServerMessage \<Rightarrow> client \<Rightarrow> client" where
  "client_receive ref i message c =
     client_settle ref (readLoop_handler i (Inr ()) (cl_conns c ! ref))
       (c\<lparr>m_manager := receive message (m_manager c)\<rparr>)"

definition client_connectionClosed :: "client \<Rightarrow> client" where
  "client_connectionClosed c =
     (let (calls, m) = rq_connectionClosed (m_manager c);
          c1 = c\<lparr>cl_posted_closes := cl_posted_closes c - 1, m_manager := m\<rparr>
      in if calls then cm_connectionClosed c1 else c1)"

section \<open>Steps\<close>

fun conn_internal :: "(ServerMessage, ClientMessage) conn_event \<Rightarrow> bool" where
  "conn_internal Run_post = True"
| "conn_internal (Run_reader i) = True"
| "conn_internal (Message_read i r) = True"
| "conn_internal (Run_writer i) = True"
| "conn_internal (Message_written i w) = True"
| "conn_internal _ = False"

datatype client_event =
    Call_connect
  | Connect_done error_code
  | Call_disconnect
  | Waiter_resumed nat
  | Call_request client_payload
  | Wait_over u64 error_code
  | Sender_resumed nat
  | Posted_close
  | Received nat nat
  | Conn_event nat "(ServerMessage, ClientMessage) conn_event"

text \<open>
  The object at an address, if it is still alive; destroying a timer aborts its wait. \<open>None\<close> is
  an event that cannot happen, or that is undefined (the case of \<open>request_begin\<close>).
\<close>

definition find_object :: "nat \<Rightarrow> request_manager \<Rightarrow> pending_request option" where
  "find_object address m = List.find (\<lambda>p. pr_address p = address) (map snd (m_pendingRequests m))"

fun client_exec :: "client_event \<Rightarrow> client \<Rightarrow> client option" where
  "client_exec Call_connect c = Some (connect_begin c)"
| "client_exec (Connect_done ec) c =
     (if cl_connects c > 0 then Some (connect_resume ec c) else None)"
| "client_exec Call_disconnect c = Some (disconnect_begin c)"
| "client_exec (Waiter_resumed i) c =
     (if i < length (m_disconnectWaiters c)
      then (case m_disconnectWaiters c ! i of
              Waiter_waits \<Rightarrow> None
            | Waiter_done ec \<Rightarrow> Some (disconnect_resume i ec c))
      else None)"
| "client_exec (Call_request payload) c = request_begin payload c"
| "client_exec (Wait_over k ec) c =
     (if ec = Ec_operation_aborted then None
      else case find_pending k (m_manager c) of
             None \<Rightarrow> None
           | Some p \<Rightarrow>
               if pr_timer p = Timer_running
               then Some (c\<lparr>m_manager := update_pending (expire_pending ec) k (m_manager c)\<rparr>)
               else None)"
| "client_exec (Sender_resumed i) c =
     (if i < length (cl_senders c)
      then (case find_object (snd_pendingRaw (cl_senders c ! i)) (m_manager c) of
              None \<Rightarrow> Some (request_resume i Ec_operation_aborted c)
            | Some p \<Rightarrow>
                (case pr_timer p of
                   Timer_running \<Rightarrow> None
                 | Timer_done ec \<Rightarrow> Some (request_resume i ec c)))
      else None)"
| "client_exec Posted_close c =
     (if cl_posted_closes c > 0 then Some (client_connectionClosed c) else None)"
| "client_exec (Received ref i) c =
     (if ref < length (cl_conns c) \<and> i < length (read_loops (cl_conns c ! ref))
      then (case read_loops (cl_conns c ! ref) ! i of
              Read_awaits_handler message \<Rightarrow> Some (client_receive ref i message c)
            | _ \<Rightarrow> None)
      else None)"
| "client_exec (Conn_event ref e) c =
     (if ref < length (cl_conns c) \<and> conn_internal e
      then map_option (\<lambda>x. client_settle ref x c) (conn_exec e (cl_conns c ! ref))
      else None)"

inductive client_run :: "client_config \<Rightarrow> client_event list \<Rightarrow> client \<Rightarrow> bool" for cfg where
  client_start: "client_create cfg = Inr c \<Longrightarrow> client_run cfg [] c"
| client_next: "client_run cfg es c \<Longrightarrow> client_exec e c = Some c' \<Longrightarrow> client_run cfg (es @ [e]) c'"

text \<open>The coroutines that are resumed, by what their steps do.\<close>

lemma sender_resumedD:
  "client_exec (Sender_resumed i) c = Some c' \<Longrightarrow> i < length (cl_senders c) \<and> (\<exists>ec. c' = request_resume i ec c)"
  by (auto split: if_splits option.splits timer.splits)

lemma waiter_resumedD:
  "client_exec (Waiter_resumed i) c = Some c' \<Longrightarrow>
     i < length (m_disconnectWaiters c) \<and>
     (\<exists>ec. Waiter_done ec \<in> set (m_disconnectWaiters c) \<and> c' = disconnect_resume i ec c)"
  by (auto split: if_splits waiter.splits) (metis nth_mem)

section \<open>The connection state and the connection\<close>

text \<open>The connection objects: all but the manager's current one are closed.\<close>

definition conns_inv :: "client_conn list \<Rightarrow> nat option \<Rightarrow> bool" where
  "conns_inv xs current \<longleftrightarrow>
     (\<forall>r < length xs. conn_inv (xs ! r) \<and> m_hasOnClosed (xs ! r) \<and>
        (current \<noteq> Some r \<longrightarrow> m_closed (xs ! r))) \<and>
     (\<forall>r. current = Some r \<longrightarrow> r < length xs)"

text \<open>
  What each connection state means: whether there is a connection, whether a coroutine of
  \<open>connect\<close> is waiting, and the connecting socket. While disconnecting, either the attempt was
  cancelled or the connection is closed or about to be.
\<close>

definition state_inv :: "client \<Rightarrow> bool" where
  "state_inv c \<longleftrightarrow>
     (case m_state c of
        Disconnected \<Rightarrow>
          m_connection (m_manager c) = None \<and> cl_connects c = 0 \<and> m_connectingSocket c = None
      | Connecting \<Rightarrow>
          m_connection (m_manager c) = None \<and> cl_connects c = 1 \<and>
          m_connectingSocket c = Some Socket_open
      | Connected \<Rightarrow>
          m_connection (m_manager c) \<noteq> None \<and> cl_connects c = 0 \<and> m_connectingSocket c = None
      | Disconnecting \<Rightarrow>
          (case m_connection (m_manager c) of
             None \<Rightarrow> cl_connects c = 1 \<and> m_connectingSocket c = Some Socket_closed
           | Some r \<Rightarrow> cl_connects c = 0 \<and> m_connectingSocket c = None \<and> stopping (cl_conns c ! r)))"

definition waiters_inv :: "client \<Rightarrow> bool" where
  "waiters_inv c \<longleftrightarrow>
     (\<forall>w \<in> set (m_disconnectWaiters c).
        w = Waiter_done Ec_operation_aborted \<or> w = Waiter_waits \<and> m_state c = Disconnecting)"

text \<open>\<open>connectionClosed\<close> is posted exactly while the current connection is closed.\<close>

definition posted_inv :: "client \<Rightarrow> bool" where
  "posted_inv c \<longleftrightarrow>
     cl_posted_closes c =
       (case m_connection (m_manager c) of
          None \<Rightarrow> 0 | Some r \<Rightarrow> if m_closed (cl_conns c ! r) then 1 else 0) \<and>
     (m_onClosed (m_manager c) \<longleftrightarrow> m_connection (m_manager c) \<noteq> None)"

definition link_inv :: "client \<Rightarrow> bool" where
  "link_inv c \<longleftrightarrow>
     conns_inv (cl_conns c) (m_connection (m_manager c)) \<and> state_inv c \<and> waiters_inv c \<and> posted_inv c"

lemmas link_inv_defs = link_inv_def conns_inv_def state_inv_def waiters_inv_def posted_inv_def

lemma link_invD:
  "link_inv c \<Longrightarrow> r < length (cl_conns c) \<Longrightarrow> conn_inv (cl_conns c ! r)"
  "link_inv c \<Longrightarrow> r < length (cl_conns c) \<Longrightarrow> m_hasOnClosed (cl_conns c ! r)"
  "link_inv c \<Longrightarrow> r < length (cl_conns c) \<Longrightarrow> \<not> m_closed (cl_conns c ! r) \<Longrightarrow>
     m_connection (m_manager c) = Some r"
  "link_inv c \<Longrightarrow> m_connection (m_manager c) = Some r \<Longrightarrow> r < length (cl_conns c)"
  by (auto simp: link_inv_def conns_inv_def)

text \<open>
  The invariant sees a connection by whether it is closed and whether it is being stopped, and
  the request manager by its connection and its close handler.
\<close>

definition same_conns :: "client_conn list \<Rightarrow> client_conn list \<Rightarrow> bool" where
  "same_conns xs ys \<longleftrightarrow>
     length ys = length xs \<and>
     (\<forall>r < length xs. \<exists>ps. ys ! r = (xs ! r)\<lparr>posts := posts (xs ! r) @ ps\<rparr>)"

lemma same_conns_refl: "same_conns xs xs"
  unfolding same_conns_def by (auto intro: exI [of _ "[]"])

lemma same_conns_post:
  "same_conns xs (xs[r := (xs ! r)\<lparr>posts := posts (xs ! r) @ ps\<rparr>])"
  unfolding same_conns_def
proof (intro conjI allI impI)
  fix r'
  assume "r' < length xs"
  then show "\<exists>qs. xs[r := (xs ! r)\<lparr>posts := posts (xs ! r) @ ps\<rparr>] ! r' =
      (xs ! r')\<lparr>posts := posts (xs ! r') @ qs\<rparr>"
    by (cases "r' = r") (auto intro: exI [of _ ps] exI [of _ "[]"])
qed simp

lemma same_conns_closed:
  assumes "same_conns xs ys" and "r < length xs"
  shows "m_closed (ys ! r) = m_closed (xs ! r)" and "conn_inv (ys ! r) = conn_inv (xs ! r)"
    and "m_hasOnClosed (ys ! r) = m_hasOnClosed (xs ! r)" and "stopping (xs ! r) \<Longrightarrow> stopping (ys ! r)"
proof -
  obtain ps where ys: "ys ! r = (xs ! r)\<lparr>posts := posts (xs ! r) @ ps\<rparr>"
    using assms by (auto simp: same_conns_def)
  show "m_closed (ys ! r) = m_closed (xs ! r)" "conn_inv (ys ! r) = conn_inv (xs ! r)"
    "m_hasOnClosed (ys ! r) = m_hasOnClosed (xs ! r)" "stopping (xs ! r) \<Longrightarrow> stopping (ys ! r)"
    unfolding ys by (simp_all add: posts_stopping)
qed

lemma same_conns_inv:
  assumes "same_conns xs ys" and "conns_inv xs cur"
  shows "conns_inv ys cur"
proof -
  have "length ys = length xs" using assms(1) by (simp add: same_conns_def)
  then show ?thesis
    using assms(2) same_conns_closed(1-3) [OF assms(1)] by (simp add: conns_inv_def)
qed

lemma link_inv_waiters:
  assumes inv: "link_inv c" and conns: "same_conns (cl_conns c) (cl_conns c')"
    and "m_connection (m_manager c') = m_connection (m_manager c)"
      "m_onClosed (m_manager c') = m_onClosed (m_manager c)"
      "m_state c' = m_state c" "cl_connects c' = cl_connects c"
      "m_connectingSocket c' = m_connectingSocket c"
      "cl_posted_closes c' = cl_posted_closes c"
    and waiters: "waiters_inv c'"
  shows "link_inv c'"
proof -
  have cur: "r < length (cl_conns c)" if "m_connection (m_manager c) = Some r" for r
    using link_invD(4) [OF inv that] .
  have "state_inv c'"
    using inv cur same_conns_closed [OF conns] assms(3-8)
    by (auto simp: link_inv_def state_inv_def split: ConnectionState.splits option.splits)
  moreover have "posted_inv c'"
    using inv cur same_conns_closed [OF conns] assms(3-8)
    by (auto simp: link_inv_def posted_inv_def split: option.splits)
  ultimately show ?thesis
    using inv same_conns_inv [OF conns] assms(3-8) waiters by (simp add: link_inv_def)
qed

lemma link_inv_same:
  assumes "link_inv c" and "same_conns (cl_conns c) (cl_conns c')"
    and "m_connection (m_manager c') = m_connection (m_manager c)"
      "m_onClosed (m_manager c') = m_onClosed (m_manager c)"
      "m_state c' = m_state c" "cl_connects c' = cl_connects c"
      "m_connectingSocket c' = m_connectingSocket c"
      "m_disconnectWaiters c' = m_disconnectWaiters c"
      "cl_posted_closes c' = cl_posted_closes c"
  shows "link_inv c'"
  using assms by (intro link_inv_waiters [OF assms(1,2)]) (simp_all add: link_inv_def waiters_inv_def)

text \<open>A step of a connection.\<close>

lemma client_settle_link:
  assumes inv: "link_inv c" and r: "r < length (cl_conns c)" and x: "later (cl_conns c ! r) x"
    and "stopping (cl_conns c ! r) \<Longrightarrow> stopping x"
  shows "link_inv (client_settle r x c)"
proof -
  let ?y = "cl_conns c ! r"
  note closes = close_calls_handler [OF link_invD(1,2) [OF inv r] x]
  have mono: "m_closed ?y \<Longrightarrow> m_closed x" using x by (simp add: later_def)
  have "conns_inv ((cl_conns c)[r := x]) (m_connection (m_manager c))"
    using inv r x by (auto simp: link_inv_def conns_inv_def later_def same_members_def nth_list_update)
  moreover have "state_inv (client_settle r x c)"
    using inv r assms(4) by (auto simp: link_inv_def state_inv_def client_settle_def Let_def
        nth_list_update split: ConnectionState.splits option.splits)
  moreover have "posted_inv (client_settle r x c)"
    using inv r mono closes link_invD(3) [OF inv r]
    by (auto simp: link_inv_def posted_inv_def client_settle_def Let_def nth_list_update
        split: option.splits)
  ultimately show ?thesis
    using inv by (auto simp: link_inv_def waiters_inv_def client_settle_def Let_def)
qed

text \<open>What the operations on requests leave alone.\<close>

definition same_link :: "request_manager \<Rightarrow> request_manager \<Rightarrow> bool" where
  "same_link m m' \<longleftrightarrow>
     m_connection m' = m_connection m \<and> m_onClosed m' = m_onClosed m \<and>
     rq_maxMessageBytes m' = rq_maxMessageBytes m \<and>
     rq_maxQueuedMessages m' = rq_maxQueuedMessages m \<and>
     m_maxPendingRequests m' = m_maxPendingRequests m"

lemma same_link_pending [simp]:
  "same_link m (update_pending f k m)" "same_link m (receive message m)"
  "same_link m (failPendingRequests reason m)" "same_link m (snd (send_resume k a ec m))"
  by (auto simp: same_link_def update_pending_def receive_def failPendingRequests_def
      send_resume_def Let_def split: option.splits)

lemma send_begin_link:
  assumes "send_begin a message xs m = (r, ys, m')"
  shows "same_link m m' \<and> same_conns xs ys"
proof -
  have send: "send k x = x\<lparr>posts := posts x @ [Post_send k]\<rparr>" for k :: ClientMessage
    and x :: client_conn
    by (simp add: send_def)
  have "same_link m m'"
    using assms by (auto simp: send_begin_def same_link_def nextRequestId_def Let_def
        split: option.splits if_splits)
  moreover have "ys = xs \<or> (\<exists>ref ps. ys = xs[ref := (xs ! ref)\<lparr>posts := posts (xs ! ref) @ ps\<rparr>])"
    using assms unfolding send_begin_def send Let_def
    by (auto split: option.splits if_splits prod.splits)
  ultimately show ?thesis
    using same_conns_refl same_conns_post by auto
qed

lemma rq_stop_link:
  "same_link m (snd (rq_stop reason xs m)) \<and> same_conns xs (fst (rq_stop reason xs m))"
  using same_conns_refl same_conns_post
  by (auto simp: rq_stop_def stop_def same_link_def failPendingRequests_def split: option.splits)

lemma log_outcome_link [simp]: "link_inv (log_outcome oc c) = link_inv c"
  using link_inv_same [of c "log_outcome oc c"] link_inv_same [of "log_outcome oc c" c]
  by (auto simp: log_outcome_def same_conns_refl)

lemma request_begin_link:
  assumes inv: "link_inv c" and "request_begin payload c = Some c'"
  shows "link_inv c'"
proof -
  obtain r xs m where sb: "send_begin (cl_allocated c) (request_message payload) (cl_conns c)
      (m_manager c) = (r, xs, m)"
    by (metis prod.exhaust)
  note link = send_begin_link [OF sb]
  have "link_inv (c\<lparr>cl_allocated := n, cl_conns := xs, m_manager := m, cl_senders := ss\<rparr>)" for n ss
    using link by (intro link_inv_same [OF inv]) (simp_all add: same_link_def)
  note this [where n = "Suc (cl_allocated c)"]
  moreover from this [where ss = "cl_senders c"]
  have "link_inv (c\<lparr>cl_allocated := Suc (cl_allocated c), cl_conns := xs, m_manager := m\<rparr>)"
    by simp
  ultimately show ?thesis
    using assms(2) sb
    by (auto simp: request_begin_def Let_def split: sum.splits fault.splits)
qed

lemma request_resume_link:
  assumes inv: "link_inv c"
  shows "link_inv (request_resume i ec c)"
proof -
  obtain r m where sr: "send_resume (snd_requestId (cl_senders c ! i))
      (snd_pendingRaw (cl_senders c ! i)) ec (m_manager c) = (r, m)"
    by fastforce
  then have "same_link (m_manager c) m"
    by (metis same_link_pending(4) snd_conv)
  then have "link_inv (c\<lparr>cl_senders := remove_at i (cl_senders c), m_manager := m\<rparr>)"
    by (intro link_inv_same [OF inv]) (simp_all add: same_link_def same_conns_refl)
  with sr show ?thesis
    by (simp add: request_resume_def Let_def)
qed

lemma connect_begin_link:
  assumes inv: "link_inv c"
  shows "link_inv (connect_begin c)"
proof (cases "m_state c = Disconnected")
  case False
  with inv show ?thesis by (simp add: connect_begin_def)
next
  case True
  then have "m_connection (m_manager c) = None"
    using inv by (simp add: link_inv_def state_inv_def)
  with True inv show ?thesis
    by (simp add: connect_begin_def setState_def link_inv_def state_inv_def waiters_inv_def
        posted_inv_def)
qed

lemma connect_failed_link:
  assumes inv: "link_inv c0" and c: "c = c0\<lparr>cl_connects := cl_connects c0 - 1\<rparr>"
    and "cl_connects c0 = 1" and none: "m_connection (m_manager c0) = None"
  shows "link_inv (connect_failed x c)"
proof -
  let ?c = "setState Disconnected ((closeConnectingSocket c)\<lparr>m_connectingSocket := None\<rparr>)"
  have frame: "m_state ?c = Disconnected" "m_connectingSocket ?c = None" "cl_connects ?c = 0"
    "m_manager ?c = m_manager c0" "cl_conns ?c = cl_conns c0"
    "cl_posted_closes ?c = cl_posted_closes c0"
    using c assms(3)
    by (simp_all add: setState_def closeConnectingSocket_def Let_def split: option.splits)
  have "waiters_inv ?c"
  proof (cases "m_state c0 = Disconnecting")
    case True
    then have "m_disconnectWaiters ?c = map waiter_cancel (m_disconnectWaiters c0)"
      using c by (simp add: setState_def closeConnectingSocket_def Let_def split: option.splits)
    with inv show ?thesis by (auto simp: waiters_inv_def link_inv_def)
  next
    case False
    then have "m_disconnectWaiters ?c = m_disconnectWaiters c0"
      using c by (simp add: setState_def closeConnectingSocket_def Let_def split: option.splits)
    with inv False show ?thesis by (auto simp: waiters_inv_def link_inv_def)
  qed
  then have "link_inv ?c"
    using inv none frame by (simp add: link_inv_def state_inv_def posted_inv_def)
  then show ?thesis by (simp add: connect_failed_def)
qed

lemma client_create_conn:
  "rq_maxMessageBytes m \<noteq> 0 \<Longrightarrow> rq_maxQueuedMessages m \<noteq> 0 \<Longrightarrow> m_connection m = None \<Longrightarrow>
     \<exists>x. rq_start b xs m =
       (Inr (), xs @ [x], m\<lparr>m_connection := Some (length xs), m_onClosed := b\<rparr>) \<and>
       conn_inv x \<and> m_hasOnClosed x \<and> \<not> m_closed x"
  by (auto simp: rq_start_def connection_create_def start_def conn_inv_defs)

text \<open>The limits the manager got from a validated configuration.\<close>

definition limits :: "request_manager \<Rightarrow> u32 \<times> nat \<times> nat" where
  "limits m = (rq_maxMessageBytes m, rq_maxQueuedMessages m, m_maxPendingRequests m)"

definition limits_ok :: "request_manager \<Rightarrow> bool" where
  "limits_ok m \<longleftrightarrow> rq_maxMessageBytes m \<noteq> 0 \<and> rq_maxQueuedMessages m \<noteq> 0 \<and> m_maxPendingRequests m \<noteq> 0"

text \<open>A coroutine of \<open>connect\<close> waits only where its state allows, and \<open>start\<close> then succeeds.\<close>

lemma connecting_state:
  assumes "link_inv c" and "cl_connects c > 0"
  shows "m_connection (m_manager c) = None" and "cl_connects c = 1"
    and "m_state c = Connecting \<or> m_state c = Disconnecting"
  using assms by (auto simp: link_inv_def state_inv_def split: ConnectionState.splits option.splits)

lemma connect_resume_link:
  assumes inv: "link_inv c" and pos: "cl_connects c > 0" and lim: "limits_ok (m_manager c)"
  shows "link_inv (connect_resume ec c)"
proof (cases "m_state c = Disconnecting \<or> ec \<noteq> Ec_success")
  case True
  note connect_failed_link [OF inv refl connecting_state(2,1) [OF inv pos]]
  with True show ?thesis by (auto simp: connect_resume_def Let_def)
next
  case False
  then have st: "m_state c = Connecting" using connecting_state(3) [OF inv pos] by simp
  obtain x where x: "rq_start True (cl_conns c) (m_manager c) = (Inr (), cl_conns c @ [x],
      (m_manager c)\<lparr>m_connection := Some (length (cl_conns c)), m_onClosed := True\<rparr>)"
      "conn_inv x" "m_hasOnClosed x" "\<not> m_closed x"
    using client_create_conn [of "m_manager c" True "cl_conns c"] lim
      connecting_state(1) [OF inv pos] by (auto simp: limits_ok_def)
  let ?c = "setState Connected (c\<lparr>cl_connects := cl_connects c - 1, m_connectingSocket := None,
      cl_conns := cl_conns c @ [x],
      m_manager := (m_manager c)\<lparr>m_connection := Some (length (cl_conns c)), m_onClosed := True\<rparr>\<rparr>)"
  have "connect_resume ec c = log_outcome (Connect_returns (Inr ())) ?c"
    using False x(1) by (simp add: connect_resume_def Let_def)
  moreover have "conns_inv (cl_conns c @ [x]) (Some (length (cl_conns c)))"
    using inv connecting_state(1) [OF inv pos] x(2-4)
    by (auto simp: link_inv_def conns_inv_def nth_append less_Suc_eq)
  then have "link_inv ?c"
    using inv st connecting_state(1,2) [OF inv pos] x(4)
    by (auto simp: link_inv_def state_inv_def waiters_inv_def posted_inv_def setState_def Let_def
        nth_append)
  ultimately show ?thesis by simp
qed

lemma waitForDisconnected_link:
  "link_inv c \<Longrightarrow> m_state c = Disconnecting \<Longrightarrow> link_inv (waitForDisconnected c)"
  by (rule link_inv_waiters [of c])
    (auto simp: waitForDisconnected_def same_conns_refl link_inv_def waiters_inv_def)

lemma disconnect_begin_link:
  assumes inv: "link_inv c"
  shows "link_inv (disconnect_begin c)"
proof (cases "m_state c")
  case Disconnected
  with inv show ?thesis by (simp add: disconnect_begin_def)
next
  case Disconnecting
  with inv show ?thesis by (simp add: disconnect_begin_def waitForDisconnected_link)
next
  case Connecting
  let ?c = "closeConnectingSocket (setState Disconnecting c)"
  have "m_connection (m_manager c) = None"
    using inv Connecting by (simp add: link_inv_def state_inv_def)
  then have "link_inv ?c"
    using inv Connecting
    by (simp add: closeConnectingSocket_def setState_def link_inv_def state_inv_def
        waiters_inv_def posted_inv_def)
  moreover have "m_state ?c = Disconnecting"
    using Connecting by (simp add: closeConnectingSocket_def setState_def split: option.splits)
  ultimately show ?thesis
    using Connecting by (simp add: disconnect_begin_def waitForDisconnected_link)
next
  case Connected
  then obtain ref where ref: "m_connection (m_manager c) = Some ref"
    using inv by (auto simp: link_inv_def state_inv_def)
  let ?xs = "(cl_conns c)[ref := stop (cl_conns c ! ref)]"
  let ?m = "failPendingRequests ''client disconnected'' (m_manager c)"
  let ?c = "c\<lparr>m_state := Disconnecting, cl_conns := ?xs, m_manager := ?m\<rparr>"
  have r: "ref < length (cl_conns c)" using link_invD(4) [OF inv ref] .
  have conns: "same_conns (cl_conns c) ?xs" by (simp add: stop_def same_conns_post)
  have m: "m_connection ?m = Some ref" "m_onClosed ?m = m_onClosed (m_manager c)"
    using ref by (simp_all add: failPendingRequests_def)
  have "stopping (?xs ! ref)" using r by (simp add: stopping_def stop_def)
  then have "link_inv ?c"
    using inv Connected m ref same_conns_inv [OF conns] same_conns_closed(1) [OF conns r]
    by (simp add: link_inv_def state_inv_def waiters_inv_def posted_inv_def)
  then have "link_inv (waitForDisconnected ?c)"
    by (intro waitForDisconnected_link) simp_all
  then show ?thesis
    using Connected ref by (simp add: disconnect_begin_def rq_stop_def setState_def)
qed

lemma disconnect_resume_link:
  assumes "link_inv c"
  shows "link_inv (disconnect_resume i ec c)"
proof -
  have "link_inv (c\<lparr>m_disconnectWaiters := remove_at i (m_disconnectWaiters c)\<rparr>)"
    using assms set_remove_at [of i "m_disconnectWaiters c"]
    by (intro link_inv_waiters [OF assms])
      (auto simp: same_conns_refl link_inv_def waiters_inv_def)
  then show ?thesis by (simp add: disconnect_resume_def Let_def)
qed

lemma waiters_cancelled:
  "waiters_inv c \<Longrightarrow> w \<in> set (m_disconnectWaiters c) \<Longrightarrow>
     waiter_cancel w = Waiter_done Ec_operation_aborted"
  by (auto simp: waiters_inv_def)

text \<open>The posted \<open>connectionClosed\<close>: the current connection is closed, and let go.\<close>

lemma posted_close_state:
  assumes "link_inv c" and "cl_posted_closes c > 0"
  obtains r where "m_connection (m_manager c) = Some r" and "m_closed (cl_conns c ! r)"
    and "cl_posted_closes c = 1" and "m_onClosed (m_manager c)"
    and "m_state c = Connected \<or> m_state c = Disconnecting"
    and "cl_connects c = 0" and "m_connectingSocket c = None"
  using assms
  by (auto simp: link_inv_def posted_inv_def state_inv_def
      split: option.splits if_splits ConnectionState.splits)

lemma client_connectionClosed_link:
  assumes inv: "link_inv c" and pos: "cl_posted_closes c > 0"
  shows "link_inv (client_connectionClosed c)"
    and "m_state (client_connectionClosed c) = Disconnected"
proof -
  obtain r where r: "m_connection (m_manager c) = Some r" "m_closed (cl_conns c ! r)"
    "cl_posted_closes c = 1" "m_onClosed (m_manager c)"
    "m_state c = Connected \<or> m_state c = Disconnecting"
    "cl_connects c = 0" "m_connectingSocket c = None"
    using posted_close_state [OF assms] .
  let ?m = "snd (rq_connectionClosed (m_manager c))"
  have m: "fst (rq_connectionClosed (m_manager c))" "m_connection ?m = None" "\<not> m_onClosed ?m"
    using r(4) by (simp_all add: rq_connectionClosed_def failPendingRequests_def Let_def)
  have closed: "client_connectionClosed c =
      setState Disconnected (c\<lparr>cl_posted_closes := 0, m_manager := ?m\<rparr>)"
    using m(1) r(3,5)
    by (simp add: client_connectionClosed_def cm_connectionClosed_def case_prod_unfold Let_def)
  have "conns_inv (cl_conns c) None"
    using inv r(1,2) by (auto simp: link_inv_def conns_inv_def)
  moreover have "waiters_inv (setState Disconnected (c\<lparr>cl_posted_closes := 0, m_manager := ?m\<rparr>))"
    using inv waiters_cancelled [of c]
    by (auto simp: link_inv_def waiters_inv_def setState_def Let_def split: if_splits)
  ultimately show "link_inv (client_connectionClosed c)"
    unfolding closed using m(2,3) r(6,7)
    by (simp add: link_inv_def state_inv_def posted_inv_def setState_def Let_def)
  show "m_state (client_connectionClosed c) = Disconnected"
    unfolding closed by (simp add: setState_def Let_def)
qed

lemma client_receive_link:
  assumes inv: "link_inv c" and r: "ref < length (cl_conns c)"
    and i: "i < length (read_loops (cl_conns c ! ref))"
  shows "link_inv (client_receive ref i message c)"
proof -
  let ?m = "receive message (m_manager c)"
  have "same_link (m_manager c) ?m" by simp
  then have "link_inv (c\<lparr>m_manager := ?m\<rparr>)"
    by (intro link_inv_same [OF inv]) (simp_all add: same_link_def same_conns_refl)
  from client_settle_link [OF this, of ref "readLoop_handler i (Inr ()) (cl_conns c ! ref)"]
  show ?thesis
    using r later_readLoop_handler [OF link_invD(1) [OF inv r] i]
      readLoop_handler_stopping [of "cl_conns c ! ref" i "Inr ()"]
    by (simp add: client_receive_def)
qed

lemma client_exec_link:
  assumes inv: "link_inv c" and lim: "limits_ok (m_manager c)" and "client_exec e c = Some c'"
  shows "link_inv c'"
proof (cases e)
  case (Wait_over k ec)
  have "same_link (m_manager c) (update_pending (expire_pending ec) k (m_manager c))" by simp
  then have "link_inv (c\<lparr>m_manager := update_pending (expire_pending ec) k (m_manager c)\<rparr>)"
    by (intro link_inv_same [OF inv]) (simp_all add: same_link_def same_conns_refl)
  with Wait_over assms(3) show ?thesis
    by (auto split: if_splits option.splits)
next
  case (Conn_event ref ev)
  then obtain x where x: "ref < length (cl_conns c)" "conn_step (cl_conns c ! ref) ev x"
    "c' = client_settle ref x c"
    using assms(3) by (auto simp: conn_step_iff_exec split: if_splits)
  with client_settle_link [OF inv x(1)] later_step [OF x(2) link_invD(1) [OF inv x(1)]]
    conn_step_stopping [OF x(2)] show ?thesis by simp
next
  case (Received ref i)
  with assms(3) client_receive_link [OF inv] show ?thesis
    by (auto split: if_splits read_loop.splits)
qed (use assms in \<open>auto split: if_splits option.splits waiter.splits timer.splits
      intro: connect_begin_link connect_resume_link disconnect_begin_link disconnect_resume_link
        request_begin_link request_resume_link client_connectionClosed_link(1)\<close>)

text \<open>The limits never change.\<close>

lemma same_link_limits: "same_link m m' \<Longrightarrow> limits m' = limits m"
  by (simp add: same_link_def limits_def)

lemma client_settle_manager [simp]:
  "m_manager (client_settle r x c) = m_manager c" "m_state (client_settle r x c) = m_state c"
  "cl_conns (client_settle r x c) = (cl_conns c)[r := x]"
  "cl_senders (client_settle r x c) = cl_senders c"
  "cl_outcomes (client_settle r x c) = cl_outcomes c"
  "cl_allocated (client_settle r x c) = cl_allocated c"
  by (simp_all add: client_settle_def Let_def)

lemma setState_manager [simp]:
  "m_manager (setState st c) = m_manager c" "m_state (setState st c) = st"
  "cl_conns (setState st c) = cl_conns c" "cl_senders (setState st c) = cl_senders c"
  "cl_outcomes (setState st c) = cl_outcomes c" "cl_allocated (setState st c) = cl_allocated c"
  by (simp_all add: setState_def Let_def)

lemma closeConnectingSocket_manager [simp]:
  "m_manager (closeConnectingSocket c) = m_manager c" "m_state (closeConnectingSocket c) = m_state c"
  "cl_conns (closeConnectingSocket c) = cl_conns c"
  "cl_senders (closeConnectingSocket c) = cl_senders c"
  "cl_outcomes (closeConnectingSocket c) = cl_outcomes c"
  "cl_allocated (closeConnectingSocket c) = cl_allocated c"
  by (simp_all add: closeConnectingSocket_def split: option.splits)

lemma log_outcome_manager [simp]:
  "m_manager (log_outcome oc c) = m_manager c" "m_state (log_outcome oc c) = m_state c"
  "cl_conns (log_outcome oc c) = cl_conns c" "cl_senders (log_outcome oc c) = cl_senders c"
  "cl_outcomes (log_outcome oc c) = cl_outcomes c @ [oc]"
  "cl_allocated (log_outcome oc c) = cl_allocated c"
  by (simp_all add: log_outcome_def)

lemma waitForDisconnected_manager [simp]:
  "m_manager (waitForDisconnected c) = m_manager c" "m_state (waitForDisconnected c) = m_state c"
  "cl_conns (waitForDisconnected c) = cl_conns c" "cl_senders (waitForDisconnected c) = cl_senders c"
  "cl_outcomes (waitForDisconnected c) = cl_outcomes c"
  "cl_allocated (waitForDisconnected c) = cl_allocated c"
  by (simp_all add: waitForDisconnected_def)

lemma rq_start_limits: "limits (snd (snd (rq_start b xs m))) = limits m"
  by (simp add: rq_start_def limits_def split: sum.splits)

lemma rq_connectionClosed_limits: "limits (snd (rq_connectionClosed m)) = limits m"
  by (simp add: rq_connectionClosed_def limits_def failPendingRequests_def Let_def)

lemma client_exec_limits:
  assumes "client_exec e c = Some c'"
  shows "limits (m_manager c') = limits (m_manager c)"
proof (cases e)
  case (Connect_done ec)
  with assms rq_start_limits [of True "cl_conns c" "m_manager c"] show ?thesis
    by (auto simp: connect_resume_def connect_failed_def Let_def split: if_splits prod.splits sum.splits)
next
  case Call_disconnect
  with assms same_link_limits [OF conjunct1 [OF rq_stop_link
      [of "m_manager c" "''client disconnected''" "cl_conns c"]]] show ?thesis
    by (auto simp: disconnect_begin_def case_prod_unfold Let_def split: ConnectionState.splits)
next
  case (Call_request payload)
  obtain r xs m where sb: "send_begin (cl_allocated c) (request_message payload) (cl_conns c)
      (m_manager c) = (r, xs, m)"
    by (metis prod.exhaust)
  with assms Call_request same_link_limits [OF conjunct1 [OF send_begin_link [OF sb]]] show ?thesis
    by (auto simp: request_begin_def Let_def split: sum.splits fault.splits)
next
  case (Sender_resumed i)
  obtain ec where "c' = request_resume i ec c"
    using assms Sender_resumed by (metis sender_resumedD)
  with same_link_limits [OF same_link_pending(4)] show ?thesis
    by (simp add: request_resume_def case_prod_unfold Let_def)
next
  case Posted_close
  with assms rq_connectionClosed_limits [of "m_manager c"] show ?thesis
    by (auto simp: client_connectionClosed_def cm_connectionClosed_def case_prod_unfold Let_def
        split: if_splits)
next
  case (Wait_over k ec)
  with assms same_link_limits [OF same_link_pending(1)] show ?thesis
    by (auto split: if_splits option.splits)
next
  case (Received ref i)
  with assms same_link_limits [OF same_link_pending(2)] show ?thesis
    by (auto simp: client_receive_def split: if_splits read_loop.splits)
qed (use assms in \<open>auto simp: connect_begin_def disconnect_resume_def Let_def
      split: if_splits waiter.splits\<close>)

lemma client_run_limits:
  "client_run cfg es c \<Longrightarrow> limits (m_manager c) =
     (cfg_maxMessageBytes cfg, cfg_maxQueuedMessages cfg, cfg_maxPendingRequests cfg)"
proof (induction rule: client_run.induct)
  case (client_start c)
  then show ?case
    by (auto simp: client_create_def limits_def ClientRequestManager_def split: sum.splits)
qed (simp add: client_exec_limits)

lemma client_run_link: "client_run cfg es c \<Longrightarrow> link_inv c \<and> limits_ok (m_manager c)"
proof (induction rule: client_run.induct)
  case (client_start c)
  then have "limits_ok (m_manager c)"
    by (auto simp: client_create_def validate_def limits_ok_def ClientRequestManager_def
        split: if_splits)
  with client_start show ?case
    by (auto simp: client_create_def ClientRequestManager_def link_inv_defs split: sum.splits)
next
  case (client_next es c e c')
  then have "limits_ok (m_manager c')"
    using client_exec_limits [OF client_next(2)] by (auto simp: limits_def limits_ok_def)
  with client_next show ?case using client_exec_link by blast
qed

section \<open>Outcomes of connect and disconnect\<close>

text \<open>
  \<open>ConnectionManager::connect\<close> never meets an active connection, and no wait of \<open>disconnect\<close>
  fails.
\<close>

definition expected_outcome :: "outcome \<Rightarrow> bool" where
  "expected_outcome oc \<longleftrightarrow>
     oc \<noteq> Connect_returns (Inl (Logic_error ''Client connection is already active'')) \<and>
     (\<forall>x. oc \<noteq> Disconnect_returns (Inl x))"

lemma expected_request [simp]: "expected_outcome (request_outcome p k r)"
  by (simp add: expected_outcome_def request_outcome_def split: client_payload.splits)

lemma request_begin_outcomes:
  assumes "request_begin payload c = Some c'"
  obtains "cl_outcomes c' = cl_outcomes c"
  | x where "cl_outcomes c' = cl_outcomes c @ [request_outcome payload None (Inl x)]"
  using assms
  by (auto simp: request_begin_def Let_def split: prod.splits sum.splits fault.splits)

lemma connect_resume_log:
  "\<exists>r. cl_outcomes (connect_resume ec c) = cl_outcomes c @ [Connect_returns r]"
  by (auto simp: connect_resume_def connect_failed_def Let_def split: prod.splits sum.splits)

text \<open>What an event adds to the outcomes: at most one, of the call it belongs to.\<close>

fun logged_by :: "client_event \<Rightarrow> outcome \<Rightarrow> bool" where
  "logged_by Call_connect oc \<longleftrightarrow> (\<exists>r. oc = Connect_returns r)"
| "logged_by (Connect_done ec) oc \<longleftrightarrow> (\<exists>r. oc = Connect_returns r)"
| "logged_by Call_disconnect oc \<longleftrightarrow> (\<exists>r. oc = Disconnect_returns r)"
| "logged_by (Waiter_resumed i) oc \<longleftrightarrow> (\<exists>r. oc = Disconnect_returns r)"
| "logged_by (Call_request payload) oc \<longleftrightarrow> (\<exists>x. oc = request_outcome payload None (Inl x))"
| "logged_by (Sender_resumed i) oc \<longleftrightarrow> (\<exists>payload k r. oc = request_outcome payload (Some k) r)"
| "logged_by e oc \<longleftrightarrow> False"

lemma client_exec_logs:
  assumes "client_exec e c = Some c'"
  shows "\<exists>ocs. cl_outcomes c' = cl_outcomes c @ ocs \<and> list_all (logged_by e) ocs"
proof (cases e)
  case Call_connect
  with assms show ?thesis by (auto simp: connect_begin_def)
next
  case (Connect_done ec)
  with assms connect_resume_log [of ec c] show ?thesis by (auto split: if_splits)
next
  case Call_disconnect
  with assms show ?thesis
    by (cases "m_state c") (auto simp: disconnect_begin_def case_prod_unfold Let_def)
next
  case (Waiter_resumed i)
  with assms show ?thesis
    by (auto simp: disconnect_resume_def Let_def split: if_splits waiter.splits)
next
  case (Call_request payload)
  with assms have "request_begin payload c = Some c'" by simp
  then show ?thesis by (cases rule: request_begin_outcomes) (use Call_request in auto)
next
  case (Sender_resumed i)
  then obtain ec where "c' = request_resume i ec c"
    using assms by (metis sender_resumedD)
  then have "\<exists>payload k r. cl_outcomes c' = cl_outcomes c @ [request_outcome payload (Some k) r]"
    by (auto simp: request_resume_def case_prod_unfold Let_def)
  with Sender_resumed show ?thesis by fastforce
next
  case Posted_close
  with assms show ?thesis
    by (auto simp: client_connectionClosed_def cm_connectionClosed_def case_prod_unfold Let_def
        split: if_splits)
next
  case (Received ref i)
  with assms show ?thesis by (auto simp: client_receive_def split: if_splits read_loop.splits)
qed (use assms in \<open>auto split: if_splits option.splits\<close>)

text \<open>A call that got no identifier fails.\<close>

lemma unnamed_fails:
  "client_run cfg es c \<Longrightarrow> Ping_returns request None (Inr pong) \<notin> set (cl_outcomes c) \<and>
     Snapshot_returns None (Inr snapshot) \<notin> set (cl_outcomes c)"
proof (induction rule: client_run.induct)
  case (client_start c)
  then show ?case by (auto simp: client_create_def split: sum.splits)
next
  case (client_next es c e c')
  have "\<not> logged_by e (Ping_returns request None (Inr pong))"
    "\<not> logged_by e (Snapshot_returns None (Inr snapshot))"
    by (cases e; auto simp: request_outcome_def ping_result_def snapshot_result_def
        split: client_payload.splits)+
  with client_next.IH client_exec_logs [OF client_next(2)] show ?case
    by (auto simp: list_all_iff)
qed

lemma connect_resume_outcomes:
  assumes inv: "link_inv c" and pos: "cl_connects c > 0" and lim: "limits_ok (m_manager c)"
  shows "\<exists>oc. cl_outcomes (connect_resume ec c) = cl_outcomes c @ [oc] \<and> expected_outcome oc"
  using client_create_conn [of "m_manager c" True "cl_conns c"] lim connecting_state(1) [OF inv pos]
  by (auto simp: connect_resume_def connect_failed_def limits_ok_def expected_outcome_def Let_def)

lemma client_exec_outcomes:
  assumes inv: "link_inv c" and lim: "limits_ok (m_manager c)" and "client_exec e c = Some c'"
  shows "\<exists>ocs. cl_outcomes c' = cl_outcomes c @ ocs \<and> list_all expected_outcome ocs"
proof (cases e)
  case (Connect_done ec)
  with assms(3) connect_resume_outcomes [OF inv _ lim, of ec] show ?thesis
    by (fastforce split: if_splits)
next
  case (Call_request payload)
  with assms(3) show ?thesis
    using request_begin_outcomes [of payload c c'] by fastforce
next
  case (Sender_resumed i)
  then obtain ec where "c' = request_resume i ec c"
    using assms(3) by (metis sender_resumedD)
  then show ?thesis
    by (simp add: request_resume_def case_prod_unfold Let_def)
next
  case (Waiter_resumed i)
  then obtain ec where w: "Waiter_done ec \<in> set (m_disconnectWaiters c)"
    "c' = disconnect_resume i ec c"
    using assms(3) by (metis waiter_resumedD)
  then have "ec = Ec_operation_aborted" using inv by (auto simp: link_inv_def waiters_inv_def)
  with w(2) show ?thesis by (simp add: disconnect_resume_def expected_outcome_def Let_def)
next
  case Call_connect
  with assms(3) show ?thesis by (auto simp: connect_begin_def expected_outcome_def)
next
  case Call_disconnect
  with assms(3) show ?thesis
    by (auto simp: disconnect_begin_def expected_outcome_def case_prod_unfold Let_def
        split: ConnectionState.splits)
next
  case Posted_close
  with assms(3) show ?thesis
    by (auto simp: client_connectionClosed_def cm_connectionClosed_def case_prod_unfold Let_def
        split: if_splits)
next
  case (Received ref i)
  with assms(3) show ?thesis by (auto simp: client_receive_def split: if_splits read_loop.splits)
qed (use assms(3) in \<open>auto split: if_splits option.splits\<close>)

lemma client_run_outcomes: "client_run cfg es c \<Longrightarrow> list_all expected_outcome (cl_outcomes c)"
proof (induction rule: client_run.induct)
  case (client_start c)
  then show ?case by (auto simp: client_create_def split: sum.splits)
next
  case (client_next es c e c')
  with client_exec_outcomes [of c e c'] client_run_link [of cfg es c] show ?case by fastforce
qed

section \<open>Runs of the client\<close>

abbreviation client_execs :: "client_event list \<Rightarrow> client \<Rightarrow> client option" where
  "client_execs \<equiv> runs client_exec"

interpretation client_trace: traced_machine client_exec "client_run cfg" for cfg
  by unfold_locales (rule client_next)

lemmas client_execs_run = client_trace.runs_reached

text \<open>Events that need no caller: the network, the timers and the scheduler.\<close>

fun internal_event :: "client_event \<Rightarrow> bool" where
  "internal_event Call_connect = False"
| "internal_event Call_disconnect = False"
| "internal_event (Call_request payload) = False"
| "internal_event e = True"

lemma conn_execs_client:
  "conn_execs es (cl_conns c ! r) = Some x \<Longrightarrow> list_all conn_internal es \<Longrightarrow> r < length (cl_conns c) \<Longrightarrow>
     \<exists>c'. client_execs (map (Conn_event r) es) c = Some c' \<and>
        cl_conns c' ! r = x \<and> m_manager c' = m_manager c \<and> m_state c' = m_state c"
proof (induction es arbitrary: c)
  case (Cons e es)
  then obtain y where y: "conn_exec e (cl_conns c ! r) = Some y" "conn_execs es y = Some x"
    by (auto split: Option.bind_splits)
  with Cons.prems Cons.IH [of "client_settle r y c"] show ?case by simp
qed simp

text \<open>While disconnecting, a bounded number of internal steps leads to \<open>Disconnected\<close>.\<close>

lemma disconnecting_ends:
  assumes run: "client_run cfg es c" and st: "m_state c = Disconnecting"
  shows "\<exists>fs c'. client_execs fs c = Some c' \<and> m_state c' = Disconnected \<and>
     list_all internal_event fs \<and>
     length fs \<le> Suc (case m_connection (m_manager c) of
                        None \<Rightarrow> 0 | Some r \<Rightarrow> length (posts (cl_conns c ! r)))"
proof (cases "m_connection (m_manager c)")
  case None
  then have "cl_connects c > 0"
    using client_run_link [OF run] st by (simp add: link_inv_def state_inv_def)
  with st have "client_execs [Connect_done Ec_success] c = Some (connect_resume Ec_success c) \<and>
      m_state (connect_resume Ec_success c) = Disconnected"
    by (simp add: connect_resume_def connect_failed_def Let_def)
  with None show ?thesis
    by (intro exI [of _ "[Connect_done Ec_success]"]) auto
next
  case (Some r)
  have inv: "link_inv c" using client_run_link [OF run] by simp
  have r: "r < length (cl_conns c)" using link_invD(4) [OF inv Some] .
  have "stopping (cl_conns c ! r)"
    using inv st Some by (simp add: link_inv_def state_inv_def)
  then obtain n x where n: "n \<le> length (posts (cl_conns c ! r))"
    "conn_execs (replicate n Run_post) (cl_conns c ! r) = Some x" "m_closed x"
    using stopping_closes by blast
  let ?fs = "map (Conn_event r) (replicate n Run_post)"
  obtain c1 where c1: "client_execs ?fs c = Some c1" "cl_conns c1 ! r = x"
    "m_manager c1 = m_manager c" "m_state c1 = m_state c"
    using conn_execs_client [OF n(2) _ r] by (auto simp: list_all_iff)
  have inv1: "link_inv c1"
    using client_run_link [OF client_execs_run [OF run c1(1)]] by simp
  then have pos: "cl_posted_closes c1 > 0"
    using Some c1 n(3) by (simp add: link_inv_def posted_inv_def)
  then have "client_execs (?fs @ [Posted_close]) c = Some (client_connectionClosed c1)"
    using c1(1) by (simp add: runs_append)
  with client_connectionClosed_link(2) [OF inv1 pos] n(1) Some show ?thesis
    by (intro exI [of _ "?fs @ [Posted_close]"] exI [of _ "client_connectionClosed c1"])
      (auto simp: list_all_iff)
qed

text \<open>The state changes along these edges only.\<close>

lemma client_exec_state:
  assumes inv: "link_inv c" and "client_exec e c = Some c'" and "m_state c' \<noteq> m_state c"
  shows "(m_state c, m_state c') \<in>
     {(Disconnected, Connecting), (Connecting, Connected), (Connecting, Disconnected),
      (Connecting, Disconnecting), (Connected, Disconnecting), (Connected, Disconnected),
      (Disconnecting, Disconnected)}"
proof (cases e)
  case (Connect_done ec)
  with assms(2) have pos: "cl_connects c > 0" "c' = connect_resume ec c"
    by (auto split: if_splits)
  with connecting_state(3) [OF inv pos(1)] assms(3) show ?thesis
    by (auto simp: connect_resume_def connect_failed_def Let_def
        split: if_splits prod.splits sum.splits)
next
  case (Call_request payload)
  with assms(2,3) show ?thesis
    by (auto simp: request_begin_def Let_def split: prod.splits sum.splits fault.splits)
next
  case (Sender_resumed i)
  then obtain ec where "c' = request_resume i ec c"
    using assms(2) by (metis sender_resumedD)
  with assms(3) show ?thesis by (simp add: request_resume_def case_prod_unfold Let_def)
next
  case Posted_close
  with assms(2) have pos: "cl_posted_closes c > 0" "c' = client_connectionClosed c"
    by (auto split: if_splits)
  with client_connectionClosed_link(2) [OF inv pos(1)] posted_close_state [OF inv pos(1)] assms(3)
  show ?thesis by auto
next
  case (Received ref i)
  with assms(2,3) show ?thesis
    by (auto simp: client_receive_def split: if_splits read_loop.splits)
next
  case Call_connect
  with assms(2,3) show ?thesis by (auto simp: connect_begin_def split: if_splits)
next
  case Call_disconnect
  with assms(2,3) show ?thesis
    by (cases "m_state c") (auto simp: disconnect_begin_def case_prod_unfold Let_def)
next
  case (Waiter_resumed i)
  then obtain ec where "c' = disconnect_resume i ec c"
    using assms(2) by (metis waiter_resumedD)
  with assms(3) show ?thesis by (auto simp: disconnect_resume_def Let_def split: if_splits)
next
  case (Wait_over k ec)
  with assms(2,3) show ?thesis by (auto split: if_splits option.splits)
next
  case (Conn_event ref ev)
  with assms(2,3) show ?thesis by (auto split: if_splits)
qed

section \<open>Properties\<close>

text \<open>A client that connects, pings, gets its pong and starts to disconnect.\<close>

definition sample_client :: client where
  "sample_client = projr (client_create default_client_config)"

definition sample_pong :: ServerMessage where
  "sample_pong = new_ServerMessage
     \<lparr>server_request_id := 1, server_status := STATUS_OK,
      server_payload := Some (Pong \<lparr>pong_timestamp = 42\<rparr>)\<rparr>"

definition sample_client_events :: "client_event list" where
  "sample_client_events =
     [Call_connect, Connect_done Ec_success, Conn_event 0 Run_post, Conn_event 0 (Run_reader 0),
      Call_request (Ping \<lparr>ping_timestamp = 42\<rparr>), Conn_event 0 Run_post,
      Conn_event 0 (Message_read 0 (Inr sample_pong)), Received 0 0, Sender_resumed 0,
      Call_request StateSnapshot, Call_disconnect]"

definition sample_disconnecting :: client where
  "sample_disconnecting = the (client_execs sample_client_events sample_client)"

lemma sample_client_run: "client_run default_client_config sample_client_events sample_disconnecting"
proof -
  have "client_create default_client_config = Inr sample_client"
    by (simp add: sample_client_def client_create_def validate_def default_client_config_def)
  then have "client_run default_client_config [] sample_client" by (rule client_start)
  moreover have "client_execs sample_client_events sample_client \<noteq> None" by code_simp
  ultimately show ?thesis
    using client_execs_run [of default_client_config "[]" sample_client sample_client_events]
    by (auto simp: sample_disconnecting_def)
qed

lemma sample_disconnecting_state: "m_state sample_disconnecting = Disconnecting"
  by code_simp

text \<open>
  C23: what the connection state says. In every state of every run there is a connection
  object behind \<open>Connected\<close> and none behind \<open>Disconnected\<close> and \<open>Connecting\<close>; at most one
  coroutine is connecting, only in the states \<open>Connecting\<close> and \<open>Disconnecting\<close>; at most one
  connection is open, the current one. Hence \<open>connect\<close> never finds a connection active after
  the socket is connected, and no call of \<open>disconnect\<close> fails.
\<close>

theorem connection_state_meaning:
  assumes "client_run cfg es c"
  shows "(m_state c = Connected \<longrightarrow> m_connection (m_manager c) \<noteq> None) \<and>
     (m_state c = Disconnected \<or> m_state c = Connecting \<longrightarrow> m_connection (m_manager c) = None) \<and>
     cl_connects c \<le> 1 \<and>
     (cl_connects c = 1 \<longrightarrow> m_state c = Connecting \<or> m_state c = Disconnecting) \<and>
     (\<forall>r < length (cl_conns c). \<not> m_closed (cl_conns c ! r) \<longrightarrow> m_connection (m_manager c) = Some r) \<and>
     Connect_returns (Inl (Logic_error ''Client connection is already active''))
       \<notin> set (cl_outcomes c) \<and>
     (\<forall>x. Disconnect_returns (Inl x) \<notin> set (cl_outcomes c))"
proof -
  have inv: "link_inv c" using client_run_link [OF assms] by simp
  then have "cl_connects c \<le> 1"
    by (auto simp: link_inv_def state_inv_def split: ConnectionState.splits option.splits)
  moreover have "m_state c = Connected \<longrightarrow> m_connection (m_manager c) \<noteq> None"
    "m_state c = Disconnected \<or> m_state c = Connecting \<longrightarrow> m_connection (m_manager c) = None"
    using inv by (auto simp: link_inv_def state_inv_def)
  ultimately show ?thesis
    using inv connecting_state(3) [OF inv] client_run_outcomes [OF assms] link_invD(3) [OF inv]
    by (auto simp: list_all_iff expected_outcome_def)
qed

theorem connection_state_meaning_witness:
  "m_state sample_disconnecting = Disconnecting \<and> cl_connects sample_disconnecting \<le> 1 \<and>
   length (cl_outcomes sample_disconnecting) = 2 \<and>
   (\<forall>x. Disconnect_returns (Inl x) \<notin> set (cl_outcomes sample_disconnecting))"
proof -
  have "length (cl_outcomes sample_disconnecting) = 2" by code_simp
  then show ?thesis
    using connection_state_meaning [OF sample_client_run] sample_disconnecting_state by simp
qed

text \<open>
  C26: the connection state changes along the edges of its diagram only: a connected client
  becomes disconnected or starts to disconnect, a connecting one becomes connected or
  disconnected or has its attempt cancelled, and nothing leaves \<open>Disconnecting\<close> but to
  \<open>Disconnected\<close>.
\<close>

theorem connection_state_changes:
  assumes "client_run cfg es c" and "client_exec e c = Some c'" and "m_state c' \<noteq> m_state c"
  shows "(m_state c, m_state c') \<in>
     {(Disconnected, Connecting), (Connecting, Connected), (Connecting, Disconnected),
      (Connecting, Disconnecting), (Connected, Disconnecting), (Connected, Disconnected),
      (Disconnecting, Disconnected)}"
  using client_run_link [OF assms(1)] assms(2,3) by (intro client_exec_state) auto

theorem connection_state_changes_witness:
  "\<exists>c'. client_exec Call_connect sample_client = Some c' \<and>
     m_state sample_client = Disconnected \<and> m_state c' = Connecting"
proof -
  have 1: "m_state (connect_begin sample_client) \<noteq> m_state sample_client" by code_simp
  have "client_create default_client_config = Inr sample_client"
    by (simp add: sample_client_def client_create_def validate_def default_client_config_def)
  then have "client_run default_client_config [] sample_client" by (rule client_start)
  from connection_state_changes [OF this _ 1, of Call_connect]
  have "(m_state sample_client, m_state (connect_begin sample_client)) \<in>
     {(Disconnected, Connecting), (Connecting, Connected), (Connecting, Disconnected),
      (Connecting, Disconnecting), (Connected, Disconnecting), (Connected, Disconnected),
      (Disconnecting, Disconnected)}"
    by simp
  moreover have "m_state sample_client = Disconnected" by code_simp
  ultimately show ?thesis by simp
qed

text \<open>
  C22: \<open>disconnect\<close> comes to its end. Whenever a client is disconnecting, the events the
  network and the scheduler supply by themselves, at most one more than there are handlers
  posted to the connection, bring it to \<open>Disconnected\<close>, where every coroutine that waits in
  \<open>disconnect\<close> has been released and returns normally.
\<close>

theorem disconnect_completes:
  assumes "client_run cfg es c" and "m_state c = Disconnecting"
  shows "\<exists>fs c'. client_execs fs c = Some c' \<and> list_all internal_event fs \<and>
     length fs \<le> Suc (case m_connection (m_manager c) of
                        None \<Rightarrow> 0 | Some r \<Rightarrow> length (posts (cl_conns c ! r))) \<and>
     m_state c' = Disconnected \<and>
     (\<forall>i < length (m_disconnectWaiters c'). \<exists>c''. client_exec (Waiter_resumed i) c' = Some c'' \<and>
        cl_outcomes c'' = cl_outcomes c' @ [Disconnect_returns (Inr ())])"
proof -
  obtain fs c' where fs: "client_execs fs c = Some c'" "m_state c' = Disconnected"
    "list_all internal_event fs"
    "length fs \<le> Suc (case m_connection (m_manager c) of
       None \<Rightarrow> 0 | Some r \<Rightarrow> length (posts (cl_conns c ! r)))"
    using disconnecting_ends [OF assms] by blast
  have "link_inv c'" using client_run_link [OF client_execs_run [OF assms(1) fs(1)]] by simp
  then have "m_disconnectWaiters c' ! i = Waiter_done Ec_operation_aborted"
    if "i < length (m_disconnectWaiters c')" for i
    using that fs(2) nth_mem [OF that] by (auto simp: link_inv_def waiters_inv_def)
  then have "\<forall>i < length (m_disconnectWaiters c'). \<exists>c''. client_exec (Waiter_resumed i) c' = Some c'' \<and>
      cl_outcomes c'' = cl_outcomes c' @ [Disconnect_returns (Inr ())]"
    by (simp add: disconnect_resume_def Let_def)
  with fs show ?thesis by blast
qed

theorem disconnect_completes_witness:
  "\<exists>fs c'. client_execs fs sample_disconnecting = Some c' \<and> list_all internal_event fs \<and>
     m_state c' = Disconnected"
  using disconnect_completes [OF sample_client_run sample_disconnecting_state] by blast

end
