(* ===== verification/Client_Requests.thy ===== *)
theory Client_Requests
  imports Client "HOL-Library.Multiset"
begin

text \<open>
  What the requests of a client get: the table of \<open>ClientRequestManager\<close> and the suspended calls
  of \<open>sendRequest\<close> stay in step, every call ends at most once, and with the answer to its own
  request, for any interleaving of calls, timers, network events and disconnects. Request
  identifiers are 64 bits wide; the statements are for runs of fewer than \<open>2 ^ 64\<close> events, so
  that no identifier is given twice.
\<close>

section \<open>The table and the suspended calls\<close>

definition places :: "request_manager \<Rightarrow> (u64 \<times> nat) list" where
  "places m = map (\<lambda>(k, p). (k, pr_address p)) (m_pendingRequests m)"

definition waiting_places :: "client \<Rightarrow> (u64 \<times> nat) list" where
  "waiting_places c = map (\<lambda>s. (snd_requestId s, snd_pendingRaw s)) (cl_senders c)"

definition table_inv :: "client \<Rightarrow> bool" where
  "table_inv c \<longleftrightarrow>
     rq_inv (m_manager c) \<and> waiting_places c = places (m_manager c) \<and>
     distinct (map snd (places (m_manager c))) \<and>
     (\<forall>a \<in> set (map snd (places (m_manager c))). a < cl_allocated c) \<and>
     unat (m_nextRequestId (m_manager c)) \<le> cl_allocated c"

lemma fst_places: "map fst (places m) = map fst (m_pendingRequests m)"
  by (simp add: places_def case_prod_unfold comp_def)

lemma places_map_pending:
  assumes "\<And>k p. pr_address (f k p) = pr_address p"
  shows "places (map_pending f m) = places m"
  using assms by (simp add: places_def map_pending_def case_prod_unfold comp_def)

lemma map_pending_next [simp]: "m_nextRequestId (map_pending f m) = m_nextRequestId m"
  by (simp add: map_pending_def)

lemma table_inv_map:
  assumes "pending_operation f" and "table_inv c" and "m_manager c' = map_pending f (m_manager c)"
    and "cl_senders c' = cl_senders c" and "cl_allocated c' = cl_allocated c"
  shows "table_inv c'"
  using assms pending_operation.map_inv [OF assms(1)]
    places_map_pending [OF pending_operation.address [OF assms(1)]]
  by (simp add: table_inv_def waiting_places_def)

lemma remove_at_Cons [simp]:
  "remove_at 0 (x # xs) = xs" "remove_at (Suc i) (x # xs) = x # remove_at i xs"
  by (simp_all add: remove_at_def)

lemma filter_remove_at:
  "distinct (map fst xs) \<Longrightarrow> i < length xs \<Longrightarrow> filter (\<lambda>x. fst x \<noteq> fst (xs ! i)) xs = remove_at i xs"
proof (induction xs arbitrary: i)
  case (Cons x xs)
  then have new: "fst x \<notin> fst ` set xs" by simp
  show ?case
  proof (cases i)
    case 0
    have "filter (\<lambda>y. fst y \<noteq> fst x) xs = xs"
      using new by (intro filter_True) (metis imageI)
    with 0 show ?thesis by simp
  next
    case (Suc j)
    with Cons.prems have "xs ! j \<in> set xs" by simp
    with new have "fst x \<noteq> fst (xs ! j)" by (metis imageI)
    with Suc Cons show ?thesis by simp
  qed
qed simp

lemma map_remove_at: "map f (remove_at i xs) = remove_at i (map f xs)"
  by (simp add: remove_at_def take_map drop_map)

lemma length_remove_at: "i < length xs \<Longrightarrow> length (remove_at i xs) = length xs - 1"
  by (simp add: remove_at_def)

lemma distinct_remove_at: "distinct xs \<Longrightarrow> distinct (remove_at i xs)"
proof (induction xs arbitrary: i)
  case (Cons x xs)
  then show ?case
    using set_remove_at [of "i - 1" xs] by (cases i) auto
qed (simp add: remove_at_def)

lemma find_distinct:
  "distinct (map f xs) \<Longrightarrow> i < length xs \<Longrightarrow> List.find (\<lambda>x. f x = f (xs ! i)) xs = Some (xs ! i)"
proof (induction xs arbitrary: i)
  case (Cons x xs)
  then show ?case
  proof (cases i)
    case (Suc j)
    with Cons.prems have "f x \<noteq> f (xs ! j)" by auto
    with Suc Cons show ?thesis by simp
  qed simp
qed simp

text \<open>Each suspended call finds its object, in the table and in memory.\<close>

lemma sender_pending:
  assumes inv: "table_inv c" and i: "i < length (cl_senders c)"
  obtains p where "m_pendingRequests (m_manager c) ! i = (snd_requestId (cl_senders c ! i), p)"
    and "find_pending (snd_requestId (cl_senders c ! i)) (m_manager c) = Some p"
    and "find_object (snd_pendingRaw (cl_senders c ! i)) (m_manager c) = Some p"
    and "pr_address p = snd_pendingRaw (cl_senders c ! i)"
    and "i < length (m_pendingRequests (m_manager c))"
proof -
  let ?ps = "m_pendingRequests (m_manager c)" and ?s = "cl_senders c ! i"
  have eq: "waiting_places c = places (m_manager c)" using inv by (simp add: table_inv_def)
  have "length ?ps = length (places (m_manager c))" by (simp add: places_def)
  also have "\<dots> = length (cl_senders c)" unfolding eq [symmetric] by (simp add: waiting_places_def)
  finally have len: "i < length ?ps" using i by simp
  obtain k p where kp: "?ps ! i = (k, p)" by fastforce
  have "waiting_places c ! i = places (m_manager c) ! i" using eq by simp
  then have id: "snd_requestId ?s = k" "snd_pendingRaw ?s = pr_address p"
    using i len kp by (simp_all add: waiting_places_def places_def)
  have "distinct (map fst ?ps)" using inv by (simp add: table_inv_def rq_inv_def)
  moreover have "(k, p) \<in> set ?ps" using kp nth_mem [OF len] by simp
  ultimately have found: "find_pending k (m_manager c) = Some p"
    by (simp add: find_pending_def)
  have "map snd (places (m_manager c)) = map pr_address (map snd ?ps)"
    by (simp add: places_def case_prod_unfold)
  then have "distinct (map pr_address (map snd ?ps))"
    using inv by (simp add: table_inv_def del: map_map)
  from find_distinct [OF this, of i] have obj: "find_object (pr_address p) (m_manager c) = Some p"
    using len kp by (simp add: find_object_def)
  show ?thesis
    by (rule that [of p]) (use id found obj kp len in simp_all)
qed

text \<open>A resumed call takes its entry out of the table and returns what was settled.\<close>

lemma resume_settled:
  assumes inv: "table_inv c" and i: "i < length (cl_senders c)"
    and p: "find_object (snd_pendingRaw (cl_senders c ! i)) (m_manager c) = Some p"
    and over: "pr_timer p = Timer_done ec"
  shows "request_resume i ec c =
     log_outcome (request_outcome (snd_payload (cl_senders c ! i))
         (Some (snd_requestId (cl_senders c ! i))) (wait_result ec p))
       (c\<lparr>cl_senders := remove_at i (cl_senders c),
          m_manager := (m_manager c)
            \<lparr>m_pendingRequests := remove_at i (m_pendingRequests (m_manager c))\<rparr>\<rparr>)"
proof -
  obtain q where q: "m_pendingRequests (m_manager c) ! i = (snd_requestId (cl_senders c ! i), q)"
    "find_pending (snd_requestId (cl_senders c ! i)) (m_manager c) = Some q"
    "find_object (snd_pendingRaw (cl_senders c ! i)) (m_manager c) = Some q"
    "pr_address q = snd_pendingRaw (cl_senders c ! i)" "i < length (m_pendingRequests (m_manager c))"
    using sender_pending [OF inv i] .
  have "distinct (map fst (m_pendingRequests (m_manager c)))"
    using inv by (simp add: table_inv_def rq_inv_def)
  from filter_remove_at [OF this q(5)] q p over show ?thesis
    by (simp add: request_resume_def send_resume_def wait_result_def case_prod_unfold Let_def)
qed

lemma table_inv_resume:
  assumes inv: "table_inv c" and i: "i < length (m_pendingRequests (m_manager c))"
  shows "table_inv (c\<lparr>cl_senders := remove_at i (cl_senders c),
          m_manager := (m_manager c)
            \<lparr>m_pendingRequests := remove_at i (m_pendingRequests (m_manager c))\<rparr>\<rparr>)"
proof -
  let ?ps = "m_pendingRequests (m_manager c)"
  have sub: "set (remove_at i ?ps) \<subseteq> set ?ps" by (rule set_remove_at)
  have "rq_inv ((m_manager c)\<lparr>m_pendingRequests := remove_at i ?ps\<rparr>)"
    using inv sub i distinct_remove_at [of "map fst ?ps" i]
    by (auto simp: table_inv_def rq_inv_def map_remove_at length_remove_at)
  moreover have "places ((m_manager c)\<lparr>m_pendingRequests := remove_at i ?ps\<rparr>) =
      remove_at i (places (m_manager c))"
    by (simp add: places_def map_remove_at)
  ultimately show ?thesis
    using inv set_remove_at [of i "places (m_manager c)"]
      set_remove_at [of i "map snd (places (m_manager c))"]
      distinct_remove_at [of "map snd (places (m_manager c))" i]
    by (auto simp: table_inv_def waiting_places_def map_remove_at subset_iff)
qed

text \<open>Every operation keeps the table and the suspended calls in step.\<close>

lemma table_inv_same:
  assumes "table_inv c" and "m_pendingRequests (m_manager c') = m_pendingRequests (m_manager c)"
    and "m_maxPendingRequests (m_manager c') = m_maxPendingRequests (m_manager c)"
    and "m_nextRequestId (m_manager c') = m_nextRequestId (m_manager c)"
    and "cl_senders c' = cl_senders c" and "cl_allocated c' = cl_allocated c"
  shows "table_inv c'"
  using assms by (simp add: table_inv_def rq_inv_def places_def waiting_places_def)

lemma fresh_request_id:
  assumes inv: "table_inv c" and bound: "Suc (cl_allocated c) < 2 ^ 64"
  shows "unat (m_nextRequestId (m_manager c) + 1) = Suc (unat (m_nextRequestId (m_manager c)))"
    and "m_nextRequestId (m_manager c) + 1 \<notin> fst ` set (m_pendingRequests (m_manager c))"
proof -
  let ?n = "m_nextRequestId (m_manager c)"
  have "unat ?n \<le> cl_allocated c" using inv by (simp add: table_inv_def)
  then show n: "unat (?n + 1) = Suc (unat ?n)"
    using bound unat_inc_no_wrap [of ?n] by simp
  have "unat k \<le> unat ?n" if "k \<in> fst ` set (m_pendingRequests (m_manager c))" for k
    using inv that by (auto simp: table_inv_def rq_inv_def)
  with n show "?n + 1 \<notin> fst ` set (m_pendingRequests (m_manager c))" by force
qed

text \<open>The three ways a call of \<open>sendRequest\<close> begins; none of them is undefined.\<close>

lemma request_begin_cases:
  assumes inv: "table_inv c" and bound: "Suc (cl_allocated c) < 2 ^ 64"
  obtains (rejected) x
    where "m_connection (m_manager c) = None \<and> x = ''Client is not connected'' \<or>
        (\<exists>ref. m_connection (m_manager c) = Some ref) \<and>
          m_maxPendingRequests (m_manager c) \<le> length (m_pendingRequests (m_manager c)) \<and>
          x = ''Too many pending client requests''"
      and "request_begin payload c = Some (log_outcome
             (request_outcome payload None (Inl (Runtime_error x))) (c\<lparr>cl_allocated := Suc (cl_allocated c)\<rparr>))"
  | (accepted) ref k where "m_connection (m_manager c) = Some ref"
      and "k = m_nextRequestId (m_manager c) + 1"
      and "length (m_pendingRequests (m_manager c)) < m_maxPendingRequests (m_manager c)"
      and "request_begin payload c = Some (c\<lparr>cl_allocated := Suc (cl_allocated c),
             cl_conns := (cl_conns c)[ref := send ((request_message payload)\<lparr>client_request_id := k\<rparr>)
                                              (cl_conns c ! ref)],
             m_manager := (m_manager c)\<lparr>m_nextRequestId := k,
               m_pendingRequests := m_pendingRequests (m_manager c) @ [(k, PendingRequest (cl_allocated c))]\<rparr>,
             cl_senders := cl_senders c @
               [\<lparr>snd_payload = payload, snd_requestId = k, snd_pendingRaw = cl_allocated c\<rparr>]\<rparr>)"
proof -
  let ?k = "m_nextRequestId (m_manager c) + 1"
  have none: "find_pending ?k ((m_manager c)\<lparr>m_nextRequestId := ?k\<rparr>) = None"
    using fresh_request_id(2) [OF assms] by (simp add: find_pending_def map_of_eq_None_iff)
  have same: "c\<lparr>cl_allocated := n, cl_conns := cl_conns c, m_manager := m_manager c\<rparr> =
      c\<lparr>cl_allocated := n\<rparr>" for n
    by simp
  show ?thesis
  proof (cases "m_connection (m_manager c)")
    case None
    show ?thesis
      by (rule rejected [of "''Client is not connected''"])
        (use None in \<open>simp_all add: request_begin_def send_begin_def\<close>)
  next
    case (Some ref)
    show ?thesis
    proof (cases "m_maxPendingRequests (m_manager c) \<le> length (m_pendingRequests (m_manager c))")
      case True
      show ?thesis
        by (rule rejected [of "''Too many pending client requests''"])
          (use Some True in \<open>simp_all add: request_begin_def send_begin_def\<close>)
    next
      case False
      show ?thesis
        by (rule accepted [OF Some refl])
          (use Some False none in \<open>simp_all add: request_begin_def send_begin_def nextRequestId_def Let_def\<close>)
    qed
  qed
qed

lemma request_begin_table:
  assumes inv: "table_inv c" and bound: "Suc (cl_allocated c) < 2 ^ 64"
    and "request_begin payload c = Some c'"
  shows "table_inv c'"
  using inv bound
proof (cases rule: request_begin_cases [where payload = payload])
  case (rejected x)
  with assms(3) have c': "m_manager c' = m_manager c" "cl_senders c' = cl_senders c"
    "cl_allocated c' = Suc (cl_allocated c)"
    by auto
  have "\<forall>a \<in> set (map snd (places (m_manager c))). a < Suc (cl_allocated c)"
    using inv unfolding table_inv_def by (meson less_SucI)
  with inv show ?thesis
    by (simp add: table_inv_def waiting_places_def c')
next
  case (accepted ref k)
  note id = fresh_request_id [OF inv bound, folded accepted(2)]
  have c': "places (m_manager c') = places (m_manager c) @ [(k, cl_allocated c)]"
    "waiting_places c' = waiting_places c @ [(k, cl_allocated c)]"
    "cl_allocated c' = Suc (cl_allocated c)"
    using accepted(4) assms(3) by (auto simp: places_def waiting_places_def PendingRequest_def)
  have "rq_inv (m_manager c')"
    using inv accepted(3,4) assms(3) id pending_ok_new
    by (auto simp: table_inv_def rq_inv_def)
  then show ?thesis
    using inv c' id(1) accepted(4) assms(3)
    by (auto simp: table_inv_def less_Suc_eq)
qed

lemma rq_inv_reset: "rq_inv (m\<lparr>m_connection := r\<rparr>) = rq_inv m"
  by (simp add: rq_inv_def)

lemma client_connectionClosed_table:
  assumes "table_inv c"
  shows "table_inv (client_connectionClosed c)"
proof -
  let ?reason = "''Connection closed before response was received''"
  let ?m = "(m_manager c)\<lparr>m_connection := None\<rparr>"
  have t0: "table_inv (c\<lparr>m_manager := ?m\<rparr>)"
    using assms by (rule table_inv_same) simp_all
  have "table_inv (c\<lparr>m_manager := map_pending (\<lambda>k. fail_pending ?reason) ?m\<rparr>)"
    by (rule table_inv_map [OF failing.pending_operation_axioms t0]) simp_all
  then show ?thesis
    by (rule table_inv_same)
      (simp_all add: client_connectionClosed_def cm_connectionClosed_def rq_connectionClosed_def
        failPendingRequests_map case_prod_unfold Let_def)
qed

lemma disconnect_begin_table:
  assumes inv: "table_inv c"
  shows "table_inv (disconnect_begin c)"
proof (cases "m_state c = Connected \<and> m_connection (m_manager c) \<noteq> None")
  case True
  then obtain ref where "m_connection (m_manager c) = Some ref" by blast
  with True have "m_manager (disconnect_begin c) =
      map_pending (\<lambda>k. fail_pending ''client disconnected'') (m_manager c)"
    by (simp add: disconnect_begin_def rq_stop_def failPendingRequests_map Let_def)
  with True show ?thesis
    by (intro table_inv_map [OF failing.pending_operation_axioms inv])
      (auto simp: disconnect_begin_def case_prod_unfold Let_def)
next
  case False
  then show ?thesis
    by (cases "m_state c") (auto simp: disconnect_begin_def rq_stop_def case_prod_unfold Let_def
        intro: table_inv_same [OF inv])
qed

lemma rq_start_pending [simp]:
  "m_pendingRequests (snd (snd (rq_start b xs m))) = m_pendingRequests m"
  "m_maxPendingRequests (snd (snd (rq_start b xs m))) = m_maxPendingRequests m"
  "m_nextRequestId (snd (snd (rq_start b xs m))) = m_nextRequestId m"
  by (simp_all add: rq_start_def split: sum.splits)

lemma connect_resume_frame:
  "m_pendingRequests (m_manager (connect_resume ec c)) = m_pendingRequests (m_manager c)"
  "m_maxPendingRequests (m_manager (connect_resume ec c)) = m_maxPendingRequests (m_manager c)"
  "m_nextRequestId (m_manager (connect_resume ec c)) = m_nextRequestId (m_manager c)"
  "cl_senders (connect_resume ec c) = cl_senders c"
  "cl_allocated (connect_resume ec c) = cl_allocated c"
  using rq_start_pending [of True "cl_conns c" "m_manager c"]
  by (auto simp: connect_resume_def connect_failed_def Let_def simp del: rq_start_pending
      split: prod.splits sum.splits)

lemma client_exec_table:
  assumes inv: "table_inv c" and bound: "Suc (cl_allocated c) < 2 ^ 64"
    and exec: "client_exec e c = Some c'"
  shows "table_inv c'"
proof (cases e)
  case (Sender_resumed i)
  then have i: "i < length (cl_senders c)" using exec by (auto split: if_splits)
  obtain p where p: "find_object (snd_pendingRaw (cl_senders c ! i)) (m_manager c) = Some p"
    "i < length (m_pendingRequests (m_manager c))"
    using sender_pending [OF inv i] .
  then obtain ec where ec: "pr_timer p = Timer_done ec" "c' = request_resume i ec c"
    using exec Sender_resumed i by (auto split: timer.splits)
  show ?thesis
    unfolding ec(2) resume_settled [OF inv i p(1) ec(1)]
    by (rule table_inv_same [OF table_inv_resume [OF inv p(2)]]) simp_all
next
  case (Wait_over k ec)
  then have "ec \<noteq> Ec_operation_aborted"
    "c' = c\<lparr>m_manager := update_pending (expire_pending ec) k (m_manager c)\<rparr>"
    using exec by (auto split: if_splits option.splits)
  then show ?thesis
    by (intro table_inv_map [OF expiring.pending_operation_axioms [of k ec] inv])
      (simp_all add: update_expire_map)
next
  case (Received ref i)
  then obtain message where "c' = client_receive ref i message c"
    using exec by (auto split: if_splits read_loop.splits)
  moreover have "rq_inv (m_manager c)" using inv by (simp add: table_inv_def)
  ultimately show ?thesis
    by (intro table_inv_map [OF completing.pending_operation_axioms [of message] inv])
      (simp_all add: client_receive_def receive_map)
next
  case (Call_request payload)
  with exec request_begin_table [OF inv bound] show ?thesis by simp
next
  case Call_disconnect
  with exec disconnect_begin_table [OF inv] show ?thesis by simp
next
  case Posted_close
  with exec client_connectionClosed_table [OF inv] show ?thesis by (auto split: if_splits)
next
  case (Connect_done ec)
  with exec show ?thesis
    by (intro table_inv_same [OF inv]) (auto simp: connect_resume_frame split: if_splits)
next
  case Call_connect
  with exec show ?thesis
    by (intro table_inv_same [OF inv]) (auto simp: connect_begin_def)
next
  case (Waiter_resumed i)
  with exec show ?thesis
    by (intro table_inv_same [OF inv])
      (auto simp: disconnect_resume_def Let_def split: if_splits waiter.splits)
next
  case (Conn_event ref ev)
  with exec show ?thesis
    by (intro table_inv_same [OF inv]) (auto split: if_splits)
qed

lemma op_allocated [simp]:
  "cl_allocated (connect_begin c) = cl_allocated c"
  "cl_allocated (disconnect_begin c) = cl_allocated c"
  "cl_allocated (disconnect_resume i ec c) = cl_allocated c"
  "cl_allocated (request_resume i ec c) = cl_allocated c"
  "cl_allocated (client_connectionClosed c) = cl_allocated c"
  "cl_allocated (client_receive ref i message c) = cl_allocated c"
proof -
  show "cl_allocated (disconnect_begin c) = cl_allocated c"
    by (cases "m_state c") (simp_all add: disconnect_begin_def case_prod_unfold Let_def)
qed (simp_all add: connect_begin_def disconnect_resume_def request_resume_def
    client_connectionClosed_def cm_connectionClosed_def client_receive_def case_prod_unfold Let_def)

lemma client_exec_allocated:
  assumes "client_exec e c = Some c'"
  shows "cl_allocated c' \<le> Suc (cl_allocated c)" and "cl_allocated c \<le> cl_allocated c'"
proof -
  have rb: "cl_allocated c' = Suc (cl_allocated c)" if "request_begin payload c = Some c'" for payload
    using that by (auto simp: request_begin_def Let_def split: prod.splits sum.splits fault.splits)
  have "cl_allocated c' = cl_allocated c \<or> (\<exists>payload. request_begin payload c = Some c')"
  proof (cases e)
    case (Call_request payload)
    with assms show ?thesis by auto
  qed (use assms in \<open>auto simp: connect_resume_frame
      split: if_splits option.splits timer.splits waiter.splits read_loop.splits\<close>)
  with rb show "cl_allocated c' \<le> Suc (cl_allocated c)" "cl_allocated c \<le> cl_allocated c'"
    by auto
qed

lemma client_run_allocated: "client_run cfg es c \<Longrightarrow> cl_allocated c \<le> length es"
proof (induction rule: client_run.induct)
  case (client_start c)
  then show ?case by (auto simp: client_create_def split: sum.splits)
next
  case (client_next es c e c')
  then show ?case using client_exec_allocated(1) [OF client_next(2)] by simp
qed

lemma client_run_table: "client_run cfg es c \<Longrightarrow> length es < 2 ^ 64 \<Longrightarrow> table_inv c"
proof (induction rule: client_run.induct)
  case (client_start c)
  then show ?case
    by (auto simp: client_create_def ClientRequestManager_def table_inv_def rq_inv_def places_def
        waiting_places_def split: sum.splits)
next
  case (client_next es c e c')
  have "length es < 2 ^ 64"
    by (rule order_less_trans [OF _ client_next.prems]) simp
  then have "table_inv c" by (rule client_next.IH)
  moreover have "Suc (cl_allocated c) < 2 ^ 64"
    by (rule order_le_less_trans [OF _ client_next.prems])
      (simp add: client_run_allocated [OF client_next(1)])
  ultimately show ?case
    using client_next(2) by (rule client_exec_table)
qed

section \<open>Which call got which identifier\<close>

fun outcome_request :: "outcome \<Rightarrow> (client_payload \<times> u64) option" where
  "outcome_request (Ping_returns request (Some k) r) = Some (Ping request, k)"
| "outcome_request (Snapshot_returns (Some k) r) = Some (StateSnapshot, k)"
| "outcome_request oc = None"

text \<open>The requests made so far with their identifiers: first the ended calls, then the suspended.\<close>

definition made :: "client \<Rightarrow> (client_payload \<times> u64) list" where
  "made c = List.map_filter outcome_request (cl_outcomes c) @
     map (\<lambda>s. (snd_payload s, snd_requestId s)) (cl_senders c)"

lemma outcome_request_outcome [simp]:
  "outcome_request (request_outcome payload (Some k) r) = Some (payload, k)"
  "outcome_request (request_outcome payload None r) = None"
  by (simp_all add: request_outcome_def split: client_payload.splits)

definition ids_inv :: "client \<Rightarrow> bool" where
  "ids_inv c \<longleftrightarrow>
     mset (map (unat \<circ> snd) (made c)) = mset [1 ..< Suc (unat (m_nextRequestId (m_manager c)))]"

lemma mset_remove_at: "i < length xs \<Longrightarrow> mset xs = add_mset (xs ! i) (mset (remove_at i xs))"
  by (metis id_take_nth_drop mset.simps(2) mset_append remove_at_def union_mset_add_mset_right)

lemma made_resume:
  assumes "i < length (cl_senders c)"
  shows "mset (made (log_outcome (request_outcome (snd_payload (cl_senders c ! i))
           (Some (snd_requestId (cl_senders c ! i))) r)
         (c\<lparr>cl_senders := remove_at i (cl_senders c), m_manager := m\<rparr>))) = mset (made c)"
  using mset_remove_at [OF assms]
  by (simp add: made_def map_filter_append map_filter_single)

lemma made_same:
  "cl_senders c' = cl_senders c \<Longrightarrow>
     List.map_filter outcome_request (cl_outcomes c') = List.map_filter outcome_request (cl_outcomes c) \<Longrightarrow>
     made c' = made c"
  by (simp add: made_def)

text \<open>The events that make or end no request.\<close>

fun request_event :: "client_event \<Rightarrow> bool" where
  "request_event (Call_request payload) = True"
| "request_event (Sender_resumed i) = True"
| "request_event e = False"

lemma other_event_frame:
  assumes "client_exec e c = Some c'" and "\<not> request_event e"
  shows "cl_senders c' = cl_senders c" and "m_nextRequestId (m_manager c') = m_nextRequestId (m_manager c)"
    and "\<exists>ocs. cl_outcomes c' = cl_outcomes c @ ocs \<and> (\<forall>oc \<in> set ocs. outcome_request oc = None)"
proof -
  have stop: "m_nextRequestId (snd (rq_stop reason xs m)) = m_nextRequestId m" for reason xs m
    by (simp add: rq_stop_def failPendingRequests_def split: option.splits)
  have "cl_senders c' = cl_senders c \<and> m_nextRequestId (m_manager c') = m_nextRequestId (m_manager c) \<and>
     (\<exists>ocs. cl_outcomes c' = cl_outcomes c @ ocs \<and> (\<forall>oc \<in> set ocs. outcome_request oc = None))"
  proof (cases e)
    case Call_connect
    with assms show ?thesis by (auto simp: connect_begin_def)
  next
    case (Connect_done ec)
    with assms connect_resume_log [of ec c] show ?thesis
      by (auto simp: connect_resume_frame split: if_splits)
  next
    case Call_disconnect
    with assms stop show ?thesis
      by (cases "m_state c") (auto simp: disconnect_begin_def case_prod_unfold Let_def)
  next
    case (Waiter_resumed i)
    with assms show ?thesis
      by (auto simp: disconnect_resume_def Let_def split: if_splits waiter.splits)
  next
    case (Wait_over k ec)
    with assms show ?thesis by (auto simp: update_pending_def split: if_splits option.splits)
  next
    case Posted_close
    with assms show ?thesis
      by (auto simp: client_connectionClosed_def cm_connectionClosed_def rq_connectionClosed_def
          failPendingRequests_def case_prod_unfold Let_def split: if_splits)
  next
    case (Received ref i)
    with assms show ?thesis
      by (auto simp: client_receive_def receive_def update_pending_def
          split: if_splits read_loop.splits option.splits)
  qed (use assms in \<open>auto split: if_splits\<close>)
  then show "cl_senders c' = cl_senders c" "m_nextRequestId (m_manager c') = m_nextRequestId (m_manager c)"
    "\<exists>ocs. cl_outcomes c' = cl_outcomes c @ ocs \<and> (\<forall>oc \<in> set ocs. outcome_request oc = None)"
    by blast+
qed

text \<open>Resuming a suspended call, in a state where the table is in step.\<close>

lemma sender_resumed:
  assumes inv: "table_inv c" and exec: "client_exec (Sender_resumed i) c = Some c'"
  obtains p ec where "i < length (cl_senders c)"
    and "find_pending (snd_requestId (cl_senders c ! i)) (m_manager c) = Some p"
    and "pr_timer p = Timer_done ec"
    and "c' = log_outcome (request_outcome (snd_payload (cl_senders c ! i))
           (Some (snd_requestId (cl_senders c ! i))) (wait_result ec p))
         (c\<lparr>cl_senders := remove_at i (cl_senders c),
            m_manager := (m_manager c)
              \<lparr>m_pendingRequests := remove_at i (m_pendingRequests (m_manager c))\<rparr>\<rparr>)"
proof -
  have i: "i < length (cl_senders c)" using exec by (auto split: if_splits)
  obtain p where p: "find_pending (snd_requestId (cl_senders c ! i)) (m_manager c) = Some p"
    "find_object (snd_pendingRaw (cl_senders c ! i)) (m_manager c) = Some p"
    using sender_pending [OF inv i] by blast
  then obtain ec where ec: "pr_timer p = Timer_done ec" "c' = request_resume i ec c"
    using exec i by (auto split: timer.splits)
  show ?thesis
    by (rule that [OF i p(1) ec(1)]) (simp only: ec(2) resume_settled [OF inv i p(2) ec(1)])
qed

lemma ids_inv_step:
  assumes inv: "table_inv c" and bound: "Suc (cl_allocated c) < 2 ^ 64" and ids: "ids_inv c"
    and exec: "client_exec e c = Some c'"
  shows "ids_inv c'"
proof (cases "request_event e")
  case False
  from other_event_frame [OF exec False] have "made c' = made c"
    by (auto simp: made_def map_filter_append map_filter_none)
  with other_event_frame(2) [OF exec False] ids show ?thesis
    by (simp only: ids_inv_def)
next
  case True
  then consider payload where "e = Call_request payload" | i where "e = Sender_resumed i"
    by (cases e) auto
  then show ?thesis
  proof cases
    case (1 payload)
    from inv bound show ?thesis
    proof (cases rule: request_begin_cases [where payload = payload])
      case (rejected x)
      with 1 exec ids show ?thesis
        by (auto simp: ids_inv_def made_def map_filter_append map_filter_single)
    next
      case (accepted ref k)
      with 1 exec have c': "cl_outcomes c' = cl_outcomes c"
        "map (unat \<circ> snd) (made c') = map (unat \<circ> snd) (made c) @ [unat k]"
        "m_nextRequestId (m_manager c') = k"
        by (auto simp: made_def)
      with ids fresh_request_id(1) [OF inv bound, folded accepted(2)] show ?thesis
        by (simp add: ids_inv_def)
    qed
  next
    case (2 i)
    with exec have "client_exec (Sender_resumed i) c = Some c'" by simp
    from sender_resumed [OF inv this] obtain p ec where i: "i < length (cl_senders c)"
      and c': "c' = log_outcome (request_outcome (snd_payload (cl_senders c ! i))
           (Some (snd_requestId (cl_senders c ! i))) (wait_result ec p))
         (c\<lparr>cl_senders := remove_at i (cl_senders c),
            m_manager := (m_manager c)
              \<lparr>m_pendingRequests := remove_at i (m_pendingRequests (m_manager c))\<rparr>\<rparr>)"
      by blast
    have "mset (made c') = mset (made c)" unfolding c' by (rule made_resume [OF i])
    then have "mset (map (unat \<circ> snd) (made c')) = mset (map (unat \<circ> snd) (made c))"
      by (simp only: mset_map)
    moreover have "m_nextRequestId (m_manager c') = m_nextRequestId (m_manager c)"
      unfolding c' by simp
    ultimately show ?thesis using ids by (simp add: ids_inv_def)
  qed
qed

section \<open>Where the responses come from\<close>

text \<open>The messages the network gave to the client, on any of its connections.\<close>

definition received :: "client \<Rightarrow> ServerMessage set" where
  "received c = (\<Union>x \<in> set (cl_conns c). set (delivered x))"

text \<open>
  A response in the table was received; a pending request without a connection is settled; an
  ended call returned what a settled entry gave it.
\<close>

definition answered_by :: "client \<Rightarrow> outcome \<Rightarrow> bool" where
  "answered_by c oc \<longleftrightarrow>
     (case outcome_request oc of
        None \<Rightarrow> True
      | Some (payload, k) \<Rightarrow>
          (\<exists>x. oc = request_outcome payload (Some k) (Inl x)) \<or>
          (\<exists>r \<in> received c. server_request_id r = k \<and> oc = request_outcome payload (Some k) (Inr r)))"

definition response_inv :: "client \<Rightarrow> bool" where
  "response_inv c \<longleftrightarrow>
     (\<forall>x \<in> set (cl_conns c). handled_inv x) \<and>
     (\<forall>(k, p) \<in> set (m_pendingRequests (m_manager c)). set_option (pr_response p) \<subseteq> received c) \<and>
     (m_connection (m_manager c) = None \<longrightarrow>
        (\<forall>(k, p) \<in> set (m_pendingRequests (m_manager c)). pr_timer p \<noteq> Timer_running)) \<and>
     list_all (answered_by c) (cl_outcomes c)"

lemma answered_mono: "received c \<subseteq> received c' \<Longrightarrow> answered_by c oc \<Longrightarrow> answered_by c' oc"
  by (fastforce simp: answered_by_def split: option.splits)

lemma list_all_answered:
  "received c \<subseteq> received c' \<Longrightarrow> list_all (answered_by c) ocs \<Longrightarrow> list_all (answered_by c') ocs"
  using answered_mono by (auto simp: list_all_iff)

lemma answered_none: "outcome_request oc = None \<Longrightarrow> answered_by c oc"
  by (simp add: answered_by_def)

text \<open>Connections only ever receive more.\<close>

lemma received_settle:
  "r < length (cl_conns c) \<Longrightarrow> prefix (delivered (cl_conns c ! r)) (delivered x) \<Longrightarrow>
     received c \<subseteq> received (client_settle r x c)"
proof
  assume r: "r < length (cl_conns c)" and p: "prefix (delivered (cl_conns c ! r)) (delivered x)"
  fix m
  assume "m \<in> received c"
  then obtain i where i: "i < length (cl_conns c)" "m \<in> set (delivered (cl_conns c ! i))"
    unfolding received_def by (metis UN_E in_set_conv_nth)
  then have "m \<in> set (delivered ((cl_conns c)[r := x] ! i))"
    using set_mono_prefix [OF p] by (cases "i = r") auto
  moreover have "(cl_conns c)[r := x] ! i \<in> set ((cl_conns c)[r := x])"
    using i(1) by (intro nth_mem) simp
  ultimately show "m \<in> received (client_settle r x c)"
    by (auto simp: received_def)
qed

lemma response_inv_frame:
  assumes inv: "response_inv c" and "received c \<subseteq> received c'"
    and "\<forall>x \<in> set (cl_conns c'). handled_inv x"
    and "\<forall>(k, p') \<in> set (m_pendingRequests (m_manager c')).
      \<exists>p. (k, p) \<in> set (m_pendingRequests (m_manager c)) \<and>
        set_option (pr_response p') \<subseteq> set_option (pr_response p) \<union> received c' \<and>
        (pr_timer p \<noteq> Timer_running \<longrightarrow> pr_timer p' \<noteq> Timer_running)"
    and "m_connection (m_manager c') = None \<longrightarrow> m_connection (m_manager c) = None \<or>
      (\<forall>(k, p) \<in> set (m_pendingRequests (m_manager c')). pr_timer p \<noteq> Timer_running)"
    and "\<exists>ocs. cl_outcomes c' = cl_outcomes c @ ocs \<and> list_all (answered_by c') ocs"
  shows "response_inv c'"
proof -
  have "list_all (answered_by c') (cl_outcomes c')"
    using inv assms(2,6) list_all_answered [of c c' "cl_outcomes c"] by (auto simp: response_inv_def)
  moreover have "set_option (pr_response p') \<subseteq> received c'"
    if kp': "(k, p') \<in> set (m_pendingRequests (m_manager c'))" for k p'
  proof -
    obtain p where "(k, p) \<in> set (m_pendingRequests (m_manager c))"
      "set_option (pr_response p') \<subseteq> set_option (pr_response p) \<union> received c'"
      using bspec [OF assms(4) kp'] by blast
    moreover from this(1) have "set_option (pr_response p) \<subseteq> received c"
      using inv by (fastforce simp: response_inv_def)
    ultimately show ?thesis using assms(2) by blast
  qed
  moreover have "pr_timer p' \<noteq> Timer_running"
    if "m_connection (m_manager c') = None" and kp': "(k, p') \<in> set (m_pendingRequests (m_manager c'))"
    for k p'
  proof (cases "m_connection (m_manager c) = None")
    case True
    obtain p where "(k, p) \<in> set (m_pendingRequests (m_manager c))"
      "pr_timer p \<noteq> Timer_running \<longrightarrow> pr_timer p' \<noteq> Timer_running"
      using bspec [OF assms(4) kp'] by blast
    with inv True show ?thesis by (auto simp: response_inv_def)
  qed (use that assms(5) in auto)
  ultimately show ?thesis
    using assms(3) by (auto simp: response_inv_def)
qed

text \<open>Events that leave the table of requests as it is.\<close>

lemma response_inv_same:
  assumes "response_inv c" and "received c \<subseteq> received c'"
    and "\<forall>x \<in> set (cl_conns c'). handled_inv x"
    and "m_pendingRequests (m_manager c') = m_pendingRequests (m_manager c)"
    and "m_connection (m_manager c') = None \<longrightarrow> m_connection (m_manager c) = None"
    and "\<exists>ocs. cl_outcomes c' = cl_outcomes c @ ocs \<and> list_all (answered_by c') ocs"
  shows "response_inv c'"
  by (rule response_inv_frame [OF assms(1-3)]) (use assms(4-6) in auto)

text \<open>Events that change the entries of the table one by one.\<close>

lemma response_inv_map:
  assumes "response_inv c" and "received c \<subseteq> received c'"
    and "\<forall>x \<in> set (cl_conns c'). handled_inv x"
    and "m_pendingRequests (m_manager c') = map (\<lambda>(k, p). (k, f k p)) (m_pendingRequests (m_manager c))"
    and "\<And>k p. set_option (pr_response (f k p)) \<subseteq> set_option (pr_response p) \<union> received c'"
    and "\<And>k p. pr_timer p \<noteq> Timer_running \<Longrightarrow> pr_timer (f k p) \<noteq> Timer_running"
    and "m_connection (m_manager c') = None \<longrightarrow> m_connection (m_manager c) = None \<or>
      (\<forall>(k, p) \<in> set (m_pendingRequests (m_manager c')). pr_timer p \<noteq> Timer_running)"
    and "\<exists>ocs. cl_outcomes c' = cl_outcomes c @ ocs \<and> list_all (answered_by c') ocs"
  shows "response_inv c'"
proof (rule response_inv_frame [OF assms(1-3) _ assms(7,8)])
  show "\<forall>(k, p') \<in> set (m_pendingRequests (m_manager c')).
      \<exists>p. (k, p) \<in> set (m_pendingRequests (m_manager c)) \<and>
        set_option (pr_response p') \<subseteq> set_option (pr_response p) \<union> received c' \<and>
        (pr_timer p \<noteq> Timer_running \<longrightarrow> pr_timer p' \<noteq> Timer_running)"
    unfolding assms(4) using assms(5,6) by fastforce
qed

text \<open>Posting to a connection changes nothing the invariant looks at.\<close>

lemma same_conns_received:
  assumes "same_conns (cl_conns c) (cl_conns c')"
  shows "received c' = received c"
    and "\<forall>x \<in> set (cl_conns c). handled_inv x \<Longrightarrow> \<forall>x \<in> set (cl_conns c'). handled_inv x"
proof -
  have len: "length (cl_conns c') = length (cl_conns c)"
    using assms by (simp add: same_conns_def)
  have post: "delivered (cl_conns c' ! r) = delivered (cl_conns c ! r) \<and>
      read_loops (cl_conns c' ! r) = read_loops (cl_conns c ! r)" if r: "r < length (cl_conns c)" for r
    using assms r by (auto simp: same_conns_def)
  have "map delivered (cl_conns c') = map delivered (cl_conns c)"
    using len post by (intro nth_equalityI) simp_all
  then have "(\<Union>ds \<in> set (map delivered (cl_conns c')). set ds) =
      (\<Union>ds \<in> set (map delivered (cl_conns c)). set ds)" by simp
  then show "received c' = received c" by (simp add: received_def)
  assume "\<forall>x \<in> set (cl_conns c). handled_inv x"
  then have "handled_inv (cl_conns c ! r)" if "r < length (cl_conns c)" for r
    using that by simp
  then have "handled_inv (cl_conns c' ! r)" if "r < length (cl_conns c)" for r
    using post [OF that] that by (blast intro: handled_same)
  then show "\<forall>x \<in> set (cl_conns c'). handled_inv x"
    using len by (metis in_set_conv_nth)
qed

lemma response_settle:
  assumes inv: "response_inv c" and r: "r < length (cl_conns c)"
    and "prefix (delivered (cl_conns c ! r)) (delivered x)" and "handled_inv x"
  shows "response_inv (client_settle r x c)"
proof (rule response_inv_same [OF inv received_settle [OF r assms(3)]])
  show "\<forall>y \<in> set (cl_conns (client_settle r x c)). handled_inv y"
    using inv assms(4) set_update_subset_insert [of "cl_conns c" r x]
    by (auto simp: response_inv_def)
qed (simp_all add: list_all_iff)

lemma readLoop_handler_delivered [simp]: "delivered (readLoop_handler i r c) = delivered c"
  by (auto simp: readLoop_handler_def readLoop_test_def split: sum.splits)

lemma response_receive:
  assumes inv: "response_inv c" and tab: "rq_inv (m_manager c)" and r: "ref < length (cl_conns c)"
    and "message \<in> received c"
  shows "response_inv (client_receive ref i message c)"
proof -
  let ?c = "c\<lparr>m_manager := receive message (m_manager c)\<rparr>"
  have m: "m_pendingRequests (m_manager ?c) =
      map (\<lambda>(k, p). (k, complete_if message k p)) (m_pendingRequests (m_manager c))"
    using receive_map [OF tab, of message] by (simp add: map_pending_def)
  have con: "m_connection (m_manager ?c) = m_connection (m_manager c)"
    using same_link_pending(2) [of "m_manager c" message] by (simp add: same_link_def)
  have rec: "received ?c = received c" by (simp add: received_def)
  have "response_inv ?c"
  proof (rule response_inv_map [OF inv _ _ m])
    show "set_option (pr_response (complete_if message k p)) \<subseteq> set_option (pr_response p) \<union> received ?c"
      for k p
      using assms(4) unfolding rec by (simp add: complete_if_def complete_pending_def)
    show "pr_timer (complete_if message k p) \<noteq> Timer_running" if "pr_timer p \<noteq> Timer_running" for k p
      using that by (simp add: complete_if_def complete_pending_def)
  qed (use inv con rec in \<open>simp_all add: response_inv_def\<close>)
  then show ?thesis
    using r inv unfolding client_receive_def
    by (intro response_settle) (auto simp: response_inv_def intro: handled_readLoop_handler)
qed

lemma fail_pending_settles: "pending_ok k p \<Longrightarrow> pr_timer (fail_pending reason p) \<noteq> Timer_running"
  by (auto simp: fail_pending_def pending_ok_def split: PendingState.splits)

lemma fail_pending_response [simp]: "pr_response (fail_pending reason p) = pr_response p"
  by (simp add: fail_pending_def)

lemma fail_pending_timer: "pr_timer p \<noteq> Timer_running \<Longrightarrow> pr_timer (fail_pending reason p) \<noteq> Timer_running"
  by (simp add: fail_pending_def)

lemma response_connectionClosed:
  assumes inv: "response_inv c" and tab: "rq_inv (m_manager c)"
  shows "response_inv (client_connectionClosed c)"
proof -
  let ?f = "fail_pending ''Connection closed before response was received''"
  have m: "m_pendingRequests (m_manager (client_connectionClosed c)) =
      map (\<lambda>(k, p). (k, ?f p)) (m_pendingRequests (m_manager c))"
    and frame: "cl_conns (client_connectionClosed c) = cl_conns c"
      "cl_outcomes (client_connectionClosed c) = cl_outcomes c"
    by (simp_all add: client_connectionClosed_def cm_connectionClosed_def rq_connectionClosed_def
        failPendingRequests_def case_prod_unfold Let_def)
  have "\<forall>(k, p) \<in> set (m_pendingRequests (m_manager (client_connectionClosed c))).
      pr_timer p \<noteq> Timer_running"
    using tab fail_pending_settles unfolding m by (fastforce simp: rq_inv_def)
  then show ?thesis
    using inv frame
    by (intro response_inv_map [OF inv _ _ m])
      (auto simp: received_def response_inv_def list_all_iff dest: fail_pending_timer)
qed

lemma response_disconnect:
  assumes inv: "response_inv c"
  shows "response_inv (disconnect_begin c)"
proof (cases "m_state c = Connected \<and> m_connection (m_manager c) \<noteq> None")
  case True
  then obtain ref where ref: "m_connection (m_manager c) = Some ref" by blast
  let ?f = "fail_pending ''client disconnected''"
  have m: "m_pendingRequests (m_manager (disconnect_begin c)) =
      map (\<lambda>(k, p). (k, ?f p)) (m_pendingRequests (m_manager c))"
    and frame: "cl_conns (disconnect_begin c) = (cl_conns c)[ref := stop (cl_conns c ! ref)]"
      "cl_outcomes (disconnect_begin c) = cl_outcomes c"
      "m_connection (m_manager (disconnect_begin c)) = Some ref"
    using True ref
    by (simp_all add: disconnect_begin_def rq_stop_def failPendingRequests_def Let_def)
  have "same_conns (cl_conns c) (cl_conns (disconnect_begin c))"
    unfolding frame(1) by (simp add: stop_def same_conns_post)
  note same = same_conns_received [OF this]
  show ?thesis
    by (rule response_inv_map [OF inv _ _ m])
      (use inv same frame fail_pending_timer in \<open>auto simp: response_inv_def list_all_iff\<close>)
next
  case False
  then have "m_manager (disconnect_begin c) = m_manager c" "cl_conns (disconnect_begin c) = cl_conns c"
    "\<exists>ocs. cl_outcomes (disconnect_begin c) = cl_outcomes c @ ocs \<and>
       list_all (\<lambda>oc. outcome_request oc = None) ocs"
    by (cases "m_state c"; auto simp: disconnect_begin_def rq_stop_def case_prod_unfold Let_def)+
  then show ?thesis
    by (intro response_inv_same [OF inv])
      (use inv answered_none in \<open>auto simp: received_def response_inv_def list_all_iff\<close>)
qed

lemma pending_entry: "find_pending k m = Some p \<Longrightarrow> (k, p) \<in> set (m_pendingRequests m)"
  by (simp add: find_pending_def map_of_SomeD)

lemma wait_result_answered:
  assumes inv: "response_inv c" and tab: "rq_inv (m_manager c)"
    and p: "find_pending k (m_manager c) = Some p" and "pr_timer p = Timer_done ec"
  shows "answered_by c (request_outcome payload (Some k) (wait_result ec p))"
proof (cases "wait_result ec p")
  case (Inr r)
  then have "pr_response p = Some r" "pr_state p = Completed"
    by (auto simp: wait_result_def split: if_splits)
  moreover have "pending_ok k p" "set_option (pr_response p) \<subseteq> received c"
    using pending_entry [OF p] inv tab by (fastforce simp: response_inv_def rq_inv_def)+
  ultimately have "r \<in> received c" "server_request_id r = k"
    by (auto simp: pending_ok_def)
  with Inr show ?thesis by (auto simp: answered_by_def)
qed (auto simp: answered_by_def)

lemma response_request:
  assumes inv: "response_inv c" and tab: "table_inv c" and bound: "Suc (cl_allocated c) < 2 ^ 64"
    and exec: "request_begin payload c = Some c'"
  shows "response_inv c'"
  using tab bound
proof (cases rule: request_begin_cases [where payload = payload])
  case (rejected x)
  with exec inv show ?thesis
    by (intro response_inv_same [OF inv])
      (auto simp: received_def response_inv_def answered_by_def)
next
  case (accepted ref k)
  let ?ps = "m_pendingRequests (m_manager c) @ [(k, PendingRequest (cl_allocated c))]"
  have c': "m_pendingRequests (m_manager c') = ?ps" "m_connection (m_manager c') = Some ref"
    "cl_outcomes c' = cl_outcomes c" "same_conns (cl_conns c) (cl_conns c')"
    using accepted(1,4) exec by (auto simp: send_def same_conns_post)
  note same = same_conns_received [OF c'(4)]
  have "\<forall>(k, p) \<in> set ?ps. set_option (pr_response p) \<subseteq> received c'"
    using inv same(1) by (auto simp: response_inv_def PendingRequest_def)
  moreover have "list_all (answered_by c') (cl_outcomes c)"
    using inv same(1) list_all_answered [of c c'] by (simp add: response_inv_def)
  ultimately show ?thesis
    using inv same c'(1-3) by (simp add: response_inv_def)
qed

lemma response_resume:
  assumes inv: "response_inv c" and tab: "table_inv c"
    and exec: "client_exec (Sender_resumed i) c = Some c'"
  shows "response_inv c'"
proof -
  from sender_resumed [OF tab exec] obtain p ec
    where p: "find_pending (snd_requestId (cl_senders c ! i)) (m_manager c) = Some p"
    and ec: "pr_timer p = Timer_done ec"
    and c': "c' = log_outcome (request_outcome (snd_payload (cl_senders c ! i))
           (Some (snd_requestId (cl_senders c ! i))) (wait_result ec p))
         (c\<lparr>cl_senders := remove_at i (cl_senders c),
            m_manager := (m_manager c)
              \<lparr>m_pendingRequests := remove_at i (m_pendingRequests (m_manager c))\<rparr>\<rparr>)"
    by blast
  let ?oc = "request_outcome (snd_payload (cl_senders c ! i))
           (Some (snd_requestId (cl_senders c ! i))) (wait_result ec p)"
  have "rq_inv (m_manager c)" using tab by (simp add: table_inv_def)
  from wait_result_answered [OF inv this p ec] have oc: "answered_by c ?oc" .
  have frame: "cl_conns c' = cl_conns c" "cl_outcomes c' = cl_outcomes c @ [?oc]"
    "m_pendingRequests (m_manager c') = remove_at i (m_pendingRequests (m_manager c))"
    "m_connection (m_manager c') = m_connection (m_manager c)"
    unfolding c' by simp_all
  have rec: "received c' = received c" by (simp add: received_def frame)
  show ?thesis
  proof (rule response_inv_frame [OF inv])
    show "\<forall>(k, p') \<in> set (m_pendingRequests (m_manager c')).
      \<exists>p. (k, p) \<in> set (m_pendingRequests (m_manager c)) \<and>
        set_option (pr_response p') \<subseteq> set_option (pr_response p) \<union> received c' \<and>
        (pr_timer p \<noteq> Timer_running \<longrightarrow> pr_timer p' \<noteq> Timer_running)"
      using set_remove_at [of i "m_pendingRequests (m_manager c)"] unfolding frame by blast
    show "\<exists>ocs. cl_outcomes c' = cl_outcomes c @ ocs \<and> list_all (answered_by c') ocs"
      using oc answered_mono [of c c' ?oc] rec frame(2) by auto
  qed (use inv frame rec in \<open>simp_all add: response_inv_def\<close>)
qed

lemma received_handler:
  assumes "response_inv c" and "ref < length (cl_conns c)" and "i < length (read_loops (cl_conns c ! ref))"
    and "read_loops (cl_conns c ! ref) ! i = Read_awaits_handler message"
  shows "message \<in> received c"
proof -
  have "handled_inv (cl_conns c ! ref)" using assms(1,2) by (simp add: response_inv_def)
  moreover have "Read_awaits_handler message \<in> set (read_loops (cl_conns c ! ref))"
    using assms(3,4) by (metis nth_mem)
  ultimately have "message \<in> set (delivered (cl_conns c ! ref))" by (simp add: handled_inv_def)
  then show ?thesis using assms(2) nth_mem by (auto simp: received_def)
qed

lemma client_exec_response:
  assumes inv: "response_inv c" and tab: "table_inv c" and link: "link_inv c"
    and bound: "Suc (cl_allocated c) < 2 ^ 64" and exec: "client_exec e c = Some c'"
  shows "response_inv c'"
proof (cases e)
  case (Call_request payload)
  with exec response_request [OF inv tab bound] show ?thesis by simp
next
  case (Sender_resumed i)
  with exec response_resume [OF inv tab] show ?thesis by blast
next
  case Call_disconnect
  with exec response_disconnect [OF inv] show ?thesis by simp
next
  case Posted_close
  with exec response_connectionClosed [OF inv] tab show ?thesis
    by (auto simp: table_inv_def split: if_splits)
next
  case (Received ref i)
  then obtain message where m: "ref < length (cl_conns c)" "i < length (read_loops (cl_conns c ! ref))"
    "read_loops (cl_conns c ! ref) ! i = Read_awaits_handler message"
    "c' = client_receive ref i message c"
    using exec by (auto split: if_splits read_loop.splits)
  with response_receive [OF inv _ m(1) received_handler [OF inv m(1-3)]] tab show ?thesis
    by (simp add: table_inv_def)
next
  case (Conn_event ref ev)
  then obtain x where x: "ref < length (cl_conns c)" "conn_step (cl_conns c ! ref) ev x"
    "c' = client_settle ref x c"
    using exec by (auto simp: conn_step_iff_exec split: if_splits)
  have "handled_inv (cl_conns c ! ref)" using inv x(1) by (simp add: response_inv_def)
  from response_settle [OF inv x(1) _ conn_step_handled [OF x(2) this]] conn_step_delivered [OF x(2)]
  show ?thesis by (simp add: x(3))
next
  case (Wait_over k ec)
  then have m: "m_pendingRequests (m_manager c') =
      map (\<lambda>(k', p). (k', (\<lambda>k' p. if k' = k then expire_pending ec p else p) k' p))
        (m_pendingRequests (m_manager c))"
    and frame: "cl_conns c' = cl_conns c" "cl_outcomes c' = cl_outcomes c"
      "m_connection (m_manager c') = m_connection (m_manager c)"
    using exec by (auto simp: update_pending_def split: if_splits option.splits)
  show ?thesis
    by (rule response_inv_map [OF inv _ _ m])
      (use inv frame in \<open>auto simp: response_inv_def received_def expire_pending_def\<close>)
next
  case Call_connect
  then have "cl_conns c' = cl_conns c" "m_manager c' = m_manager c"
    "\<exists>ocs. cl_outcomes c' = cl_outcomes c @ ocs \<and> list_all (\<lambda>oc. outcome_request oc = None) ocs"
    using exec by (auto simp: connect_begin_def)
  then show ?thesis
    by (intro response_inv_same [OF inv])
      (use inv answered_none in \<open>auto simp: received_def response_inv_def list_all_iff\<close>)
next
  case (Waiter_resumed i)
  then have "cl_conns c' = cl_conns c" "m_manager c' = m_manager c"
    "\<exists>ocs. cl_outcomes c' = cl_outcomes c @ ocs \<and> list_all (\<lambda>oc. outcome_request oc = None) ocs"
    using exec by (auto simp: disconnect_resume_def Let_def split: if_splits waiter.splits)
  then show ?thesis
    by (intro response_inv_same [OF inv])
      (use inv answered_none in \<open>auto simp: received_def response_inv_def list_all_iff\<close>)
next
  case (Connect_done ec)
  then have c': "c' = connect_resume ec c" and pos: "cl_connects c > 0"
    using exec by (auto split: if_splits)
  have "cl_conns c' = cl_conns c \<and> m_manager c' = m_manager c \<or>
     m_connection (m_manager c') \<noteq> None \<and>
       (\<exists>x. cl_conns c' = cl_conns c @ [x] \<and> delivered x = [] \<and> read_loops x = [])"
    unfolding c'
    by (auto simp: connect_resume_def connect_failed_def rq_start_def connection_create_def start_def
        Let_def split: if_splits)
  then show ?thesis
    using connect_resume_log [of ec c] connect_resume_frame(1) [of ec c] unfolding c'
    by (intro response_inv_same [OF inv])
      (use inv in \<open>auto simp: received_def response_inv_def handled_inv_def answered_by_def\<close>)
qed

lemma client_run_requests:
  "client_run cfg es c \<Longrightarrow> length es < 2 ^ 64 \<Longrightarrow> ids_inv c \<and> response_inv c"
proof (induction rule: client_run.induct)
  case (client_start c)
  then show ?case
    by (auto simp: client_create_def ClientRequestManager_def ids_inv_def made_def response_inv_def
        List.map_filter_def split: sum.splits)
next
  case (client_next es c e c')
  have len: "length es < 2 ^ 64"
    by (rule order_less_trans [OF _ client_next.prems]) simp
  have bound: "Suc (cl_allocated c) < 2 ^ 64"
    by (rule order_le_less_trans [OF _ client_next.prems])
      (simp add: client_run_allocated [OF client_next(1)])
  note tab = client_run_table [OF client_next(1) len]
  have link: "link_inv c" using client_run_link [OF client_next(1)] by simp
  from client_next.IH [OF len] ids_inv_step [OF tab bound _ client_next(2)]
    client_exec_response [OF _ tab link bound client_next(2)]
  show ?case by blast
qed

lemma ping_result_ok:
  "ping_result r = Inr pong \<longleftrightarrow>
     (\<exists>m. r = Inr m \<and> server_status m = STATUS_OK \<and> server_payload m = Some (Pong pong))"
  by (auto simp: ping_result_def split: sum.splits option.splits server_payload.splits if_splits)

lemma snapshot_result_ok:
  "snapshot_result r = Inr snapshot \<longleftrightarrow>
     (\<exists>m. r = Inr m \<and> server_status m = STATUS_OK \<and>
        server_payload m = Some (StateSnapshotReply snapshot))"
  by (auto simp: snapshot_result_def split: sum.splits option.splits server_payload.splits if_splits)

lemma request_own_response:
  assumes "client_run cfg es c" and "length es < 2 ^ 64"
  shows "Ping_returns request (Some k) (Inr pong) \<in> set (cl_outcomes c) \<Longrightarrow>
       \<exists>x \<in> set (cl_conns c). \<exists>r \<in> set (delivered x). server_request_id r = k \<and>
          server_status r = STATUS_OK \<and> server_payload r = Some (Pong pong)"
    and "Snapshot_returns (Some k) (Inr snapshot) \<in> set (cl_outcomes c) \<Longrightarrow>
       \<exists>x \<in> set (cl_conns c). \<exists>r \<in> set (delivered x). server_request_id r = k \<and>
          server_status r = STATUS_OK \<and> server_payload r = Some (StateSnapshotReply snapshot)"
proof -
  have "response_inv c" using client_run_requests [OF assms] by simp
  then have inv: "answered_by c oc" if "oc \<in> set (cl_outcomes c)" for oc
    using that by (simp add: response_inv_def list_all_iff)
  show "\<exists>x \<in> set (cl_conns c). \<exists>r \<in> set (delivered x). server_request_id r = k \<and>
      server_status r = STATUS_OK \<and> server_payload r = Some (Pong pong)"
    if "Ping_returns request (Some k) (Inr pong) \<in> set (cl_outcomes c)"
    using inv [OF that]
    by (auto simp: answered_by_def request_outcome_def ping_result_ok received_def
        dest!: ping_result_ok [THEN iffD1, OF sym])
  show "\<exists>x \<in> set (cl_conns c). \<exists>r \<in> set (delivered x). server_request_id r = k \<and>
      server_status r = STATUS_OK \<and> server_payload r = Some (StateSnapshotReply snapshot)"
    if "Snapshot_returns (Some k) (Inr snapshot) \<in> set (cl_outcomes c)"
    using inv [OF that]
    by (auto simp: answered_by_def request_outcome_def snapshot_result_ok received_def
        dest!: snapshot_result_ok [THEN iffD1, OF sym])
qed

text \<open>A call whose wait still runs ends with its time-out.\<close>

lemma sender_times_out:
  assumes tab: "table_inv c" and resp: "response_inv c" and i: "i < length (cl_senders c)"
    and p: "find_pending (snd_requestId (cl_senders c ! i)) (m_manager c) = Some p"
    and Timer_running: "pr_timer p = Timer_running"
  shows "m_connection (m_manager c) \<noteq> None \<and>
     (\<exists>c1 c2. client_exec (Wait_over (snd_requestId (cl_senders c ! i)) Ec_success) c = Some c1 \<and>
        client_exec (Sender_resumed i) c1 = Some c2 \<and>
        cl_outcomes c2 = cl_outcomes c @
          [request_outcome (snd_payload (cl_senders c ! i)) (Some (snd_requestId (cl_senders c ! i)))
             (Inl (Runtime_error ''Request timed out''))])"
proof -
  let ?s = "cl_senders c ! i"
  let ?c1 = "c\<lparr>m_manager := update_pending (expire_pending Ec_success) (snd_requestId ?s) (m_manager c)\<rparr>"
  have e1: "client_exec (Wait_over (snd_requestId ?s) Ec_success) c = Some ?c1"
    using p Timer_running by simp
  have "table_inv ?c1"
    by (rule table_inv_map [OF expiring.pending_operation_axioms
          [of "snd_requestId ?s" Ec_success] tab]) (simp_all add: update_expire_map)
  moreover have i1: "i < length (cl_senders ?c1)" using i by simp
  ultimately obtain q where q: "find_pending (snd_requestId ?s) (m_manager ?c1) = Some q"
    "find_object (snd_pendingRaw ?s) (m_manager ?c1) = Some q"
    using sender_pending [of ?c1 i] by auto
  have "q = expire_pending Ec_success p"
    using q(1) p find_map_pending [of "snd_requestId ?s"
        "expire_if (snd_requestId ?s) Ec_success" "m_manager c"]
    by (simp add: update_expire_map expire_if_def)
  then have qt: "pr_timer q = Timer_done Ec_success"
    using Timer_running by (simp add: expire_pending_def)
  have "client_exec (Sender_resumed i) ?c1 = Some (request_resume i Ec_success ?c1)"
    using i1 q(2) qt by simp
  moreover have "m_connection (m_manager c) \<noteq> None"
    using resp pending_entry [OF p] Timer_running by (fastforce simp: response_inv_def)
  moreover have "cl_outcomes (request_resume i Ec_success ?c1) = cl_outcomes c @
      [request_outcome (snd_payload ?s) (Some (snd_requestId ?s)) (wait_result Ec_success q)]"
    using resume_settled [OF \<open>table_inv ?c1\<close> i1 _ qt] q(2) by simp
  ultimately show ?thesis
    using e1 by (simp add: wait_result_def)
qed

section \<open>Properties\<close>

lemma sample_length: "length sample_client_events < 2 ^ 64"
  by (simp add: sample_client_events_def)

lemma sample_next: "m_nextRequestId (m_manager sample_disconnecting) = 2"
  by code_simp

text \<open>
  C28: how a request begins. In a run of fewer than \<open>2 ^ 64\<close> events a call of \<open>sendRequest\<close> is
  always defined. Without a connection, or with as many requests pending as are allowed, it
  fails at once and changes nothing else; otherwise it gets an identifier no request had
  before, its message with that identifier is posted to the connection, and one entry for it
  is waiting.
\<close>

theorem request_begins:
  assumes "client_run cfg es c" and "Suc (length es) < 2 ^ 64"
  shows "\<exists>c'. client_exec (Call_request payload) c = Some c' \<and>
     (case m_connection (m_manager c) of
        None \<Rightarrow> m_manager c' = m_manager c \<and> cl_conns c' = cl_conns c \<and>
          cl_outcomes c' = cl_outcomes c @
            [request_outcome payload None (Inl (Runtime_error ''Client is not connected''))]
      | Some ref \<Rightarrow>
          if m_maxPendingRequests (m_manager c) \<le> length (m_pendingRequests (m_manager c))
          then m_manager c' = m_manager c \<and> cl_conns c' = cl_conns c \<and>
            cl_outcomes c' = cl_outcomes c @
              [request_outcome payload None (Inl (Runtime_error ''Too many pending client requests''))]
          else \<exists>k a. k \<notin> snd ` set (made c) \<and> made c' = made c @ [(payload, k)] \<and>
            cl_conns c' = (cl_conns c)[ref :=
              send ((request_message payload)\<lparr>client_request_id := k\<rparr>) (cl_conns c ! ref)] \<and>
            m_pendingRequests (m_manager c') =
              m_pendingRequests (m_manager c) @ [(k, PendingRequest a)])"
proof -
  have len: "length es < 2 ^ 64" by (rule Suc_lessD [OF assms(2)])
  have bound: "Suc (cl_allocated c) < 2 ^ 64"
    by (rule order_le_less_trans [OF _ assms(2)]) (simp add: client_run_allocated [OF assms(1)])
  note tab = client_run_table [OF assms(1) len]
  have ids: "ids_inv c" using client_run_requests [OF assms(1) len] by simp
  have fresh: "m_nextRequestId (m_manager c) + 1 \<notin> snd ` set (made c)"
  proof
    let ?n = "m_nextRequestId (m_manager c)"
    assume "?n + 1 \<in> snd ` set (made c)"
    then have "unat (?n + 1) \<in> unat ` snd ` set (made c)" by (rule imageI)
    then have "unat (?n + 1) \<in> set (map (unat \<circ> snd) (made c))" by (simp add: image_comp)
    also have "\<dots> = {1 ..< Suc (unat ?n)}"
      using ids unfolding ids_inv_def by (metis set_mset_mset set_upt)
    finally show False using fresh_request_id(1) [OF tab bound] by simp
  qed
  from tab bound show ?thesis
  proof (cases rule: request_begin_cases [where payload = payload])
    case (accepted ref k)
    then show ?thesis using fresh by (auto simp: made_def)
  next
    case (rejected x)
    then show ?thesis by auto
  qed
qed

theorem request_begins_witness:
  "\<exists>c'. client_exec (Call_request StateSnapshot) sample_disconnecting = Some c' \<and>
     length (m_pendingRequests (m_manager c')) = 2"
proof -
  have 1: "m_connection (m_manager sample_disconnecting) = Some 0"
    "\<not> m_maxPendingRequests (m_manager sample_disconnecting)
        \<le> length (m_pendingRequests (m_manager sample_disconnecting))"
    "length (m_pendingRequests (m_manager sample_disconnecting)) = 1"
    by code_simp+
  have 2: "Suc (length sample_client_events) < 2 ^ 64"
    by (simp add: sample_client_events_def)
  show ?thesis
    using request_begins [OF sample_client_run 2, of StateSnapshot] 1 by auto
qed

text \<open>
  C21: requests and identifiers. In a run of fewer than \<open>2 ^ 64\<close> events the requests made so far
  carry the identifiers 1 to \<open>m_nextRequestId\<close>, each exactly once, whether their call has ended
  or is suspended; no call has ended twice. The suspended calls are, in order, the entries of
  the table, and there are never more of them than the configuration allows.
\<close>

theorem requests_identified:
  assumes "client_run cfg es c" and "length es < 2 ^ 64"
  shows "mset (map (unat \<circ> snd) (made c)) = mset [1 ..< Suc (unat (m_nextRequestId (m_manager c)))] \<and>
     map (\<lambda>s. (snd_requestId s, snd_pendingRaw s)) (cl_senders c) =
       map (\<lambda>(k, p). (k, pr_address p)) (m_pendingRequests (m_manager c)) \<and>
     length (cl_senders c) \<le> m_maxPendingRequests (m_manager c)"
proof -
  have tab: "table_inv c" by (rule client_run_table [OF assms])
  then have same: "map (\<lambda>s. (snd_requestId s, snd_pendingRaw s)) (cl_senders c) =
       map (\<lambda>(k, p). (k, pr_address p)) (m_pendingRequests (m_manager c))"
    by (simp add: table_inv_def waiting_places_def places_def)
  from map_eq_imp_length_eq [OF same] tab have "length (cl_senders c) \<le> m_maxPendingRequests (m_manager c)"
    by (simp add: table_inv_def rq_inv_def)
  with same client_run_requests [OF assms] show ?thesis by (simp only: ids_inv_def)
qed

theorem requests_identified_witness:
  "length (made sample_disconnecting) = 2 \<and> distinct (map snd (made sample_disconnecting))"
proof -
  have "mset (map (unat \<circ> snd) (made sample_disconnecting)) = mset [1 ..< 3]"
    using requests_identified [OF sample_client_run sample_length]
    by (simp add: sample_next)
  then have "length (map (unat \<circ> snd) (made sample_disconnecting)) = 2 \<and>
      distinct (map (unat \<circ> snd) (made sample_disconnecting))"
    by (metis (no_types, lifting) One_nat_def distinct_upt length_upt mset_eq_imp_distinct_iff
        mset_eq_length numeral_3_eq_3 diff_Suc_1 numeral_2_eq_2)
  then show ?thesis by (simp add: distinct_map comp_inj_on_iff inj_on_def)
qed

text \<open>
  C11: a call gets its own answer. If, in a run of fewer than \<open>2 ^ 64\<close> events, a call of
  \<open>sendRequest\<close> that had the identifier \<open>k\<close> returned a result, then a message with status OK,
  with that very identifier and with that result as its payload was read from one of the
  client's connections.
\<close>

theorem request_returns_own_response:
  assumes "client_run cfg es c" and "length es < 2 ^ 64"
  shows "(Ping_returns request (Some k) (Inr pong) \<in> set (cl_outcomes c) \<longrightarrow>
       (\<exists>x \<in> set (cl_conns c). \<exists>r \<in> set (delivered x). server_request_id r = k \<and>
          server_status r = STATUS_OK \<and> server_payload r = Some (Pong pong))) \<and>
     (Snapshot_returns (Some k) (Inr snapshot) \<in> set (cl_outcomes c) \<longrightarrow>
       (\<exists>x \<in> set (cl_conns c). \<exists>r \<in> set (delivered x). server_request_id r = k \<and>
          server_status r = STATUS_OK \<and> server_payload r = Some (StateSnapshotReply snapshot)))"
  using request_own_response [OF assms] by blast

theorem request_returns_own_response_witness:
  "Ping_returns \<lparr>ping_timestamp = 42\<rparr> (Some 1) (Inr \<lparr>pong_timestamp = 42\<rparr>)
     \<in> set (cl_outcomes sample_disconnecting) \<and>
   (\<exists>x \<in> set (cl_conns sample_disconnecting). \<exists>r \<in> set (delivered x). server_request_id r = 1)"
proof -
  have "Ping_returns \<lparr>ping_timestamp = 42\<rparr> (Some 1) (Inr \<lparr>pong_timestamp = 42\<rparr>)
     \<in> set (cl_outcomes sample_disconnecting)"
    by code_simp
  then show ?thesis
    using request_returns_own_response [OF sample_client_run sample_length] by blast
qed

text \<open>
  C20: every call ends. In a run of fewer than \<open>2 ^ 64\<close> events, the object of a suspended call
  is in the table and at its address, so its state is never lost. If its wait is over, the
  call can be resumed at once, and an aborted wait means that the request failed with the
  connection or was completed with a response; if not, there is a connection, and when the
  timer expires the call ends with a timeout. So as soon as the connection is gone no call has
  to wait for its timer.
\<close>

theorem request_can_end:
  assumes "client_run cfg es c" and "length es < 2 ^ 64" and "i < length (cl_senders c)"
  shows "let s = cl_senders c ! i; k = snd_requestId s in
     \<exists>p. find_object (snd_pendingRaw s) (m_manager c) = Some p \<and> find_pending k (m_manager c) = Some p \<and>
       (case pr_timer p of
          Timer_done ec \<Rightarrow>
            (\<exists>c1. client_exec (Sender_resumed i) c = Some c1 \<and>
               cl_outcomes c1 = cl_outcomes c @ [request_outcome (snd_payload s) (Some k) (wait_result ec p)]) \<and>
            (ec = Ec_operation_aborted \<longrightarrow>
               pr_state p = Failed \<or> pr_state p = Completed \<and> pr_response p \<noteq> None)
        | Timer_running \<Rightarrow>
            m_connection (m_manager c) \<noteq> None \<and>
            (\<exists>c1 c2. client_exec (Wait_over k Ec_success) c = Some c1 \<and>
               client_exec (Sender_resumed i) c1 = Some c2 \<and>
               cl_outcomes c2 = cl_outcomes c @
                 [request_outcome (snd_payload s) (Some k) (Inl (Runtime_error ''Request timed out''))]))"
proof -
  let ?s = "cl_senders c ! i"
  have tab: "table_inv c" by (rule client_run_table [OF assms(1,2)])
  have resp: "response_inv c" using client_run_requests [OF assms(1,2)] by simp
  obtain p where p: "find_pending (snd_requestId ?s) (m_manager c) = Some p"
    "find_object (snd_pendingRaw ?s) (m_manager c) = Some p"
    using sender_pending [OF tab assms(3)] by blast
  note entry = pending_entry [OF p(1)]
  show ?thesis
  proof (cases "pr_timer p")
    case (Timer_done ec)
    have "pending_ok (snd_requestId ?s) p"
      using tab entry by (fastforce simp: table_inv_def rq_inv_def)
    then have "ec = Ec_operation_aborted \<longrightarrow>
        pr_state p = Failed \<or> pr_state p = Completed \<and> pr_response p \<noteq> None"
      using Timer_done by (auto simp: pending_ok_def split: PendingState.splits)
    moreover have "client_exec (Sender_resumed i) c = Some (request_resume i ec c)"
      using assms(3) p(2) Timer_done by simp
    ultimately show ?thesis
      using p Timer_done resume_settled [OF tab assms(3) p(2) Timer_done]
      by (simp add: Let_def)
  next
    case Timer_running
    then show ?thesis
      using p sender_times_out [OF tab resp assms(3) p(1)] by (simp add: Let_def)
  qed
qed

theorem request_can_end_witness:
  "\<exists>p. find_object 1 (m_manager sample_disconnecting) = Some p \<and>
     pr_timer p = Timer_done Ec_operation_aborted \<and> pr_state p = Failed"
proof -
  have 1: "0 < length (cl_senders sample_disconnecting)"
    "snd_pendingRaw (cl_senders sample_disconnecting ! 0) = 1"
    "map_option pr_timer (find_object 1 (m_manager sample_disconnecting)) =
       Some (Timer_done Ec_operation_aborted)"
    "map_option pr_response (find_object 1 (m_manager sample_disconnecting)) = Some None"
    by code_simp+
  show ?thesis
    using request_can_end [OF sample_client_run sample_length 1(1)] 1(2-)
    by (auto simp: Let_def)
qed

end
