(* ===== verification/End_To_End.thy ===== *)
theory End_To_End
  imports Server Client_Requests
begin

text \<open>
  The client against the server: what the server's handler answers to the messages the client
  makes of its requests, and what the client makes of the answers, through the request table
  and any interleaving of its other calls.
\<close>

text \<open>
  The two ends agree on the protocol. If the server's handler answers the message the
  client makes of a request, the answer carries the request's identifier, and the client reads
  from it what was asked for: the pong of a ping has the ping's time stamp, and a state
  snapshot is the text of the world the handler left behind. The handler fails only if the
  client cannot be connected to a player or the world cannot be turned into text.
\<close>

lemma protocol_agrees:
  "case onMessage dump cid ((request_message payload)\<lparr>client_request_id := k\<rparr>) v of
     (Inr r, v') \<Rightarrow>
       server_request_id r = k \<and>
       (case payload of
          Ping request \<Rightarrow>
            ping_result (Inr r) = Inr \<lparr>pong_timestamp = ping_timestamp request\<rparr>
        | StateSnapshot \<Rightarrow>
            (\<exists>text. snapshotJson dump v' = Inr text \<and>
               snapshot_result (Inr r) = Inr \<lparr>state_json = text\<rparr>))
   | (Inl x, v') \<Rightarrow>
       fst (connect (raw_id cid) v) = Inl x \<or>
       payload = StateSnapshot \<and> snapshotJson dump v' = Inl x"
  by (auto simp: onMessage_def request_message_def new_ClientMessage_def new_ServerMessage_def
      ping_result_def snapshot_result_def Let_def
      split: sum.splits prod.splits client_payload.splits)

lemma made_distinct: "ids_inv c \<Longrightarrow> distinct (map snd (made c))"
proof -
  assume "ids_inv c"
  then have "distinct (map (unat \<circ> snd) (made c))"
    unfolding ids_inv_def by (metis distinct_upt mset_eq_imp_distinct_iff)
  then have "distinct (map unat (map snd (made c)))" by simp
  then show ?thesis unfolding distinct_map by simp
qed

text \<open>
  A ping comes back with its own time stamp. Suppose that every message a client read,
  in a run of fewer than \<open>2 ^ 64\<close> events, answers the request that has its identifier, as the
  server's messages do. Then every call of \<open>sendRequest\<close> for a ping that returned a pong
  returned the time stamp it had sent, whatever other calls, timeouts and reconnections the
  run has.
\<close>

lemma ping_echo:
  assumes "client_run cfg es c" and "length es < 2 ^ 64"
    and "\<forall>r \<in> received c. \<exists>payload. (payload, server_request_id r) \<in> set (made c) \<and>
       answers ((request_message payload)\<lparr>client_request_id := server_request_id r\<rparr>) r"
    and "Ping_returns request (Some k) (Inr pong) \<in> set (cl_outcomes c)"
  shows "pong_timestamp pong = ping_timestamp request"
proof -
  obtain x r where r: "x \<in> set (cl_conns c)" "r \<in> set (delivered x)" "server_request_id r = k"
    "server_payload r = Some (Pong pong)"
    using request_own_response(1) [OF assms(1,2,4)] by blast
  then have "r \<in> received c" by (auto simp: received_def)
  then obtain payload where p: "(payload, k) \<in> set (made c)"
    "answers ((request_message payload)\<lparr>client_request_id := k\<rparr>) r"
    using assms(3) r(3) by blast
  have "(Ping request, k) \<in> set (made c)"
    using assms(4) by (force simp: made_def List.map_filter_def)
  moreover have "inj_on snd (set (made c))"
    using client_run_requests [OF assms(1,2)] made_distinct by (simp add: distinct_map)
  ultimately have "(payload, k) = (Ping request, k)"
    using p(1) by (intro inj_onD [of snd "set (made c)"]) simp_all
  then have "payload = Ping request" by simp
  with p(2) r(4) show ?thesis
    by (auto simp: answers_def request_message_def new_ClientMessage_def)
qed

end
