(* ===== verification/Streams.thy ===== *)
theory Streams
  imports Server Client_Requests
begin

text \<open>
  What the connections of the two programs carry: the stream of messages a connection puts on
  the wire, the messages it still holds, and how one step of the server or of the client changes
  them. This is what the composition of the two programs over the network needs of each.
\<close>

section \<open>The stream of a connection\<close>

text \<open>The messages on the wire: those written and the one being written.\<close>

definition stream :: "('i, 'o) conn \<Rightarrow> 'o list" where
  "stream c = written c @ in_flight c"

text \<open>All the messages a connection was given that it has not dropped.\<close>

definition outgoing :: "('i, 'o) conn \<Rightarrow> 'o set" where
  "outgoing c = set (stream c) \<union> set (m_writeQueue c) \<union> set (pending_sends c)"

lemma stream_outgoing: "set (stream c) \<subseteq> outgoing c"
  by (auto simp: outgoing_def)

fun write_fails :: "('i, 'o) conn_event \<Rightarrow> bool" where
  "write_fails (Message_written i (Inl x)) = True"
| "write_fails e = False"

text \<open>
  \<open>carries ds ms fails c c'\<close>: between \<open>c\<close> and \<open>c'\<close> the messages \<open>ds\<close> were read, none but the
  messages \<open>ms\<close> were given to the connection, and what is on the wire stays there, but for the
  message whose write fails.
\<close>

definition carries ::
  "'i list \<Rightarrow> 'o set \<Rightarrow> bool \<Rightarrow> ('i, 'o) conn \<Rightarrow> ('i, 'o) conn \<Rightarrow> bool" where
  "carries ds ms fails c c' \<longleftrightarrow>
     delivered c' = delivered c @ ds \<and> outgoing c' \<subseteq> outgoing c \<union> ms \<and>
     (if fails then stream c' = written c else prefix (stream c) (stream c'))"

lemma carries_refl: "carries [] {} False c c"
  by (simp add: carries_def)

lemma carries_posts: "post_sends p = [] \<Longrightarrow> carries [] {} False c (c\<lparr>posts := posts c @ [p]\<rparr>)"
  by (simp add: carries_def outgoing_def stream_def in_flight_def pending_sends_def)

lemma carries_send: "carries [] {m} False c (send m c)"
  by (auto simp: carries_def outgoing_def stream_def in_flight_def pending_sends_def send_def)

lemma carries_read_loops: "carries [] {} False c (c\<lparr>read_loops := rs\<rparr>)"
  by (simp add: carries_def outgoing_def stream_def in_flight_def pending_sends_def)

lemma carries_stopImpl: "carries [] {} False c (stopImpl reason c)"
  by (auto simp: carries_def outgoing_def stream_def in_flight_def pending_sends_def stopImpl_def
      notifyClosed_def)

lemma carries_trans:
  assumes "carries ds ms fails c c1" and "carries [] ms' False c1 c2" and "\<not> fails"
  shows "carries ds (ms \<union> ms') False c c2"
  using assms unfolding carries_def by (auto intro: prefix_order.trans)

lemma carries_trans0:
  assumes "carries [] {} False c c1" and "carries [] {} False c1 c2"
  shows "carries [] {} False c c2"
  using carries_trans [OF assms] by simp

lemma carries_weaken:
  "carries ds ms fails c c' \<Longrightarrow> ms \<subseteq> ms' \<Longrightarrow> carries ds ms' fails c c'"
  by (auto simp: carries_def)

lemmas carries_same = carries_weaken [OF carries_refl empty_subsetI]

lemma carries_readLoop_test: "carries [] {} False c (readLoop_test i c)"
  by (simp add: readLoop_test_def carries_read_loops)

lemma carries_readLoop_handler: "carries [] {} False c (readLoop_handler i r c)"
  using carries_trans0 [OF carries_stopImpl carries_read_loops]
  by (auto simp: readLoop_handler_def carries_readLoop_test split: sum.splits)

lemma carries_readLoop_message:
  "carries (read_by c (Message_read i r)) {} False c (readLoop_message i r c)"
proof (cases r)
  case (Inl x)
  then show ?thesis
    using carries_trans0 [OF carries_stopImpl carries_read_loops]
    by (simp add: readLoop_message_def)
next
  case (Inr m)
  then show ?thesis
    by (auto simp: readLoop_message_def carries_read_loops)
      (simp add: carries_def outgoing_def stream_def in_flight_def pending_sends_def)
qed

lemma carries_run_post:
  assumes "posts c = p # ps"
  shows "carries [] {} False c (run_post p (c\<lparr>posts := ps\<rparr>))"
proof (cases p)
  case (Post_send m)
  with assms show ?thesis
    by (auto simp: carries_def outgoing_def stream_def in_flight_def pending_sends_def sendImpl_def
        stopImpl_def notifyClosed_def Let_def)
qed (use assms in \<open>auto simp: carries_def outgoing_def stream_def in_flight_def pending_sends_def
       startImpl_def stopImpl_def notifyClosed_def\<close>)

lemma carries_writer:
  assumes "conn_inv c" and "i < length (write_loops c)" and "in_flight c = []"
  shows "carries [] {} False c (writeLoop_test i c)"
proof -
  have "length (write_loops c) \<le> 1" using assms(1) by (simp add: conn_inv_def loops_inv_def)
  with assms(2) obtain w where w: "write_loops c = [w]" "i = 0"
    using single_loop [of "write_loops c" i] by blast
  then show ?thesis
    using assms(3)
    by (cases "m_writeQueue c")
      (auto simp: writeLoop_test_def carries_def outgoing_def stream_def in_flight_def
        pending_sends_def remove_at_def)
qed

lemma carries_written:
  assumes "conn_inv c" and "i < length (write_loops c)" and "write_loops c ! i = Write_awaits m"
  shows "carries [] {} (write_fails (Message_written i w)) c (writeLoop_written i m w c)"
proof -
  have "length (write_loops c) \<le> 1" using assms(1) by (simp add: conn_inv_def loops_inv_def)
  with assms(2,3) have w: "write_loops c = [Write_awaits m]" "i = 0"
    using single_loop [of "write_loops c" i] by auto
  show ?thesis
  proof (cases w)
    case (Inl x)
    with w(1) \<open>i = 0\<close> show ?thesis
      by (auto simp: writeLoop_written_def carries_def outgoing_def stream_def in_flight_def
          pending_sends_def remove_at_def stopImpl_def notifyClosed_def)
  next
    case (Inr u)
    with w(1) \<open>i = 0\<close> show ?thesis
      by (cases "m_writeQueue c")
        (auto simp: writeLoop_written_def writeLoop_test_def carries_def outgoing_def stream_def
          in_flight_def pending_sends_def remove_at_def)
  qed
qed

lemma conn_step_carries:
  assumes "conn_step c e c'" and "conn_inv c"
  shows "carries (read_by c e) (set (sent_by e)) (write_fails e) c c'"
  using assms(1)
proof cases
  case (run_writer i)
  then have "in_flight c = []"
    using assms(2) single_loop [of "write_loops c" i]
    by (auto simp: conn_inv_def loops_inv_def in_flight_def)
  with run_writer assms(2) show ?thesis by (simp add: carries_writer)
next
  case (message_written i m w)
  with carries_written [OF assms(2)] show ?thesis by simp
next
  case (message_read i r)
  with carries_readLoop_message [of c i r] show ?thesis by simp
qed (simp_all add: start_def stop_def carries_posts carries_send carries_run_post
      carries_readLoop_test carries_readLoop_handler)

lemma carries_create: "connection_create cid cfg hm hc = Inr c \<Longrightarrow> delivered c = [] \<and> outgoing c = {}"
  by (auto simp: connection_create_def outgoing_def stream_def in_flight_def pending_sends_def
      split: if_splits)

section \<open>A step of the server\<close>

text \<open>What an event of the server reads from a connection, and whether it loses a write there.\<close>

fun server_reads :: "server \<Rightarrow> server_event \<Rightarrow> conn_ref \<Rightarrow> ClientMessage list" where
  "server_reads s (Strand r e) ref = (if r = ref then read_by (srv_heap s ! r) e else [])"
| "server_reads s e ref = []"

fun server_loses :: "server_event \<Rightarrow> conn_ref \<Rightarrow> bool" where
  "server_loses (Strand r e) ref \<longleftrightarrow> r = ref \<and> write_fails e"
| "server_loses e ref \<longleftrightarrow> False"

text \<open>
  The responses a step gives to a connection: the answer to the message it delivers, with the
  world that is left behind.
\<close>

definition responses ::
  "(json \<Rightarrow> string result) \<Rightarrow> server \<Rightarrow> server_event \<Rightarrow> server \<Rightarrow> conn_ref \<Rightarrow> ServerMessage set" where
  "responses dump s e s' ref =
     {response. \<exists>message \<in> set (server_reads s e ref).
        onMessage dump (id_at ref) message (srv_service s) = (Inr response, srv_service s')}"

lemma carries_stop: "carries [] {} False c (stop c)"
  by (simp add: stop_def carries_posts)

lemma for_each_stop:
  "length (for_each stop refs h) = length h \<and>
     (\<forall>ref < length h. carries [] {} False (h ! ref) (for_each stop refs h ! ref))"
proof (induction refs arbitrary: h)
  case Nil
  then show ?case by (simp add: for_each_def carries_refl)
next
  case (Cons r refs)
  let ?h = "h[r := stop (h ! r)]"
  have "carries [] {} False (h ! ref) (?h ! ref)" if "ref < length h" for ref
    using that by (cases "ref = r") (simp_all add: carries_stop carries_refl)
  moreover have "for_each stop (r # refs) h = for_each stop refs ?h"
    by (simp add: for_each_def)
  ultimately show ?case
    using Cons.IH [of ?h] carries_trans0 by (metis length_list_update)
qed

lemma settle_service:
  assumes "\<not> closed_calls (srv_heap s ! ref) < closed_calls c'"
  shows "settle ref c' s = s\<lparr>srv_heap := (srv_heap s)[ref := c']\<rparr>"
  using assms by (simp add: settle_def Let_def)

lemma deliver_carries:
  assumes inv: "server_inv s" and ref: "ref < length (srv_heap s)"
  shows "carries [] {response. onMessage dump (id_at ref) message (srv_service s) =
           (Inr response, srv_service (deliver dump ref i message s))} False
         (srv_heap s ! ref) (srv_heap (deliver dump ref i message s) ! ref)"
    and "r \<noteq> ref \<Longrightarrow> srv_heap (deliver dump ref i message s) ! r = srv_heap s ! r"
    and "length (srv_heap (deliver dump ref i message s)) = length (srv_heap s)"
proof -
  let ?c = "srv_heap s ! ref"
  have cid: "m_id ?c = id_at ref" using inv ref by (simp add: server_invD heap_invD)
  obtain res v where om: "onMessage dump (id_at ref) message (srv_service s) = (res, v)"
    by fastforce
  note eq = handleMessage_eq [OF inv ref, of dump message, unfolded om]
  have "carries [] {response. onMessage dump (id_at ref) message (srv_service s) =
           (Inr response, srv_service (deliver dump ref i message s))} False
         ?c (srv_heap (deliver dump ref i message s) ! ref) \<and>
      (r \<noteq> ref \<longrightarrow> srv_heap (deliver dump ref i message s) ! r = srv_heap s ! r) \<and>
      length (srv_heap (deliver dump ref i message s)) = length (srv_heap s)"
  proof (cases res)
    case (Inl x)
    then show ?thesis
      using eq cid ref carries_weaken [OF carries_readLoop_handler]
      by (simp add: deliver_def)
  next
    case (Inr response)
    let ?c1 = "if mc_stopped (srv_manager s) \<or> m_closed ?c then ?c else send response ?c"
    let ?h = "(srv_heap s)[ref := ?c1]"
    have h: "(if mc_stopped (srv_manager s) \<or> m_closed ?c then srv_heap s
        else (srv_heap s)[ref := send response ?c]) = ?h"
      by simp
    have c1: "carries [] {response} False ?c ?c1"
      by (simp add: carries_send carries_same)
    have c2: "carries [] {response} False ?c (readLoop_handler i (Inr ()) ?c1)"
      using carries_trans [OF c1 carries_readLoop_handler] by simp
    have "closed_calls (readLoop_handler i (Inr ()) c) = closed_calls c" for c :: server_conn
      by (simp add: readLoop_handler_def readLoop_test_def)
    then have "deliver dump ref i message s = s\<lparr>srv_service := v,
        srv_heap := ?h[ref := readLoop_handler i (Inr ()) (?h ! ref)]\<rparr>"
      using eq cid Inr by (simp add: deliver_def h settle_service)
    then show ?thesis using c2 om Inr ref by (simp add: carries_weaken)
  qed
  then show "carries [] {response. onMessage dump (id_at ref) message (srv_service s) =
           (Inr response, srv_service (deliver dump ref i message s))} False
         ?c (srv_heap (deliver dump ref i message s) ! ref)"
    and "r \<noteq> ref \<Longrightarrow> srv_heap (deliver dump ref i message s) ! r = srv_heap s ! r"
    and "length (srv_heap (deliver dump ref i message s)) = length (srv_heap s)"
    by blast+
qed

lemma run_strand_carries:
  assumes inv: "server_inv s" and ref: "ref < length (srv_heap s)"
    and step: "conn_step (srv_heap s ! ref) e c'" and "strand_event e"
    and s'_def: "s' = run_strand dump ref e c' s"
  shows "carries (server_reads s (Strand ref e) ref) (responses dump s (Strand ref e) s' ref)
           (write_fails e) (srv_heap s ! ref) (srv_heap s' ! ref)"
    and "r \<noteq> ref \<Longrightarrow> srv_heap s' ! r = srv_heap s ! r"
    and "length (srv_heap s') = length (srv_heap s)"
proof -
  let ?c = "srv_heap s ! ref"
  have c: "conn_inv ?c" using inv ref by (simp add: server_invD heap_invD)
  have "sent_by e = []" using assms(4) by (cases e) simp_all
  with conn_step_carries [OF step c] have carries: "carries (read_by ?c e) {} (write_fails e) ?c c'"
    by simp
  have "carries (server_reads s (Strand ref e) ref) (responses dump s (Strand ref e) s' ref)
           (write_fails e) ?c (srv_heap s' ! ref) \<and>
      (r \<noteq> ref \<longrightarrow> srv_heap s' ! r = srv_heap s ! r) \<and> length (srv_heap s') = length (srv_heap s)"
  proof (cases "\<exists>i message. e = Message_read i (Inr message) \<and> \<not> m_closed ?c")
    case False
    then have "s' = settle ref c' s"
      unfolding s'_def by (cases "(dump, ref, e, c', s)" rule: run_strand.cases) auto
    with carries_weaken [OF carries empty_subsetI] ref show ?thesis by simp
  next
    case True
    then obtain i message where e: "e = Message_read i (Inr message)" and open_c: "\<not> m_closed ?c"
      by blast
    let ?s1 = "settle ref c' s"
    have "closed_calls c' = closed_calls ?c"
      using step e open_c by (auto simp: readLoop_message_def elim!: conn_step_elims)
    then have s1: "?s1 = s\<lparr>srv_heap := (srv_heap s)[ref := c']\<rparr>"
      by (simp add: settle_service)
    have s': "s' = deliver dump ref i message ?s1" using e open_c by (simp add: s'_def)
    have inv1: "server_inv ?s1"
      using settle_inv [OF inv ref later_step [OF step c]] .
    have "ref < length (srv_heap ?s1)" using ref by simp
    note d = deliver_carries [OF inv1 this, where dump = dump and message = message and i = i, folded s']
    have "{response. onMessage dump (id_at ref) message (srv_service ?s1) =
        (Inr response, srv_service s')} \<subseteq> responses dump s (Strand ref e) s' ref"
      using e open_c s1 by (auto simp: responses_def)
    with d(1) ref have "carries [] (responses dump s (Strand ref e) s' ref) False c' (srv_heap s' ! ref)"
      by (simp add: carries_weaken)
    moreover have "carries [message] {} False ?c c'"
      using carries e open_c by simp
    ultimately have "carries [message] (responses dump s (Strand ref e) s' ref) False ?c
        (srv_heap s' ! ref)"
      using carries_trans by fastforce
    then show ?thesis using d(2,3) e open_c by simp
  qed
  then show "carries (server_reads s (Strand ref e) ref) (responses dump s (Strand ref e) s' ref)
           (write_fails e) ?c (srv_heap s' ! ref)"
    and "r \<noteq> ref \<Longrightarrow> srv_heap s' ! r = srv_heap s ! r"
    and "length (srv_heap s') = length (srv_heap s)"
    by blast+
qed

text \<open>Every step, for the connections there were and for the new ones.\<close>

lemma server_step_carries:
  assumes inv: "server_inv s" and step: "server_step dump s e s'"
  shows "length (srv_heap s) \<le> length (srv_heap s')"
    and "ref < length (srv_heap s) \<Longrightarrow>
      carries (server_reads s e ref) (responses dump s e s' ref) (server_loses e ref)
        (srv_heap s ! ref) (srv_heap s' ! ref)"
    and "length (srv_heap s) \<le> ref \<Longrightarrow> ref < length (srv_heap s') \<Longrightarrow>
      delivered (srv_heap s' ! ref) = [] \<and> outgoing (srv_heap s' ! ref) = {}"
proof -
  let ?goal = "length (srv_heap s) \<le> length (srv_heap s') \<and>
    (ref < length (srv_heap s) \<longrightarrow>
      carries (server_reads s e ref) (responses dump s e s' ref) (server_loses e ref)
        (srv_heap s ! ref) (srv_heap s' ! ref)) \<and>
    (length (srv_heap s) \<le> ref \<longrightarrow> ref < length (srv_heap s') \<longrightarrow>
      delivered (srv_heap s' ! ref) = [] \<and> outgoing (srv_heap s' ! ref) = {})"
  from step have ?goal
  proof cases
    case accepted
    from inv accepted(3) show ?thesis
    proof (cases rule: accept_socket_cases)
      case (ends m)
      with accepted show ?thesis by (simp add: carries_same)
    next
      case (new c m)
      have "delivered (start c) = [] \<and> outgoing (start c) = {}"
        using carries_create [OF new(2)]
        by (auto simp: start_def outgoing_def stream_def in_flight_def pending_sends_def)
      with accepted new(3) show ?thesis
        by (auto simp: nth_append carries_same)
    qed
  next
    case (accept_failed ec)
    then show ?thesis by (simp add: accept_error_def carries_same)
  next
    case (stopping order)
    then show ?thesis
      using for_each_stop [of _ "srv_heap s"]
      by (auto simp: stop_server_def manager_stopAll_def Let_def carries_same
          carries_weaken [OF _ empty_subsetI])
  next
    case (strand r e' c')
    note rs = run_strand_carries [OF inv strand(3,5,4,2)]
    from rs(1,3) rs(2) [of ref] strand(1) show ?thesis
      by (cases "ref = r") (auto simp: carries_same)
  qed
  then show "length (srv_heap s) \<le> length (srv_heap s')"
    and "ref < length (srv_heap s) \<Longrightarrow>
      carries (server_reads s e ref) (responses dump s e s' ref) (server_loses e ref)
        (srv_heap s ! ref) (srv_heap s' ! ref)"
    and "length (srv_heap s) \<le> ref \<Longrightarrow> ref < length (srv_heap s') \<Longrightarrow>
      delivered (srv_heap s' ! ref) = [] \<and> outgoing (srv_heap s' ! ref) = {}"
    by blast+
qed

section \<open>A step of the client\<close>

fun client_reads :: "client \<Rightarrow> client_event \<Rightarrow> nat \<Rightarrow> ServerMessage list" where
  "client_reads c (Conn_event q e) r = (if q = r then read_by (cl_conns c ! q) e else [])"
| "client_reads c e r = []"

fun client_loses :: "client_event \<Rightarrow> nat \<Rightarrow> bool" where
  "client_loses (Conn_event q e) r \<longleftrightarrow> q = r \<and> write_fails e"
| "client_loses e r \<longleftrightarrow> False"

text \<open>The messages of the requests the client has made.\<close>

definition requests :: "client \<Rightarrow> ClientMessage set" where
  "requests c =
     {(request_message payload)\<lparr>client_request_id := k\<rparr> | payload k. (payload, k) \<in> set (made c)}"

lemma requests_mono: "set (made c) \<subseteq> set (made c') \<Longrightarrow> requests c \<subseteq> requests c'"
  by (auto simp: requests_def)

lemma request_begin_sends:
  assumes "request_begin payload c = Some c'"
  obtains (fails) "cl_conns c' = cl_conns c" and "set (made c') = set (made c)"
  | (sends) ref k
    where "cl_conns c' = (cl_conns c)[ref :=
            send ((request_message payload)\<lparr>client_request_id := k\<rparr>) (cl_conns c ! ref)]"
      and "set (made c') = insert (payload, k) (set (made c))"
  using assms
  by (auto simp: request_begin_def send_begin_def made_def map_filter_append map_filter_single Let_def
      split: option.splits if_splits prod.splits sum.splits fault.splits)

lemma made_mono:
  assumes "client_exec e c = Some c'"
  shows "set (made c) \<subseteq> set (made c')"
proof (cases "request_event e")
  case False
  from other_event_frame [OF assms False] have "made c' = made c"
    by (auto simp: made_def map_filter_append map_filter_none)
  then show ?thesis by simp
next
  case True
  then consider payload where "e = Call_request payload" | i where "e = Sender_resumed i"
    by (cases e) auto
  then show ?thesis
  proof cases
    case (1 payload)
    with assms have "request_begin payload c = Some c'" by simp
    then show ?thesis by (cases rule: request_begin_sends) auto
  next
    case (2 i)
    with assms obtain ec where "i < length (cl_senders c)" "c' = request_resume i ec c"
      by (metis sender_resumedD)
    with made_resume have "mset (made c') = mset (made c)"
      by (simp add: request_resume_def case_prod_unfold Let_def)
    then show ?thesis by (metis mset_eq_setD order_refl)
  qed
qed

text \<open>Every step, for the connections there were and for the new ones.\<close>

definition conns_carry :: "client \<Rightarrow> client_event \<Rightarrow> client \<Rightarrow> bool" where
  "conns_carry c e c' \<longleftrightarrow>
     length (cl_conns c) \<le> length (cl_conns c') \<and>
     (\<forall>q < length (cl_conns c).
        carries (client_reads c e q) (requests c') (client_loses e q) (cl_conns c ! q) (cl_conns c' ! q)) \<and>
     (\<forall>q < length (cl_conns c'). length (cl_conns c) \<le> q \<longrightarrow>
        delivered (cl_conns c' ! q) = [] \<and> outgoing (cl_conns c' ! q) = {})"

lemma conns_carry_same:
  "cl_conns c' = cl_conns c \<Longrightarrow> \<forall>q. client_reads c e q = [] \<and> \<not> client_loses e q \<Longrightarrow>
     conns_carry c e c'"
  by (simp add: conns_carry_def carries_same)

lemma conns_carry_update:
  assumes "cl_conns c' = (cl_conns c)[ref := x]"
    and "ref < length (cl_conns c) \<Longrightarrow>
      carries (client_reads c e ref) ms (client_loses e ref) (cl_conns c ! ref) x"
    and "ms \<subseteq> requests c'"
    and "\<forall>q. q \<noteq> ref \<longrightarrow> client_reads c e q = [] \<and> \<not> client_loses e q"
  shows "conns_carry c e c'"
proof -
  have "carries (client_reads c e q) (requests c') (client_loses e q) (cl_conns c ! q) (cl_conns c' ! q)"
    if "q < length (cl_conns c)" for q
    using that carries_weaken [OF assms(2,3)] assms(1,4) by (cases "q = ref") (auto simp: carries_same)
  with assms(1) show ?thesis by (simp add: conns_carry_def)
qed

lemma rq_start_conns:
  "\<exists>ys. fst (snd (rq_start b xs m)) = xs @ ys \<and> (\<forall>y \<in> set ys. delivered y = [] \<and> outgoing y = {})"
proof -
  have "delivered (start x) = [] \<and> outgoing (start x) = {}"
    if "connection_create cid cfg hm hc = Inr x" for cid cfg hm hc and x :: client_conn
    using carries_create [OF that]
    by (auto simp: start_def outgoing_def stream_def in_flight_def pending_sends_def)
  then show ?thesis
    by (auto simp: rq_start_def split: sum.splits)
qed

lemma connect_resume_conns:
  "cl_conns (connect_resume ec c) = cl_conns c \<or>
     cl_conns (connect_resume ec c) = fst (snd (rq_start True (cl_conns c) (m_manager c)))"
  by (cases "rq_start True (cl_conns c) (m_manager c)")
    (simp add: connect_resume_def connect_failed_def Let_def split: sum.splits)

lemma client_exec_carries:
  assumes link: "link_inv c" and exec: "client_exec e c = Some c'"
  shows "conns_carry c e c'"
proof (cases e)
  case Call_connect
  with exec show ?thesis
    by (intro conns_carry_same) (auto simp: connect_begin_def)
next
  case (Connect_done ec)
  obtain ys where "fst (snd (rq_start True (cl_conns c) (m_manager c))) = cl_conns c @ ys"
    "\<forall>y \<in> set ys. delivered y = [] \<and> outgoing y = {}"
    using rq_start_conns by blast
  with connect_resume_conns [of ec c] Connect_done exec
  obtain ys where "cl_conns c' = cl_conns c @ ys" "\<forall>y \<in> set ys. delivered y = [] \<and> outgoing y = {}"
    by (auto split: if_splits)
  with Connect_done show ?thesis
    by (auto simp: conns_carry_def nth_append carries_same)
next
  case Call_disconnect
  then consider "cl_conns c' = cl_conns c"
    | ref where "cl_conns c' = (cl_conns c)[ref := stop (cl_conns c ! ref)]"
    using exec by (auto simp: disconnect_begin_def rq_stop_def case_prod_unfold Let_def
        split: ConnectionState.splits option.splits)
  then show ?thesis
  proof cases
    case 1
    with Call_disconnect show ?thesis by (intro conns_carry_same) simp_all
  next
    case (2 ref)
    then show ?thesis
      by (rule conns_carry_update [where ms = "{}"])
        (use Call_disconnect in \<open>simp_all add: carries_stop\<close>)
  qed
next
  case (Waiter_resumed i)
  with exec have "cl_conns c' = cl_conns c"
    by (auto simp: disconnect_resume_def Let_def split: if_splits waiter.splits)
  with Waiter_resumed show ?thesis by (intro conns_carry_same) simp_all
next
  case (Call_request payload)
  with exec have "request_begin payload c = Some c'" by simp
  then show ?thesis
  proof (cases rule: request_begin_sends)
    case fails
    with Call_request show ?thesis by (intro conns_carry_same) simp_all
  next
    case (sends ref k)
    from sends(1) show ?thesis
      by (rule conns_carry_update)
        (use Call_request sends(2) in \<open>auto simp: requests_def intro: carries_send\<close>)
  qed
next
  case (Wait_over k ec)
  with exec show ?thesis
    by (intro conns_carry_same) (auto split: if_splits option.splits)
next
  case (Sender_resumed i)
  then obtain ec where "c' = request_resume i ec c"
    using exec by (metis sender_resumedD)
  then have "cl_conns c' = cl_conns c"
    by (simp add: request_resume_def case_prod_unfold Let_def)
  with Sender_resumed show ?thesis by (intro conns_carry_same) simp_all
next
  case Posted_close
  with exec have "cl_conns c' = cl_conns c"
    by (auto simp: client_connectionClosed_def cm_connectionClosed_def Let_def
        split: if_splits prod.splits)
  with Posted_close show ?thesis by (intro conns_carry_same) simp_all
next
  case (Received ref i)
  with exec have "cl_conns c' = (cl_conns c)[ref := readLoop_handler i (Inr ()) (cl_conns c ! ref)]"
    by (auto simp: client_receive_def split: if_splits read_loop.splits)
  then show ?thesis
    by (rule conns_carry_update [where ms = "{}"])
      (use Received in \<open>simp_all add: carries_readLoop_handler\<close>)
next
  case (Conn_event ref e')
  with exec obtain x where x: "ref < length (cl_conns c)" "conn_internal e'"
    "conn_exec e' (cl_conns c ! ref) = Some x" "c' = client_settle ref x c"
    by (auto split: if_splits)
  then have "conn_step (cl_conns c ! ref) e' x" by (simp add: conn_step_iff_exec)
  note step = conn_step_carries [OF this link_invD(1) [OF link x(1)]]
  have "sent_by e' = []" using x(2) by (cases e') simp_all
  with step have "carries (read_by (cl_conns c ! ref) e') {} (write_fails e') (cl_conns c ! ref) x"
    by simp
  moreover have "cl_conns c' = (cl_conns c)[ref := x]" using x(4) by simp
  ultimately show ?thesis
    by (intro conns_carry_update [where ref = ref and ms = "{}"]) (use Conn_event in simp_all)
qed

text \<open>The connections of a client hold nothing but the messages of its requests.\<close>

lemma client_run_outgoing:
  "client_run cfg es c \<Longrightarrow> q < length (cl_conns c) \<Longrightarrow> outgoing (cl_conns c ! q) \<subseteq> requests c"
proof (induction arbitrary: q rule: client_run.induct)
  case (client_start c)
  then show ?case by (auto simp: client_create_def split: sum.splits)
next
  case (client_next es c e c')
  have carry: "conns_carry c e c'"
    using client_exec_carries client_run_link [OF client_next(1)] client_next(2) by blast
  show ?case
  proof (cases "q < length (cl_conns c)")
    case True
    with carry have "outgoing (cl_conns c' ! q) \<subseteq> outgoing (cl_conns c ! q) \<union> requests c'"
      by (auto simp: conns_carry_def carries_def)
    with client_next.IH [OF True] requests_mono [OF made_mono [OF client_next(2)]] show ?thesis
      by blast
  next
    case False
    with carry client_next.prems show ?thesis by (simp add: conns_carry_def)
  qed
qed

end
