(* ===== verification/System.thy ===== *)
theory System
  imports Streams End_To_End
begin

text \<open>
  The two programs together: one server and any number of clients, each a machine of its own,
  whose connections are joined by the network. The network is TCP: what one end of a joined pair
  of connections reads is what the other end wrote, in that order and without loss, and a
  message can be read before the call that wrote it returns. That whole messages arrive this way
  over the byte stream is the round trip of \<open>MessageChannel\<close>; that a failed write delivers no
  message is proved there too.
\<close>

section \<open>The system\<close>

record system =
  sys_server :: server
  sys_clients :: "client list"

text \<open>
  Which connection of which client is at the other end of a connection of the server. A
  connection the wiring leaves out has a foreign peer, which may send anything. The wiring is
  fixed for a run and may join connections before both ends exist, so it covers every order in
  which the two ends of a socket are set up.
\<close>

type_synonym wiring = "conn_ref \<Rightarrow> (nat \<times> nat) option"

text \<open>A connection by its place, if there is one; what it got, put on the wire and wrote in full.\<close>

definition at :: "'a list \<Rightarrow> nat \<Rightarrow> 'a option" where
  "at xs i = (if i < length xs then Some (xs ! i) else None)"

definition server_end :: "system \<Rightarrow> conn_ref \<Rightarrow> server_conn option" where
  "server_end s ref = at (srv_heap (sys_server s)) ref"

definition client_end :: "system \<Rightarrow> nat \<times> nat \<Rightarrow> client_conn option" where
  "client_end s p = Option.bind (at (sys_clients s) (fst p)) (\<lambda>c. at (cl_conns c) (snd p))"

definition got :: "('i, 'o) conn option \<Rightarrow> 'i list" where
  "got x = (case x of None \<Rightarrow> [] | Some c \<Rightarrow> delivered c)"

definition on_wire :: "('i, 'o) conn option \<Rightarrow> 'o list" where
  "on_wire x = (case x of None \<Rightarrow> [] | Some c \<Rightarrow> stream c)"

definition wrote :: "('i, 'o) conn option \<Rightarrow> 'o list" where
  "wrote x = (case x of None \<Rightarrow> [] | Some c \<Rightarrow> written c)"

definition wired_to :: "wiring \<Rightarrow> system \<Rightarrow> nat \<times> nat \<Rightarrow> conn_ref list" where
  "wired_to w s p = filter (\<lambda>ref. w ref = Some p) [0 ..< length (srv_heap (sys_server s))]"

text \<open>
  What the network allows: a read returns the next message of the other end, and a write fails
  only if the other end has not got its message.
\<close>

fun server_network :: "wiring \<Rightarrow> system \<Rightarrow> server_event \<Rightarrow> bool" where
  "server_network w s (Strand ref (Message_read i (Inr m))) \<longleftrightarrow>
     (case w ref of
        None \<Rightarrow> True
      | Some p \<Rightarrow> prefix (got (server_end s ref) @ [m]) (on_wire (client_end s p)))"
| "server_network w s (Strand ref (Message_written i (Inl x))) \<longleftrightarrow>
     (case w ref of
        None \<Rightarrow> True
      | Some p \<Rightarrow> length (got (client_end s p)) \<le> length (wrote (server_end s ref)))"
| "server_network w s e \<longleftrightarrow> True"

fun client_network :: "wiring \<Rightarrow> system \<Rightarrow> nat \<Rightarrow> client_event \<Rightarrow> bool" where
  "client_network w s j (Conn_event q (Message_read i (Inr m))) \<longleftrightarrow>
     (\<exists>ref \<in> set (wired_to w s (j, q)).
        prefix (got (client_end s (j, q)) @ [m]) (on_wire (server_end s ref)))"
| "client_network w s j (Conn_event q (Message_written i (Inl x))) \<longleftrightarrow>
     (\<forall>ref \<in> set (wired_to w s (j, q)).
        length (got (server_end s ref)) \<le> length (wrote (client_end s (j, q))))"
| "client_network w s j e \<longleftrightarrow> True"

datatype system_event = At_server server_event | At_client nat client_event

inductive system_step ::
  "(json \<Rightarrow> string result) \<Rightarrow> wiring \<Rightarrow> system \<Rightarrow> system_event \<Rightarrow> system \<Rightarrow> bool" for dump w where
  server_moves: "server_step dump (sys_server s) e v \<Longrightarrow> server_network w s e \<Longrightarrow>
     system_step dump w s (At_server e) (s\<lparr>sys_server := v\<rparr>)"
| client_moves: "j < length (sys_clients s) \<Longrightarrow> client_exec e (sys_clients s ! j) = Some c \<Longrightarrow>
     client_network w s j e \<Longrightarrow>
     system_step dump w s (At_client j e) (s\<lparr>sys_clients := (sys_clients s)[j := c]\<rparr>)"

inductive_cases system_step_elims:
  "system_step dump w s (At_server e) s'" "system_step dump w s (At_client j e) s'"

inductive system_path ::
  "(json \<Rightarrow> string result) \<Rightarrow> wiring \<Rightarrow> system \<Rightarrow> system_event list \<Rightarrow> system \<Rightarrow> bool"
  for dump w s0 where
  path_here: "system_path dump w s0 [] s0"
| path_next: "system_path dump w s0 es s \<Longrightarrow> system_step dump w s e s' \<Longrightarrow>
     system_path dump w s0 (es @ [e]) s'"

text \<open>The server as \<open>main\<close> makes it, and clients with the configurations they were created with.\<close>

inductive system_run ::
  "(json \<Rightarrow> string result) \<Rightarrow> wiring \<Rightarrow> client_config list \<Rightarrow> system_event list \<Rightarrow> system \<Rightarrow> bool"
  for dump w cfgs where
  run_from: "list_all2 (\<lambda>cfg c. client_create cfg = Inr c) cfgs cs \<Longrightarrow>
     system_path dump w \<lparr>sys_server = initial_server, sys_clients = cs\<rparr> es s \<Longrightarrow>
     system_run dump w cfgs es s"

lemma run_start:
  "list_all2 (\<lambda>cfg c. client_create cfg = Inr c) cfgs cs \<Longrightarrow>
     system_run dump w cfgs [] \<lparr>sys_server = initial_server, sys_clients = cs\<rparr>"
  by (blast intro: run_from path_here)

lemma run_next:
  "system_run dump w cfgs es s \<Longrightarrow> system_step dump w s e s' \<Longrightarrow> system_run dump w cfgs (es @ [e]) s'"
  by (auto elim!: system_run.cases intro: run_from path_next)

lemma system_run_induct [consumes 1, case_names start step]:
  assumes "system_run dump w cfgs es s"
    and "\<And>cs. list_all2 (\<lambda>cfg c. client_create cfg = Inr c) cfgs cs \<Longrightarrow>
      P [] \<lparr>sys_server = initial_server, sys_clients = cs\<rparr>"
    and "\<And>es s e s'. system_run dump w cfgs es s \<Longrightarrow> P es s \<Longrightarrow> system_step dump w s e s' \<Longrightarrow>
      P (es @ [e]) s'"
  shows "P es s"
  using assms(1)
proof cases
  case (run_from cs)
  from run_from(2) show ?thesis
  proof (induction rule: system_path.induct)
    case path_here
    then show ?case by (rule assms(2) [OF run_from(1)])
  next
    case (path_next es s e s')
    then show ?case using assms(3) system_run.run_from [OF run_from(1)] by blast
  qed
qed

section \<open>The parts of a run\<close>

definition server_events :: "system_event list \<Rightarrow> server_event list" where
  "server_events es = List.map_filter (\<lambda>e. case e of At_server e' \<Rightarrow> Some e' | _ \<Rightarrow> None) es"

definition client_events :: "nat \<Rightarrow> system_event list \<Rightarrow> client_event list" where
  "client_events j es =
     List.map_filter (\<lambda>e. case e of At_client i e' \<Rightarrow> if i = j then Some e' else None | _ \<Rightarrow> None) es"

lemma run_server: "system_run dump w cfgs es s \<Longrightarrow> server_run dump (server_events es) (sys_server s)"
proof (induction rule: system_run_induct)
  case (start cs)
  then show ?case by (simp add: server_events_def List.map_filter_def server_start)
next
  case (step es s e s')
  from step(2,3) show ?case
    by cases (simp_all add: server_events_def map_filter_append map_filter_single server_next)
qed

lemma run_clients:
  "system_run dump w cfgs es s \<Longrightarrow> length (sys_clients s) = length cfgs \<and>
     (\<forall>j < length cfgs. client_run (cfgs ! j) (client_events j es) (sys_clients s ! j))"
proof (induction rule: system_run_induct)
  case (start cs)
  then show ?case
    by (auto simp: client_events_def List.map_filter_def list_all2_conv_all_nth client_start)
next
  case (step es s e s')
  from step(2,3) show ?case
    by cases (auto simp: client_events_def map_filter_append map_filter_single nth_list_update client_next)
qed

lemma client_events_length: "length (client_events j es) \<le> length es"
  by (simp add: client_events_def List.map_filter_def)

lemma run_client:
  assumes "system_run dump w cfgs es s" and "j < length (sys_clients s)"
  shows "client_run (cfgs ! j) (client_events j es) (sys_clients s ! j)"
    and "length es < 2 ^ 64 \<Longrightarrow> length (client_events j es) < 2 ^ 64"
  using run_clients [OF assms(1)] assms(2) client_events_length [of j es] by simp_all

section \<open>What one end got is what the other end sent\<close>

lemma ends_simps [simp]:
  "i < length xs \<Longrightarrow> at xs i = Some (xs ! i)" "length xs \<le> i \<Longrightarrow> at xs i = None"
  "got None = []" "got (Some c) = delivered c" "on_wire None = []" "on_wire (Some d) = stream d"
  "wrote None = []" "wrote (Some d) = written d"
  by (simp_all add: at_def got_def on_wire_def wrote_def)

definition linked :: "wiring \<Rightarrow> system \<Rightarrow> bool" where
  "linked w s \<longleftrightarrow>
     (\<forall>ref p. w ref = Some p \<longrightarrow>
        prefix (got (server_end s ref)) (on_wire (client_end s p)) \<and>
        prefix (got (client_end s p)) (on_wire (server_end s ref))) \<and>
     (\<forall>p. got (client_end s p) \<noteq> [] \<longrightarrow> (\<exists>ref. w ref = Some p))"

lemma linkedD:
  "linked w s \<Longrightarrow> w ref = Some p \<Longrightarrow> prefix (got (server_end s ref)) (on_wire (client_end s p))"
  "linked w s \<Longrightarrow> w ref = Some p \<Longrightarrow> prefix (got (client_end s p)) (on_wire (server_end s ref))"
  "linked w s \<Longrightarrow> got (client_end s p) \<noteq> [] \<Longrightarrow> \<exists>ref. w ref = Some p"
  unfolding linked_def by blast+

text \<open>One end of a pair over a step, from none if it is new.\<close>

definition end_carries ::
  "'i list \<Rightarrow> 'o set \<Rightarrow> bool \<Rightarrow> ('i, 'o) conn option \<Rightarrow> ('i, 'o) conn option \<Rightarrow> bool" where
  "end_carries ds ms fails x x' \<longleftrightarrow>
     (case (x, x') of
        (Some c, Some c') \<Rightarrow> carries ds ms fails c c'
      | (None, Some c') \<Rightarrow> delivered c' = [] \<and> outgoing c' = {} \<and> ds = [] \<and> \<not> fails
      | (None, None) \<Rightarrow> ds = [] \<and> \<not> fails
      | (Some c, None) \<Rightarrow> False)"

definition holds :: "('i, 'o) conn option \<Rightarrow> 'o set" where
  "holds x = (case x of None \<Rightarrow> {} | Some c \<Rightarrow> outgoing c)"

lemma holds_simps [simp]: "holds None = {}" "holds (Some c) = outgoing c"
  by (simp_all add: holds_def)

lemma on_wire_holds: "set (on_wire x) \<subseteq> holds x"
  using stream_outgoing by (cases x) (simp_all add: subsetD)

lemma end_carriesD:
  assumes "end_carries ds ms fails x x'"
  shows "got x' = got x @ ds"
    and "if fails then on_wire x' = wrote x else prefix (on_wire x) (on_wire x')"
    and "holds x' \<subseteq> holds x \<union> ms"
  using assms by (auto simp: end_carries_def carries_def stream_def split: option.splits)

lemma server_acts: "server_reads v e ref \<noteq> [] \<or> server_loses e ref \<Longrightarrow> \<exists>e'. e = Strand ref e'"
proof (erule disjE)
  show "server_reads v e ref \<noteq> [] \<Longrightarrow> \<exists>e'. e = Strand ref e'"
    by (cases e) (simp_all split: if_splits)
  show "server_loses e ref \<Longrightarrow> \<exists>e'. e = Strand ref e'" by (cases e) simp_all
qed

lemma client_acts: "client_reads c e q \<noteq> [] \<or> client_loses e q \<Longrightarrow> \<exists>e'. e = Conn_event q e'"
proof (erule disjE)
  show "client_reads c e q \<noteq> [] \<Longrightarrow> \<exists>e'. e = Conn_event q e'"
    by (cases e) (simp_all split: if_splits)
  show "client_loses e q \<Longrightarrow> \<exists>e'. e = Conn_event q e'" by (cases e) simp_all
qed

lemma server_end_carries:
  assumes inv: "server_inv (sys_server s)" and step: "server_step dump (sys_server s) e v"
    and "s' = s\<lparr>sys_server := v\<rparr>"
  shows "end_carries (server_reads (sys_server s) e ref) (responses dump (sys_server s) e v ref)
           (server_loses e ref) (server_end s ref) (server_end s' ref)"
    and "client_end s' p = client_end s p"
proof -
  let ?h = "srv_heap (sys_server s)"
  note carry = server_step_carries(1) [OF inv step] server_step_carries(2,3) [OF inv step, of ref]
  have there: "ref < length ?h" if acts: "server_reads (sys_server s) e ref \<noteq> [] \<or> server_loses e ref"
  proof -
    obtain e' where "e = Strand ref e'" using server_acts [OF acts] by blast
    with step show ?thesis by (blast elim: server_step_elims)
  qed
  show "end_carries (server_reads (sys_server s) e ref)
      (responses dump (sys_server s) e v ref) (server_loses e ref) (server_end s ref) (server_end s' ref)"
  proof (cases "ref < length ?h")
    case True
    with carry show ?thesis by (simp add: end_carries_def server_end_def assms(3))
  next
    case False
    with there carry(3) show ?thesis
      by (cases "ref < length (srv_heap v)")
        (auto simp: end_carries_def server_end_def assms(3))
  qed
  show "client_end s' p = client_end s p" by (simp add: client_end_def assms(3))
qed

lemma client_end_carries:
  assumes link: "link_inv (sys_clients s ! j)" and j: "j < length (sys_clients s)"
    and exec: "client_exec e (sys_clients s ! j) = Some c"
    and s': "s' = s\<lparr>sys_clients := (sys_clients s)[j := c]\<rparr>"
  shows "end_carries (client_reads (sys_clients s ! j) e q) (requests c) (client_loses e q)
           (client_end s (j, q)) (client_end s' (j, q))"
    and "fst p \<noteq> j \<Longrightarrow> client_end s' p = client_end s p"
    and "server_end s' ref = server_end s ref"
proof -
  have carry: "conns_carry (sys_clients s ! j) e c"
    by (rule client_exec_carries [OF link exec])
  have "q < length (cl_conns (sys_clients s ! j))"
    if acts: "client_reads (sys_clients s ! j) e q \<noteq> [] \<or> client_loses e q"
  proof -
    obtain e' where "e = Conn_event q e'" using client_acts [OF acts] by blast
    with exec show ?thesis by (simp split: if_splits)
  qed
  note there = this
  show "end_carries (client_reads (sys_clients s ! j) e q) (requests c) (client_loses e q)
      (client_end s (j, q)) (client_end s' (j, q))"
  proof (cases "q < length (cl_conns (sys_clients s ! j))")
    case True
    with carry j show ?thesis by (simp add: end_carries_def client_end_def s' conns_carry_def)
  next
    case False
    with there carry j show ?thesis
      by (cases "q < length (cl_conns c)")
        (auto simp: end_carries_def client_end_def s' conns_carry_def)
  qed
  show "fst p \<noteq> j \<Longrightarrow> client_end s' p = client_end s p" by (simp add: client_end_def at_def s')
  show "server_end s' ref = server_end s ref" by (simp add: server_end_def s')
qed

lemma wired_to_set:
  "ref \<in> set (wired_to w s p) \<longleftrightarrow> w ref = Some p \<and> server_end s ref \<noteq> None"
  by (cases "ref < length (srv_heap (sys_server s))") (auto simp: wired_to_def server_end_def)

text \<open>One direction of a pair: the reader reads what comes next, or the writer goes on.\<close>

lemma direction_reads:
  assumes "prefix (got x) (on_wire y)" and "end_carries ds ms fails x x'"
    and "\<forall>m. ds = [m] \<longrightarrow> prefix (got x @ [m]) (on_wire y)" and "length ds \<le> 1"
  shows "prefix (got x') (on_wire y)"
  using assms end_carriesD(1) [OF assms(2)] by (cases ds) auto

lemma wrote_prefix: "prefix (wrote y) (on_wire y)"
  by (cases y) (simp_all add: stream_def)

lemma direction_writes:
  assumes "prefix (got x) (on_wire y)" and "end_carries ds ms fails y y'"
    and "fails \<Longrightarrow> length (got x) \<le> length (wrote y)"
  shows "prefix (got x) (on_wire y')"
proof (cases fails)
  case True
  with end_carriesD(2) [OF assms(2)] assms(1,3) show ?thesis
    using prefix_length_prefix [OF assms(1) wrote_prefix] by simp
next
  case False
  with end_carriesD(2) [OF assms(2)] assms(1) show ?thesis
    by (auto intro: prefix_order.trans)
qed

lemma read_by_short: "length (read_by c e) \<le> 1"
  by (cases "(c, e)" rule: read_by.cases) auto

lemma read_by_message: "read_by c e = [m] \<Longrightarrow> \<exists>i. e = Message_read i (Inr m)"
  by (cases "(c, e)" rule: read_by.cases) (auto split: if_splits)

lemma write_failsD: "write_fails e \<Longrightarrow> \<exists>i x. e = Message_written i (Inl x)"
  by (cases e rule: write_fails.cases) auto

text \<open>The steps keep the two ends of every pair in line.\<close>

lemma server_reads_event:
  "server_reads v e ref = [m] \<Longrightarrow> \<exists>i. e = Strand ref (Message_read i (Inr m))"
  using read_by_message by (cases e) (auto split: if_splits)

lemma client_reads_event:
  "client_reads c e q = [m] \<Longrightarrow> \<exists>i. e = Conn_event q (Message_read i (Inr m))"
  using read_by_message by (cases e) (auto split: if_splits)

lemma server_loses_event:
  "server_loses e ref \<Longrightarrow> \<exists>i x. e = Strand ref (Message_written i (Inl x))"
  using write_failsD by (cases e) auto

lemma client_loses_event:
  "client_loses e q \<Longrightarrow> \<exists>i x. e = Conn_event q (Message_written i (Inl x))"
  using write_failsD by (cases e) auto

lemma reads_short:
  "length (server_reads v e ref) \<le> 1" "length (client_reads c e' q) \<le> 1"
proof -
  show "length (server_reads v e ref) \<le> 1"
    by (cases e) (simp_all add: read_by_short [simplified])
  show "length (client_reads c e' q) \<le> 1"
    by (cases e') (simp_all add: read_by_short [simplified])
qed

lemma linked_server:
  assumes inv: "server_inv (sys_server s)" and "linked w s"
    and step: "server_step dump (sys_server s) e v" and net: "server_network w s e"
  shows "linked w (s\<lparr>sys_server := v\<rparr>)"
proof -
  let ?s = "s\<lparr>sys_server := v\<rparr>"
  note carry = server_end_carries(1) [OF inv step refl]
  have ends: "client_end ?s p = client_end s p" for p
    using server_end_carries(2) [OF inv step refl] .
  have "prefix (got (server_end ?s ref)) (on_wire (client_end s p))"
    and "prefix (got (client_end s p)) (on_wire (server_end ?s ref))" if p: "w ref = Some p" for ref p
  proof -
    note link = linkedD(1,2) [OF assms(2) p]
    show "prefix (got (server_end ?s ref)) (on_wire (client_end s p))"
      using link(1) carry [of ref]
    proof (rule direction_reads)
      show "\<forall>m. server_reads (sys_server s) e ref = [m] \<longrightarrow>
          prefix (got (server_end s ref) @ [m]) (on_wire (client_end s p))"
        using server_reads_event net p by fastforce
    qed (rule reads_short)
    show "prefix (got (client_end s p)) (on_wire (server_end ?s ref))"
      using link(2) carry [of ref]
    proof (rule direction_writes)
      show "server_loses e ref \<Longrightarrow> length (got (client_end s p)) \<le> length (wrote (server_end s ref))"
        using server_loses_event [of e ref] net p by auto
    qed
  qed
  with assms(2) show ?thesis by (simp add: linked_def ends)
qed

lemma linked_client:
  assumes wire: "inj_on w (dom w)" and link: "link_inv (sys_clients s ! j)" and "linked w s"
    and j: "j < length (sys_clients s)" and exec: "client_exec e (sys_clients s ! j) = Some c"
    and net: "client_network w s j e"
  shows "linked w (s\<lparr>sys_clients := (sys_clients s)[j := c]\<rparr>)"
proof -
  let ?s = "s\<lparr>sys_clients := (sys_clients s)[j := c]\<rparr>"
  note carry = client_end_carries(1) [OF link j exec refl]
  note ends = client_end_carries(2,3) [OF link j exec refl]
  have reads: "\<exists>ref. w ref = Some (j, q) \<and> prefix (got (client_end s (j, q)) @ [m]) (on_wire (server_end s ref))"
    if m: "client_reads (sys_clients s ! j) e q = [m]" for q m
  proof -
    obtain i where "e = Conn_event q (Message_read i (Inr m))" using client_reads_event [OF m] by blast
    with net have "\<exists>ref \<in> set (wired_to w s (j, q)).
        prefix (got (client_end s (j, q)) @ [m]) (on_wire (server_end s ref))"
      by simp
    then show ?thesis unfolding Bex_def wired_to_set by blast
  qed
  have "prefix (got (server_end s ref)) (on_wire (client_end ?s p))"
    and "prefix (got (client_end ?s p)) (on_wire (server_end s ref))" if p: "w ref = Some p" for ref p
  proof -
    note pair = linkedD(1,2) [OF assms(3) p]
    have this_pair: "prefix (got (server_end s ref)) (on_wire (client_end ?s (j, q)))"
      "prefix (got (client_end ?s (j, q))) (on_wire (server_end s ref))" if q: "p = (j, q)" for q
    proof -
      have "\<forall>m. client_reads (sys_clients s ! j) e q = [m] \<longrightarrow>
          prefix (got (client_end s (j, q)) @ [m]) (on_wire (server_end s ref))"
        using reads wire p q unfolding inj_on_dom_iff by metis
      then show "prefix (got (client_end ?s (j, q))) (on_wire (server_end s ref))"
        by (rule direction_reads [OF pair(2) [unfolded q] carry _ reads_short(2)])
      have "length (got (server_end s ref)) \<le> length (wrote (client_end s (j, q)))"
        if loses: "client_loses e q"
      proof (cases "server_end s ref")
        case (Some x)
        then have "ref \<in> set (wired_to w s (j, q))" using p q by (simp add: wired_to_set)
        with client_loses_event [OF loses] net show ?thesis by auto
      qed simp
      then show "prefix (got (server_end s ref)) (on_wire (client_end ?s (j, q)))"
        by (rule direction_writes [OF pair(1) [unfolded q] carry])
    qed
    show "prefix (got (server_end s ref)) (on_wire (client_end ?s p))"
      and "prefix (got (client_end ?s p)) (on_wire (server_end s ref))"
      using pair this_pair ends(1) [of p] by (cases p; cases "fst p = j"; auto)+
  qed
  moreover have "\<exists>ref. w ref = Some p" if "got (client_end ?s p) \<noteq> []" for p
  proof (cases "fst p = j \<and> got (client_end s p) = []")
    case True
    then obtain q where q: "p = (j, q)" by (cases p) auto
    with True that end_carriesD(1) [OF carry, of q]
    have "client_reads (sys_clients s ! j) e q \<noteq> []" by auto
    then obtain m where "client_reads (sys_clients s ! j) e q = [m]"
      using reads_short(2) [of "sys_clients s ! j" e q]
      by (cases "client_reads (sys_clients s ! j) e q") auto
    with reads q show ?thesis by blast
  next
    case False
    with that ends(1) [of p] linkedD(3) [OF assms(3), of p] show ?thesis by auto
  qed
  ultimately show ?thesis by (simp add: linked_def ends(2))
qed

lemma run_linked:
  assumes "inj_on w (dom w)"
  shows "system_run dump w cfgs es s \<Longrightarrow> linked w s"
proof (induction rule: system_run_induct)
  case (start cs)
  have "cl_conns c = []" if c: "c \<in> set cs" for c
  proof -
    obtain cfg where "client_create cfg = Inr c"
      using start c unfolding list_all2_conv_all_nth in_set_conv_nth by metis
    then show ?thesis by (auto simp: client_create_def split: sum.splits)
  qed
  then have "client_end \<lparr>sys_server = initial_server, sys_clients = cs\<rparr> p = None" for p
    by (cases "fst p < length cs") (auto simp: client_end_def at_def)
  then show ?case by (simp add: linked_def server_end_def initial_server_def new_server_def)
next
  case (step es s e s')
  from step(2) show ?case
  proof cases
    case (server_moves e v)
    with linked_server [OF server_run_inv [OF run_server [OF step(1)]] step.IH] show ?thesis by blast
  next
    case (client_moves j e c)
    with run_client(1) [OF step(1), of j] have "link_inv (sys_clients s ! j)"
      using client_run_link by blast
    with linked_client [OF assms _ step.IH] client_moves show ?thesis by blast
  qed
qed

section \<open>What the clients get\<close>

lemma client_end_at:
  "j < length (sys_clients s) \<Longrightarrow> q < length (cl_conns (sys_clients s ! j)) \<Longrightarrow>
     client_end s (j, q) = Some (cl_conns (sys_clients s ! j) ! q)"
  by (simp add: client_end_def)

lemma run_server_inv: "system_run dump w cfgs es s \<Longrightarrow> server_inv (sys_server s)"
  using server_run_inv [OF run_server] .

lemma list_all2_prefix:
  assumes "list_all2 P (take n xs) ms" and "prefix ys ms"
  shows "list_all2 P (take (length ys) xs) ys"
proof -
  obtain zs where "ms = ys @ zs" using assms(2) by (auto simp: prefix_def)
  then have "list_all2 P (take (length ys) (take n xs)) ys" and "length ys \<le> n"
    using list_all2_takeI [OF assms(1), of "length ys"] list_all2_lengthD [OF assms(1)] by auto
  then show ?thesis by (simp add: min.absorb1)
qed

lemma list_all2_source: "list_all2 P xs ys \<Longrightarrow> y \<in> set ys \<Longrightarrow> \<exists>x \<in> set xs. P x y"
  by (metis in_set_conv_nth list_all2_conv_all_nth)

text \<open>What is on the wire from the server answers, one for one, what the server got.\<close>

lemma server_wire_answers:
  assumes "system_run dump w cfgs es s" and x_def: "x = server_end s ref"
  shows "list_all2 answers (take (length (on_wire x)) (got x)) (on_wire x)"
proof (cases "ref < length (srv_heap (sys_server s))")
  case True
  let ?c = "srv_heap (sys_server s) ! ref"
  obtain ms where ms: "conn_fifo ms ?c" "list_all2 answers (take (length ms) (delivered ?c)) ms"
    using server_run_replies [OF run_server [OF assms(1)]] True
    by (fastforce simp: server_replies_def replied_def)
  from ms(1) have "prefix (stream ?c) ms" by (auto simp: conn_fifo_def stream_def)
  with list_all2_prefix [OF ms(2)] True show ?thesis by (simp add: server_end_def x_def)
qed (simp add: server_end_def x_def)

lemma wired_answers:
  assumes run: "system_run dump w cfgs es s" and wire: "inj_on w (dom w)" and x_def: "x = client_end s p"
  shows "list_all2 answers (take (length (got x)) (on_wire x)) (got x)"
proof (cases "got x = []")
  case False
  note link = run_linked [OF wire run]
  obtain ref where ref: "w ref = Some p"
    using linkedD(3) [OF link] False unfolding x_def by blast
  note pair = linkedD(1,2) [OF link ref, folded x_def]
  have ans: "list_all2 answers (take (length (got x)) (got (server_end s ref))) (got x)"
    by (rule list_all2_prefix [OF server_wire_answers [OF run refl] pair(2)])
  then have "length (got x) \<le> length (got (server_end s ref))"
    using list_all2_lengthD by fastforce
  with pair(1) have "take (length (got x)) (on_wire x) = take (length (got x)) (got (server_end s ref))"
    by (auto simp: prefix_def)
  with ans show ?thesis by simp
qed simp

lemma client_wire_requests:
  assumes run: "system_run dump w cfgs es s" and "j < length (sys_clients s)"
  shows "set (on_wire (client_end s (j, q))) \<subseteq> requests (sys_clients s ! j)"
proof (cases "q < length (cl_conns (sys_clients s ! j))")
  case True
  with client_run_outgoing [OF run_client(1) [OF assms] True] assms(2) stream_outgoing
  show ?thesis by (fastforce simp: client_end_at)
qed (use assms(2) in \<open>simp add: client_end_def\<close>)

lemma received_answers:
  assumes run: "system_run dump w cfgs es s" and wire: "inj_on w (dom w)"
    and j: "j < length (sys_clients s)" and r: "r \<in> received (sys_clients s ! j)"
  shows "\<exists>payload. (payload, server_request_id r) \<in> set (made (sys_clients s ! j)) \<and>
    answers ((request_message payload)\<lparr>client_request_id := server_request_id r\<rparr>) r"
proof -
  obtain q where q: "q < length (cl_conns (sys_clients s ! j))"
    "r \<in> set (delivered (cl_conns (sys_clients s ! j) ! q))"
    using r unfolding received_def by (metis UN_E in_set_conv_nth)
  then have "r \<in> set (got (client_end s (j, q)))" using j by (simp add: client_end_at)
  with wired_answers [OF run wire refl, of "(j, q)"]
  obtain m where m: "m \<in> set (on_wire (client_end s (j, q)))" "answers m r"
    using list_all2_source in_set_takeD by metis
  then have "m \<in> requests (sys_clients s ! j)"
    using client_wire_requests [OF run j, of q] by blast
  then obtain payload k where "m = (request_message payload)\<lparr>client_request_id := k\<rparr>"
    "(payload, k) \<in> set (made (sys_clients s ! j))"
    by (auto simp: requests_def)
  moreover from this m(2) have "server_request_id r = k" by (simp add: answers_def)
  ultimately show ?thesis using m(2) by blast
qed

section \<open>Where the snapshots come from\<close>

lemma onMessage_snapshot:
  assumes "onMessage dump cid m v = (Inr r, v')" and "server_payload r = Some (StateSnapshotReply t)"
  shows "client_payload m = Some StateSnapshot" and "server_request_id r = client_request_id m"
    and "snapshotJson dump v' = Inr (state_json t)"
  using assms
  by (auto simp: onMessage_def makeErrorResponse_def new_ServerMessage_def Let_def
      split: sum.splits prod.splits option.splits client_payload.splits)

text \<open>
  \<open>snapshots_known\<close>: every snapshot the server holds for a client satisfies \<open>K\<close>. A step keeps
  this, if \<open>K\<close> holds of the world it leaves, for the requests made by then.
\<close>

definition snapshots_known ::
  "wiring \<Rightarrow> (nat \<Rightarrow> u64 \<Rightarrow> StateSnapshotResponse \<Rightarrow> bool) \<Rightarrow> system \<Rightarrow> bool" where
  "snapshots_known w K s \<longleftrightarrow>
     (\<forall>ref j q r t. w ref = Some (j, q) \<longrightarrow> j < length (sys_clients s) \<longrightarrow>
        r \<in> holds (server_end s ref) \<longrightarrow> server_payload r = Some (StateSnapshotReply t) \<longrightarrow>
        K j (server_request_id r) t)"

lemma snapshots_start: "snapshots_known w K \<lparr>sys_server = initial_server, sys_clients = cs\<rparr>"
  by (simp add: snapshots_known_def server_end_def initial_server_def new_server_def)

lemma snapshots_mono:
  "snapshots_known w K s \<Longrightarrow> (\<And>j k t. K j k t \<Longrightarrow> K' j k t) \<Longrightarrow> snapshots_known w K' s"
  unfolding snapshots_known_def by blast

lemma snapshots_step:
  assumes wire: "inj_on w (dom w)" and run: "system_run dump w cfgs es s"
    and step: "system_step dump w s e s'" and known: "snapshots_known w K s"
    and now: "\<And>j k t. j < length (sys_clients s') \<Longrightarrow>
      (StateSnapshot, k) \<in> set (made (sys_clients s' ! j)) \<Longrightarrow>
      snapshotJson dump (srv_service (sys_server s')) = Inr (state_json t) \<Longrightarrow> K j k t"
  shows "snapshots_known w K s'"
  unfolding snapshots_known_def
proof (intro allI impI)
  fix ref j q r t
  assume ref: "w ref = Some (j, q)" and j: "j < length (sys_clients s')"
    and r: "r \<in> holds (server_end s' ref)" and t: "server_payload r = Some (StateSnapshotReply t)"
  have j0: "j < length (sys_clients s)" using step j by cases simp_all
  show "K j (server_request_id r) t"
  proof (cases "r \<in> holds (server_end s ref)")
    case True
    with known ref j0 t show ?thesis unfolding snapshots_known_def by blast
  next
    case False
    from step show ?thesis
    proof cases
      case (client_moves i e' c)
      with r False show ?thesis by (simp add: server_end_def)
    next
      case (server_moves e' v)
      note run' = run_next [OF run step]
      note carry = server_end_carries(1) [OF run_server_inv [OF run] server_moves(3,2)]
      have "r \<in> responses dump (sys_server s) e' v ref"
        using end_carriesD(3) [OF carry] r False by blast
      then obtain m where m: "m \<in> set (server_reads (sys_server s) e' ref)"
        "onMessage dump (id_at ref) m (srv_service (sys_server s)) = (Inr r, srv_service v)"
        by (auto simp: responses_def)
      have "m \<in> set (got (server_end s' ref))" using end_carriesD(1) [OF carry] m(1) by simp
      then have "m \<in> requests (sys_clients s' ! j)"
        using linkedD(1) [OF run_linked [OF wire run'] ref] client_wire_requests [OF run' j, of q]
        by (meson set_mono_prefix subsetD)
      then obtain payload k where k: "m = (request_message payload)\<lparr>client_request_id := k\<rparr>"
        "(payload, k) \<in> set (made (sys_clients s' ! j))"
        by (auto simp: requests_def)
      note snap = onMessage_snapshot [OF m(2) t]
      have "payload = StateSnapshot" and "server_request_id r = k"
        using snap(1,2) k(1) by (simp_all add: request_message_def new_ClientMessage_def)
      with k(2) snap(3) server_moves(2) j show ?thesis by (simp add: now)
    qed
  qed
qed

text \<open>What a client's call returns was held by the server.\<close>

lemma returned_snapshot:
  assumes run: "system_run dump w cfgs es s" and wire: "inj_on w (dom w)" and "length es < 2 ^ 64"
    and j: "j < length (sys_clients s)"
    and "Snapshot_returns (Some k) (Inr snapshot) \<in> set (cl_outcomes (sys_clients s ! j))"
    and known: "snapshots_known w K s"
  shows "K j k snapshot"
proof -
  obtain q r where q: "q < length (cl_conns (sys_clients s ! j))"
    and r: "r \<in> set (delivered (cl_conns (sys_clients s ! j) ! q))" "server_request_id r = k"
      "server_payload r = Some (StateSnapshotReply snapshot)"
    using request_own_response(2) [OF run_client(1) [OF run j] run_client(2) [OF run j assms(3)] assms(5)]
    by (metis in_set_conv_nth)
  have got: "r \<in> set (got (client_end s (j, q)))" using r(1) client_end_at [OF j q] by simp
  note link = run_linked [OF wire run]
  obtain ref where ref: "w ref = Some (j, q)"
    using linkedD(3) [OF link, of "(j, q)"] got by fastforce
  have "r \<in> holds (server_end s ref)"
    using got linkedD(2) [OF link ref] on_wire_holds by (meson set_mono_prefix subsetD)
  with known ref j r(2,3) show ?thesis unfolding snapshots_known_def by blast
qed

text \<open>
  \<open>seen\<close>: the run passed through a state in which the client had made the request \<open>k\<close> and the
  text was that of the server's world.
\<close>

definition seen ::
  "(json \<Rightarrow> string result) \<Rightarrow> wiring \<Rightarrow> client_config list \<Rightarrow> system_event list \<Rightarrow> system \<Rightarrow> nat \<Rightarrow> u64 \<Rightarrow>
     StateSnapshotResponse \<Rightarrow> bool" where
  "seen dump w cfgs es s j k t \<longleftrightarrow>
     (\<exists>es1 s1 es2. es = es1 @ es2 \<and> system_run dump w cfgs es1 s1 \<and> system_path dump w s1 es2 s \<and>
        (StateSnapshot, k) \<in> set (made (sys_clients s1 ! j)) \<and>
        snapshotJson dump (srv_service (sys_server s1)) = Inr (state_json t))"

lemma seen_next:
  "seen dump w cfgs es s j k t \<Longrightarrow> system_step dump w s e s' \<Longrightarrow> seen dump w cfgs (es @ [e]) s' j k t"
  unfolding seen_def by (metis append.assoc path_next)

lemma seen_now:
  "system_run dump w cfgs es s \<Longrightarrow> (StateSnapshot, k) \<in> set (made (sys_clients s ! j)) \<Longrightarrow>
     snapshotJson dump (srv_service (sys_server s)) = Inr (state_json t) \<Longrightarrow>
     seen dump w cfgs es s j k t"
  unfolding seen_def by (metis append_Nil2 path_here)

lemma run_snapshots:
  assumes wire: "inj_on w (dom w)"
  shows "system_run dump w cfgs es s \<Longrightarrow> snapshots_known w (seen dump w cfgs es s) s"
proof (induction rule: system_run_induct)
  case (start cs)
  show ?case by (rule snapshots_start)
next
  case (step es s e s')
  have "snapshots_known w (seen dump w cfgs (es @ [e]) s') s"
    by (rule snapshots_mono [OF step.IH]) (rule seen_next [OF _ step(2)])
  then show ?case
    by (rule snapshots_step [OF wire step(1,2)]) (rule seen_now [OF run_next [OF step(1,2)]])
qed

section \<open>Running the system\<close>

text \<open>The steps as a function, but for the stop of the server; \<open>None\<close> where an event is not enabled.\<close>

fun system_exec ::
  "(json \<Rightarrow> string result) \<Rightarrow> wiring \<Rightarrow> system_event \<Rightarrow> system \<Rightarrow> system option" where
  "system_exec dump w (At_server e) s =
     (if server_network w s e
      then map_option (\<lambda>v. s\<lparr>sys_server := v\<rparr>) (server_exec dump e (sys_server s)) else None)"
| "system_exec dump w (At_client j e) s =
     (if j < length (sys_clients s) \<and> client_network w s j e
      then map_option (\<lambda>c. s\<lparr>sys_clients := (sys_clients s)[j := c]\<rparr>)
             (client_exec e (sys_clients s ! j))
      else None)"

lemma system_exec_step: "system_exec dump w e s = Some s' \<Longrightarrow> system_step dump w s e s'"
proof (cases e)
  case (At_client j e')
  assume "system_exec dump w e s = Some s'"
  with At_client show ?thesis
    by (auto simp del: client_exec.simps client_network.simps split: if_splits intro: client_moves)
next
  case (At_server e')
  assume "system_exec dump w e s = Some s'"
  with At_server show ?thesis
    by (auto simp del: server_exec.simps server_network.simps split: if_splits
        intro: server_moves server_exec_step)
qed

interpretation system_trace: traced_machine "system_exec dump w" "system_run dump w cfgs" for dump w cfgs
  by unfold_locales (rule run_next [OF _ system_exec_step])

text \<open>A client connects, pings and asks for a snapshot; the server answers both.\<close>

definition sample_wiring :: wiring where
  "sample_wiring ref = (if ref = 0 then Some (0, 0) else None)"

definition sample_snapshot :: ServerMessage where
  "sample_snapshot = new_ServerMessage
     \<lparr>server_request_id := 2, server_status := STATUS_OK,
      server_payload := Some (StateSnapshotReply \<lparr>state_json = ''{}''\<rparr>)\<rparr>"

definition sample_system_events :: "system_event list" where
  "sample_system_events =
     map (At_client 0) [Call_connect, Connect_done Ec_success, Conn_event 0 Run_post,
       Conn_event 0 (Run_reader 0), Call_request (Ping \<lparr>ping_timestamp = 42\<rparr>), Conn_event 0 Run_post,
       Conn_event 0 (Run_writer 0)] @
     map At_server [Accepted, Strand 0 Run_post, Strand 0 (Run_reader 0), Strand 0 (Message_read 0
       (Inr ((request_message (Ping \<lparr>ping_timestamp = 42\<rparr>))\<lparr>client_request_id := 1\<rparr>))),
       Strand 0 Run_post, Strand 0 (Run_writer 0)] @
     map (At_client 0) [Conn_event 0 (Message_read 0 (Inr sample_pong)), Received 0 0, Sender_resumed 0,
       Conn_event 0 (Message_written 0 (Inr ())), Call_request StateSnapshot, Conn_event 0 Run_post,
       Conn_event 0 (Run_writer 0)] @
     map At_server [Strand 0 (Message_written 0 (Inr ())), Strand 0 (Message_read 0
       (Inr ((request_message StateSnapshot)\<lparr>client_request_id := 2\<rparr>))),
       Strand 0 Run_post, Strand 0 (Run_writer 0)] @
     map (At_client 0) [Conn_event 0 (Message_read 0 (Inr sample_snapshot)), Received 0 0, Sender_resumed 0]"

definition sample_system :: system where
  "sample_system = the (runs (system_exec sample_dump sample_wiring) sample_system_events
     \<lparr>sys_server = initial_server, sys_clients = [sample_client]\<rparr>)"

lemma sample_system_run:
  "system_run sample_dump sample_wiring [default_client_config] sample_system_events sample_system"
proof -
  have "client_create default_client_config = Inr sample_client"
    by (simp add: sample_client_def client_create_def validate_def default_client_config_def)
  then have "system_run sample_dump sample_wiring [default_client_config] []
      \<lparr>sys_server = initial_server, sys_clients = [sample_client]\<rparr>"
    by (intro run_start) simp
  moreover have "runs (system_exec sample_dump sample_wiring) sample_system_events
      \<lparr>sys_server = initial_server, sys_clients = [sample_client]\<rparr> \<noteq> None"
    by code_simp
  ultimately show ?thesis
    using system_trace.runs_reached by (fastforce simp: sample_system_def)
qed

lemma sample_wiring_inj: "inj_on sample_wiring (dom sample_wiring)"
  by (auto simp: inj_on_def sample_wiring_def split: if_splits)

lemma sample_outcomes:
  "length (sys_clients sample_system) = 1"
  "cl_outcomes (sys_clients sample_system ! 0) =
     [Connect_returns (Inr ()), Ping_returns \<lparr>ping_timestamp = 42\<rparr> (Some 1) (Inr \<lparr>pong_timestamp = 42\<rparr>),
      Snapshot_returns (Some 2) (Inr \<lparr>state_json = ''{}''\<rparr>)]"
  "length (cl_conns (sys_clients sample_system ! 0)) = 1"
  "delivered (cl_conns (sys_clients sample_system ! 0) ! 0) = [sample_pong, sample_snapshot]"
  by code_simp+

lemma sample_events_length: "length sample_system_events < 2 ^ 64"
  by (simp add: sample_system_events_def)

section \<open>Properties\<close>

text \<open>
  C6: the responses a client reads answer its requests, one for one and in order. In every run
  of the server with any number of clients, on every connection of every client, the first
  response read answers the first message put on the wire, the second the second, and so on,
  whatever the other clients and foreign peers do, and however connects, writes, failures,
  time-outs and stops interleave. No response is read that no request asked for.
\<close>

theorem responses_in_order:
  assumes "system_run dump w cfgs es s" and "inj_on w (dom w)"
    and "j < length (sys_clients s)" and "q < length (cl_conns (sys_clients s ! j))"
  shows "let x = cl_conns (sys_clients s ! j) ! q;
             requested = written x @ in_flight x;
             n = length (delivered x)
         in n \<le> length requested \<and> list_all2 answers (take n requested) (delivered x)"
proof -
  let ?x = "cl_conns (sys_clients s ! j) ! q"
  have "list_all2 answers (take (length (delivered ?x)) (stream ?x)) (delivered ?x)"
    using wired_answers [OF assms(1,2) client_end_at [OF assms(3,4), symmetric]] by simp
  then show ?thesis
    using list_all2_lengthD by (fastforce simp: stream_def Let_def)
qed

theorem responses_in_order_witness:
  "\<exists>x. cl_conns (sys_clients sample_system ! 0) = [x] \<and>
     delivered x = [sample_pong, sample_snapshot] \<and>
     list_all2 answers (take 2 (written x @ in_flight x)) (delivered x)"
proof -
  let ?xs = "cl_conns (sys_clients sample_system ! 0)"
  have "?xs = [?xs ! 0]" using sample_outcomes(3) by (cases ?xs) simp_all
  moreover have "list_all2 answers (take 2 (written (?xs ! 0) @ in_flight (?xs ! 0))) (delivered (?xs ! 0))"
    using responses_in_order [OF sample_system_run sample_wiring_inj, of 0 0] sample_outcomes
    by (simp add: Let_def numeral_2_eq_2)
  ultimately show ?thesis using sample_outcomes(4) by blast
qed

text \<open>
  A ping comes back with its own time stamp. In every run of fewer than \<open>2 ^ 64\<close> events,
  whenever a client's call of \<open>sendRequest\<close> for a ping returns a pong, the pong has the time
  stamp that call sent, whatever its other calls, time-outs and reconnections, and whatever the
  other clients do.
\<close>

lemma system_ping_echo:
  assumes "system_run dump w cfgs es s" and "inj_on w (dom w)" and "length es < 2 ^ 64"
    and "j < length (sys_clients s)"
    and "Ping_returns request (Some k) (Inr pong) \<in> set (cl_outcomes (sys_clients s ! j))"
  shows "pong_timestamp pong = ping_timestamp request"
proof (rule ping_echo [OF run_client(1) [OF assms(1,4)] run_client(2) [OF assms(1,4,3)] _ assms(5)])
  show "\<forall>r \<in> received (sys_clients s ! j). \<exists>payload.
      (payload, server_request_id r) \<in> set (made (sys_clients s ! j)) \<and>
      answers ((request_message payload)\<lparr>client_request_id := server_request_id r\<rparr>) r"
    using received_answers [OF assms(1,2,4)] by blast
qed

text \<open>
  C7: a snapshot is the server's world, and no older than the request. In every run of fewer
  than \<open>2 ^ 64\<close> events, when a client's call of \<open>sendRequest\<close> for a snapshot returns a text, the
  run passed through a state in which that request had been made and the server's world printed
  as exactly that text.
\<close>

theorem system_snapshot:
  assumes "system_run dump w cfgs es s" and "inj_on w (dom w)" and "length es < 2 ^ 64"
    and "j < length (sys_clients s)"
    and "Snapshot_returns (Some k) (Inr snapshot) \<in> set (cl_outcomes (sys_clients s ! j))"
  shows "\<exists>es1 s1 es2. es = es1 @ es2 \<and> system_run dump w cfgs es1 s1 \<and> system_path dump w s1 es2 s \<and>
     (StateSnapshot, k) \<in> set (made (sys_clients s1 ! j)) \<and>
     snapshotJson dump (srv_service (sys_server s1)) = Inr (state_json snapshot)"
  using returned_snapshot [OF assms run_snapshots [OF assms(2,1)]] unfolding seen_def .

theorem system_snapshot_witness:
  "Snapshot_returns (Some 2) (Inr \<lparr>state_json = ''{}''\<rparr>)
     \<in> set (cl_outcomes (sys_clients sample_system ! 0)) \<and>
   (\<exists>es1 s1 es2. sample_system_events = es1 @ es2 \<and>
     system_path sample_dump sample_wiring s1 es2 sample_system \<and>
     (StateSnapshot, 2) \<in> set (made (sys_clients s1 ! 0)) \<and>
     snapshotJson sample_dump (srv_service (sys_server s1)) = Inr ''{}'')"
proof
  show ret: "Snapshot_returns (Some 2) (Inr \<lparr>state_json = ''{}''\<rparr>)
      \<in> set (cl_outcomes (sys_clients sample_system ! 0))"
    by (simp add: sample_outcomes)
  show "\<exists>es1 s1 es2. sample_system_events = es1 @ es2 \<and>
     system_path sample_dump sample_wiring s1 es2 sample_system \<and>
     (StateSnapshot, 2) \<in> set (made (sys_clients s1 ! 0)) \<and>
     snapshotJson sample_dump (srv_service (sys_server s1)) = Inr ''{}''"
    using system_snapshot [OF sample_system_run sample_wiring_inj sample_events_length _ ret]
    unfolding sample_outcomes by auto
qed

end
