(* ===== verification/Event_Bus.thy ===== *)
theory Event_Bus
  imports Prelude
begin

text \<open>
  \<open>shared/src/shared/event_bus\<close>: \<open>detail/SubscribersStorage.hpp\<close>, \<open>SyncEventBus.hpp\<close> and
  \<open>AsyncEventBus.hpp\<close>. An event is a pair of its C++ type, a number here, and its value. A
  callback is a name, by which its calls are traced, and the calls of the bus it makes itself
  for a given event, which is what makes publishing reentrant. Callbacks are \<open>noexcept\<close>: an
  exception inside one ends the program (\<open>Terminated\<close>). Publishing inside callbacks may recurse
  for ever, so it runs on fuel, and \<open>None\<close> is a run that is longer.
\<close>

section \<open>SubscriberStorage\<close>

type_synonym event_type = nat

record 'cb storage =
  m_callbacks :: "'cb list list"
  m_publishCount :: nat

definition new_storage :: "'cb storage" where
  "new_storage = \<lparr>m_callbacks = [], m_publishCount = 0\<rparr>"

text \<open>
  \<open>m_eventIndex\<close> and the function-local \<open>index\<close> of \<open>eventIndex<EVENT>\<close>: shared by all buses, and
  set the first time the function is called for a type.
\<close>

record event_indices =
  m_eventIndex :: nat
  ei_index :: "(event_type \<times> nat) list"

definition eventIndex :: "event_type \<Rightarrow> event_indices \<Rightarrow> nat \<times> event_indices" where
  "eventIndex ty g =
     (case map_of (ei_index g) ty of
        Some i \<Rightarrow> (i, g)
      | None \<Rightarrow> (m_eventIndex g,
                 g\<lparr>m_eventIndex := Suc (m_eventIndex g),
                   ei_index := (ty, m_eventIndex g) # ei_index g\<rparr>))"

definition throwIfPublishing :: "'cb storage \<Rightarrow> unit result" where
  "throwIfPublishing s =
     (if m_publishCount s \<noteq> 0
      then Inl (Logic_error ''EventBus modification during publish is forbidden'') else Inr ())"

text \<open>The reserved capacity cannot be observed.\<close>

definition reserveAndResizeIfNecessary :: "nat \<Rightarrow> 'cb storage \<Rightarrow> 'cb storage" where
  "reserveAndResizeIfNecessary index s =
     (if index \<ge> length (m_callbacks s)
      then s\<lparr>m_callbacks := m_callbacks s @ replicate (Suc index - length (m_callbacks s)) []\<rparr>
      else s)"

text \<open>\<open>subscribe\<close>; \<open>None\<close> is a callback that is empty.\<close>

definition storage_subscribe ::
  "event_type \<Rightarrow> 'cb option \<Rightarrow> 'cb storage \<Rightarrow> event_indices \<Rightarrow>
     unit result \<times> 'cb storage \<times> event_indices" where
  "storage_subscribe ty callback s g =
     (case throwIfPublishing s of
        Inl x \<Rightarrow> (Inl x, s, g)
      | Inr _ \<Rightarrow>
          (case callback of
             None \<Rightarrow> (Inl (Invalid_argument ''callback is empty''), s, g)
           | Some cb \<Rightarrow>
               let (index, g1) = eventIndex ty g;
                   s1 = reserveAndResizeIfNecessary index s
               in (Inr (), s1\<lparr>m_callbacks := (m_callbacks s1)[index := m_callbacks s1 ! index @ [cb]]\<rparr>,
                   g1)))"

definition storage_clear :: "'cb storage \<Rightarrow> unit result \<times> 'cb storage" where
  "storage_clear s =
     (case throwIfPublishing s of
        Inl x \<Rightarrow> (Inl x, s)
      | Inr _ \<Rightarrow> (Inr (), s\<lparr>m_callbacks := []\<rparr>))"

text \<open>Moving: the vector of callbacks changes its owner, the source is left without.\<close>

definition storage_move :: "'cb storage \<Rightarrow> 'cb storage result \<times> 'cb storage" where
  "storage_move other =
     (case throwIfPublishing other of
        Inl x \<Rightarrow> (Inl x, other)
      | Inr _ \<Rightarrow> (Inr (new_storage\<lparr>m_callbacks := m_callbacks other\<rparr>), other\<lparr>m_callbacks := []\<rparr>))"

definition storage_move_assign ::
  "'cb storage \<Rightarrow> 'cb storage \<Rightarrow> unit result \<times> 'cb storage \<times> 'cb storage" where
  "storage_move_assign self other =
     (case throwIfPublishing self of
        Inl x \<Rightarrow> (Inl x, self, other)
      | Inr _ \<Rightarrow>
          (case throwIfPublishing other of
             Inl x \<Rightarrow> (Inl x, self, other)
           | Inr _ \<Rightarrow> (Inr (), self\<lparr>m_callbacks := m_callbacks other\<rparr>, other\<lparr>m_callbacks := []\<rparr>)))"

text \<open>What \<open>publish\<close> iterates over, if it iterates.\<close>

definition publish_list :: "nat \<Rightarrow> 'cb storage \<Rightarrow> 'cb list option" where
  "publish_list index s = (if index \<ge> length (m_callbacks s) then None else Some (m_callbacks s ! index))"

definition publish_enter :: "'cb storage \<Rightarrow> 'cb storage" where
  "publish_enter s = s\<lparr>m_publishCount := Suc (m_publishCount s)\<rparr>"

definition publish_leave :: "'cb storage \<Rightarrow> 'cb storage" where
  "publish_leave s = s\<lparr>m_publishCount := m_publishCount s - 1\<rparr>"

lemma leave_enter [simp]: "publish_leave (publish_enter s) = s"
  by (simp add: publish_leave_def publish_enter_def)

section \<open>The subscribers of a type\<close>

definition subscribers :: "event_type \<Rightarrow> 'cb storage \<Rightarrow> event_indices \<Rightarrow> 'cb list" where
  "subscribers ty s g =
     (case map_of (ei_index g) ty of
        None \<Rightarrow> []
      | Some i \<Rightarrow> if i < length (m_callbacks s) then m_callbacks s ! i else [])"

text \<open>Types have different indices below the counter; nothing is stored above it.\<close>

definition indices_ok :: "event_indices \<Rightarrow> bool" where
  "indices_ok g \<longleftrightarrow>
     (\<forall>ty i. map_of (ei_index g) ty = Some i \<longrightarrow> i < m_eventIndex g) \<and>
     (\<forall>ty ty' i. map_of (ei_index g) ty = Some i \<longrightarrow> map_of (ei_index g) ty' = Some i \<longrightarrow> ty = ty')"

definition storage_ok :: "'cb storage \<Rightarrow> event_indices \<Rightarrow> bool" where
  "storage_ok s g \<longleftrightarrow>
     indices_ok g \<and> (\<forall>i < length (m_callbacks s). m_callbacks s ! i \<noteq> [] \<longrightarrow> i < m_eventIndex g)"

lemma eventIndex_ok: "indices_ok g \<Longrightarrow> indices_ok (snd (eventIndex ty g))"
  by (fastforce simp: eventIndex_def indices_ok_def less_Suc_eq split: option.splits if_splits)

lemma eventIndex_found: "map_of (ei_index (snd (eventIndex ty g))) ty = Some (fst (eventIndex ty g))"
  by (simp add: eventIndex_def split: option.splits)

lemma eventIndex_storage_ok: "storage_ok s g \<Longrightarrow> storage_ok s (snd (eventIndex ty g))"
  using eventIndex_ok [of g ty]
  by (auto simp: storage_ok_def eventIndex_def less_Suc_eq split: option.splits)

text \<open>Asking for an index changes no subscription.\<close>

lemma subscribers_eventIndex:
  assumes "storage_ok s g"
  shows "subscribers ty' s (snd (eventIndex ty g)) = subscribers ty' s g"
proof (cases "map_of (ei_index g) ty")
  case None
  then show ?thesis
    using assms by (auto simp: subscribers_def eventIndex_def storage_ok_def)
qed (simp add: eventIndex_def)

lemma publish_list_subscribers:
  assumes "storage_ok s g"
  shows "(case publish_list (fst (eventIndex ty g)) s of None \<Rightarrow> [] | Some cbs \<Rightarrow> cbs) = subscribers ty s g"
  unfolding subscribers_eventIndex [OF assms, of ty ty, symmetric]
  by (simp add: subscribers_def eventIndex_found publish_list_def)

lemma nth_reserved:
  "i < length (m_callbacks (reserveAndResizeIfNecessary index s)) \<Longrightarrow>
     m_callbacks (reserveAndResizeIfNecessary index s) ! i =
       (if i < length (m_callbacks s) then m_callbacks s ! i else [])"
  by (auto simp: reserveAndResizeIfNecessary_def nth_append)

lemma length_reserved:
  "length (m_callbacks (reserveAndResizeIfNecessary index s)) = max (Suc index) (length (m_callbacks s))"
  by (auto simp: reserveAndResizeIfNecessary_def max_def)

text \<open>Subscribing appends to the subscribers of the type and leaves all other types alone.\<close>

lemma subscribers_subscribe:
  assumes ok: "storage_ok s g" and idle: "m_publishCount s = 0"
    and sub: "storage_subscribe ty (Some cb) s g = (r, s', g')"
  shows "r = Inr ()"
    and "subscribers ty' s' g' = (if ty' = ty then subscribers ty s g @ [cb] else subscribers ty' s g)"
    and "storage_ok s' g'" and "m_publishCount s' = 0"
proof -
  obtain i g1 where ei: "eventIndex ty g = (i, g1)" by fastforce
  let ?s1 = "reserveAndResizeIfNecessary i s"
  have eqs: "r = Inr ()" "g' = g1"
    "s' = ?s1\<lparr>m_callbacks := (m_callbacks ?s1)[i := m_callbacks ?s1 ! i @ [cb]]\<rparr>"
    using sub idle ei by (simp_all add: storage_subscribe_def throwIfPublishing_def Let_def)
  have ok1: "storage_ok s g1" using eventIndex_storage_ok [OF ok, of ty] ei by simp
  have found: "map_of (ei_index g1) ty = Some i" using eventIndex_found [of ty g] ei by simp
  have only: "map_of (ei_index g1) ty' = Some i \<Longrightarrow> ty' = ty" for ty'
    using ok1 found by (auto simp: storage_ok_def indices_ok_def)
  have len: "i < length (m_callbacks ?s1)" by (simp add: length_reserved)
  have old: "subscribers ty' s g1 = subscribers ty' s g" for ty'
    using subscribers_eventIndex [OF ok, of ty' ty] ei by simp
  have s1: "subscribers ty' ?s1 g1 = subscribers ty' s g1" for ty'
    using length_reserved [of i s]
    by (auto simp: subscribers_def nth_reserved split: option.splits)
  have "subscribers ty' s' g1 = (if ty' = ty then subscribers ty s g1 @ [cb] else subscribers ty' s g1)"
  proof (cases "map_of (ei_index g1) ty'")
    case None
    with found show ?thesis by (auto simp: subscribers_def)
  next
    case (Some j)
    show ?thesis
    proof (cases "ty' = ty")
      case True
      with Some found have "j = i" by simp
      with True len found s1 [of ty] show ?thesis
        by (simp add: subscribers_def eqs(3))
    next
      case False
      with Some only have "j \<noteq> i" by auto
      with False Some s1 [of ty'] show ?thesis
        by (auto simp: subscribers_def eqs(3) split: if_splits)
    qed
  qed
  then show "subscribers ty' s' g' = (if ty' = ty then subscribers ty s g @ [cb] else subscribers ty' s g)"
    by (simp add: eqs(2) old)
  have "i < m_eventIndex g1" using ok1 found by (auto simp: storage_ok_def indices_ok_def)
  then show "storage_ok s' g'"
    using ok1 len by (auto simp: storage_ok_def eqs nth_list_update nth_reserved split: if_splits)
  show "r = Inr ()" by (rule eqs(1))
  show "m_publishCount s' = 0" using idle by (simp add: eqs(3) reserveAndResizeIfNecessary_def)
qed

section \<open>SyncEventBus\<close>

datatype 'v callback = Callback (cb_name: nat) (cb_calls: "'v \<Rightarrow> 'v bus_call list")
  and 'v bus_call =
    Call_publish event_type 'v
  | Call_subscribe event_type "'v callback option"
  | Call_clear

text \<open>\<open>sb_trace\<close>: the calls of callbacks so far, each with the event it got.\<close>

record 'v sync_bus =
  sb_storage :: "'v callback storage"
  sb_indices :: event_indices
  sb_trace :: "(nat \<times> event_type \<times> 'v) list"

datatype 's ran = Returns 's | Terminated

text \<open>The bus as its callbacks and its users see it: publishing, and the calls of a callback.\<close>

function (sequential) sync_publish ::
    "nat \<Rightarrow> event_type \<Rightarrow> 'v \<Rightarrow> 'v sync_bus \<Rightarrow> 'v sync_bus ran option"
  and sync_call_all ::
    "nat \<Rightarrow> 'v callback list \<Rightarrow> event_type \<Rightarrow> 'v \<Rightarrow> 'v sync_bus \<Rightarrow> 'v sync_bus ran option"
  and sync_run_calls :: "nat \<Rightarrow> 'v bus_call list \<Rightarrow> 'v sync_bus \<Rightarrow> 'v sync_bus ran option" where
  "sync_publish 0 ty v b = None"
| "sync_publish (Suc n) ty v b =
     (let (index, g) = eventIndex ty (sb_indices b);
          b1 = b\<lparr>sb_indices := g\<rparr>
      in case publish_list index (sb_storage b1) of
           None \<Rightarrow> Some (Returns b1)
         | Some cbs \<Rightarrow>
             (case sync_call_all n cbs ty v (b1\<lparr>sb_storage := publish_enter (sb_storage b1)\<rparr>) of
                None \<Rightarrow> None
              | Some Terminated \<Rightarrow> Some Terminated
              | Some (Returns b2) \<Rightarrow> Some (Returns (b2\<lparr>sb_storage := publish_leave (sb_storage b2)\<rparr>))))"
| "sync_call_all n [] ty v b = Some (Returns b)"
| "sync_call_all n (cb # cbs) ty v b =
     (case sync_run_calls n (cb_calls cb v) (b\<lparr>sb_trace := sb_trace b @ [(cb_name cb, ty, v)]\<rparr>) of
        Some (Returns b1) \<Rightarrow> sync_call_all n cbs ty v b1
      | r \<Rightarrow> r)"
| "sync_run_calls n [] b = Some (Returns b)"
| "sync_run_calls n (Call_publish ty v # cs) b =
     (case sync_publish n ty v b of
        Some (Returns b1) \<Rightarrow> sync_run_calls n cs b1
      | r \<Rightarrow> r)"
| "sync_run_calls n (Call_subscribe ty callback # cs) b =
     (case storage_subscribe ty callback (sb_storage b) (sb_indices b) of
        (Inl x, s, g) \<Rightarrow> Some Terminated
      | (Inr _, s, g) \<Rightarrow> sync_run_calls n cs (b\<lparr>sb_storage := s, sb_indices := g\<rparr>))"
| "sync_run_calls n (Call_clear # cs) b =
     (case storage_clear (sb_storage b) of
        (Inl x, s) \<Rightarrow> Some Terminated
      | (Inr _, s) \<Rightarrow> sync_run_calls n cs (b\<lparr>sb_storage := s\<rparr>))"
  by pat_completeness auto

termination
  by (relation "measures
       [\<lambda>x. case x of Inl (n, _) \<Rightarrow> 3 * n
                | Inr (Inl (n, _)) \<Rightarrow> 3 * n + 2 | Inr (Inr (n, _)) \<Rightarrow> 3 * n + 1,
        \<lambda>x. case x of Inl _ \<Rightarrow> 0 | Inr (Inl (_, cbs, _)) \<Rightarrow> length cbs | Inr (Inr (_, cs, _)) \<Rightarrow> length cs]")
    auto

text \<open>The public operations, on a bus that is not in the middle of a callback.\<close>

definition sync_subscribe ::
  "event_type \<Rightarrow> 'v callback option \<Rightarrow> 'v sync_bus \<Rightarrow> unit result \<times> 'v sync_bus" where
  "sync_subscribe ty callback b =
     (case storage_subscribe ty callback (sb_storage b) (sb_indices b) of
        (r, s, g) \<Rightarrow> (r, b\<lparr>sb_storage := s, sb_indices := g\<rparr>))"

definition sync_clear :: "'v sync_bus \<Rightarrow> unit result \<times> 'v sync_bus" where
  "sync_clear b = (case storage_clear (sb_storage b) of (r, s) \<Rightarrow> (r, b\<lparr>sb_storage := s\<rparr>))"

definition new_sync_bus :: "event_indices \<Rightarrow> 'v sync_bus" where
  "new_sync_bus g = \<lparr>sb_storage = new_storage, sb_indices = g, sb_trace = []\<rparr>"

text \<open>
  What a run of callbacks leaves: the subscriptions and the publish count as they were, the
  trace longer. While publishing, subscribing and clearing throw, so a run that comes back has
  done neither.
\<close>

definition left_alone :: "'v sync_bus \<Rightarrow> 'v sync_bus \<Rightarrow> bool" where
  "left_alone b b' \<longleftrightarrow> sb_storage b' = sb_storage b \<and> (\<exists>t. sb_trace b' = sb_trace b @ t)"

lemma left_alone_refl: "left_alone b b"
  by (simp add: left_alone_def)

lemma left_alone_trans: "left_alone b b1 \<Longrightarrow> left_alone b1 b2 \<Longrightarrow> left_alone b b2"
  by (auto simp: left_alone_def)

lemma publishing_rejects:
  assumes "m_publishCount s > 0"
  shows "\<exists>x. storage_subscribe ty callback s g = (Inl x, s, g)" and "\<exists>x. storage_clear s = (Inl x, s)"
  using assms by (simp_all add: storage_subscribe_def storage_clear_def throwIfPublishing_def)

lemma sync_left_alone:
  "sync_publish n ty v b = Some (Returns b') \<Longrightarrow> left_alone b b'"
  "m_publishCount (sb_storage b) > 0 \<Longrightarrow> sync_call_all n cbs ty v b = Some (Returns b') \<Longrightarrow> left_alone b b'"
  "m_publishCount (sb_storage b) > 0 \<Longrightarrow> sync_run_calls n cs b = Some (Returns b') \<Longrightarrow> left_alone b b'"
proof (induction n ty v b and n cbs ty v b and n cs b arbitrary: b' and b' and b'
    rule: sync_publish_sync_call_all_sync_run_calls.induct)
  case (2 n ty v b)
  obtain index g where ei: "eventIndex ty (sb_indices b) = (index, g)" by fastforce
  let ?b1 = "b\<lparr>sb_indices := g\<rparr>"
  show ?case
  proof (cases "publish_list index (sb_storage b)")
    case None
    with 2(2) ei show ?thesis by (auto simp: left_alone_def)
  next
    case (Some cbs)
    let ?b2 = "?b1\<lparr>sb_storage := publish_enter (sb_storage ?b1)\<rparr>"
    from 2(2) ei Some obtain b3 where b3: "sync_call_all n cbs ty v ?b2 = Some (Returns b3)"
      "b' = b3\<lparr>sb_storage := publish_leave (sb_storage b3)\<rparr>"
      by (auto split: option.splits ran.splits)
    have "left_alone ?b2 b3"
      by (rule 2(1) [of "(index, g)" index g ?b1 cbs])
        (use ei Some b3(1) in \<open>simp_all add: publish_enter_def\<close>)
    with b3(2) show ?thesis by (auto simp: left_alone_def)
  qed
next
  case (4 n cb cbs ty v b)
  let ?b1 = "b\<lparr>sb_trace := sb_trace b @ [(cb_name cb, ty, v)]\<rparr>"
  from 4(4) obtain b2 where b2: "sync_run_calls n (cb_calls cb v) ?b1 = Some (Returns b2)"
    "sync_call_all n cbs ty v b2 = Some (Returns b')"
    by (auto split: option.splits ran.splits)
  have one: "left_alone ?b1 b2" using 4(1) [OF _ b2(1)] 4(3) by simp
  then have "left_alone b2 b'" using 4(2) [OF b2(1) refl _ b2(2)] 4(3) by (simp add: left_alone_def)
  with one show ?case by (auto simp: left_alone_def)
next
  case (6 n ty v cs b)
  from 6(4) obtain b1 where b1: "sync_publish n ty v b = Some (Returns b1)"
    "sync_run_calls n cs b1 = Some (Returns b')"
    by (auto split: option.splits ran.splits)
  have one: "left_alone b b1" by (rule 6(1) [OF b1(1)])
  then have "left_alone b1 b'" using 6(2) [OF b1(1) refl _ b1(2)] 6(3) by (simp add: left_alone_def)
  with one show ?case by (rule left_alone_trans)
next
  case (7 n ty callback cs b)
  from publishing_rejects(1) [OF 7(2), of ty callback "sb_indices b"] 7(3) show ?case by auto
next
  case (8 n cs b)
  from publishing_rejects(2) [OF 8(2)] 8(3) show ?case by auto
qed (auto simp: left_alone_def)

lemma sync_call_all_plain:
  "\<forall>cb \<in> set cbs. cb_calls cb v = [] \<Longrightarrow>
     sync_call_all n cbs ty v b =
       Some (Returns (b\<lparr>sb_trace := sb_trace b @ map (\<lambda>cb. (cb_name cb, ty, v)) cbs\<rparr>))"
  by (induction cbs arbitrary: b) simp_all

section \<open>Every callback gets its own type of event\<close>

text \<open>
  \<open>heard s g t\<close>: each call in the trace \<open>t\<close> is of a subscriber of the type of its event. The
  storage erases the types of the callbacks and casts the events back, so this is what makes
  the cast right.
\<close>

definition heard :: "'v callback storage \<Rightarrow> event_indices \<Rightarrow> (nat \<times> event_type \<times> 'v) list \<Rightarrow> bool" where
  "heard s g t \<longleftrightarrow> (\<forall>(name, ty, v) \<in> set t. \<exists>cb \<in> set (subscribers ty s g). cb_name cb = name)"

text \<open>What a run of callbacks leaves, in a bus whose storage and indices fit.\<close>

definition typed_run :: "'v sync_bus \<Rightarrow> 'v sync_bus \<Rightarrow> bool" where
  "typed_run b b' \<longleftrightarrow>
     storage_ok (sb_storage b') (sb_indices b') \<and>
     (\<forall>ty. subscribers ty (sb_storage b') (sb_indices b') = subscribers ty (sb_storage b) (sb_indices b)) \<and>
     (\<exists>t. sb_trace b' = sb_trace b @ t \<and> heard (sb_storage b) (sb_indices b) t)"

lemma typed_run_refl: "storage_ok (sb_storage b) (sb_indices b) \<Longrightarrow> typed_run b b"
  by (simp add: typed_run_def heard_def)

lemma typed_run_trans:
  assumes "typed_run b b1" and "typed_run b1 b2"
  shows "typed_run b b2"
proof -
  from assms(1) obtain t1 where t1: "sb_trace b1 = sb_trace b @ t1" "heard (sb_storage b) (sb_indices b) t1"
    by (auto simp: typed_run_def)
  from assms(2) obtain t2 where t2: "sb_trace b2 = sb_trace b1 @ t2" "heard (sb_storage b1) (sb_indices b1) t2"
    by (auto simp: typed_run_def)
  have "heard (sb_storage b) (sb_indices b) (t1 @ t2)"
    using t1(2) t2(2) assms(1) unfolding heard_def typed_run_def by auto
  with assms t1(1) t2(1) show ?thesis by (simp add: typed_run_def)
qed

lemma counted [simp]:
  "subscribers ty (publish_enter s) g = subscribers ty s g"
  "subscribers ty (publish_leave s) g = subscribers ty s g"
  "storage_ok (publish_enter s) g = storage_ok s g" "storage_ok (publish_leave s) g = storage_ok s g"
  by (simp_all add: subscribers_def storage_ok_def publish_enter_def publish_leave_def
      split: option.split)

lemma typed_run_index:
  "storage_ok (sb_storage b) (sb_indices b) \<Longrightarrow>
     typed_run b (b\<lparr>sb_indices := snd (eventIndex ty (sb_indices b))\<rparr>)"
  by (simp add: typed_run_def heard_def subscribers_eventIndex eventIndex_storage_ok)

lemma typed_run_bracket:
  "typed_run (b\<lparr>sb_storage := publish_enter (sb_storage b)\<rparr>) b' \<Longrightarrow>
     typed_run b (b'\<lparr>sb_storage := publish_leave (sb_storage b')\<rparr>)"
  by (simp add: typed_run_def heard_def)

lemma typed_run_call:
  "storage_ok (sb_storage b) (sb_indices b) \<Longrightarrow> cb \<in> set (subscribers ty (sb_storage b) (sb_indices b)) \<Longrightarrow>
     typed_run b (b\<lparr>sb_trace := sb_trace b @ [(cb_name cb, ty, v)]\<rparr>)"
  by (auto simp: typed_run_def heard_def)

lemma sync_typed:
  "storage_ok (sb_storage b) (sb_indices b) \<Longrightarrow> sync_publish n ty v b = Some (Returns b') \<Longrightarrow> typed_run b b'"
  "storage_ok (sb_storage b) (sb_indices b) \<Longrightarrow> m_publishCount (sb_storage b) > 0 \<Longrightarrow>
     set cbs \<subseteq> set (subscribers ty (sb_storage b) (sb_indices b)) \<Longrightarrow>
     sync_call_all n cbs ty v b = Some (Returns b') \<Longrightarrow> typed_run b b'"
  "storage_ok (sb_storage b) (sb_indices b) \<Longrightarrow> m_publishCount (sb_storage b) > 0 \<Longrightarrow>
     sync_run_calls n cs b = Some (Returns b') \<Longrightarrow> typed_run b b'"
proof (induction n ty v b and n cbs ty v b and n cs b arbitrary: b' and b' and b'
    rule: sync_publish_sync_call_all_sync_run_calls.induct)
  case (2 n ty v b)
  obtain index g where ei: "eventIndex ty (sb_indices b) = (index, g)" by fastforce
  let ?b1 = "b\<lparr>sb_indices := g\<rparr>"
  have ix: "typed_run b ?b1" using typed_run_index [OF 2(2), of ty] ei by simp
  then have ok: "storage_ok (sb_storage ?b1) (sb_indices ?b1)" by (simp add: typed_run_def)
  show ?case
  proof (cases "publish_list index (sb_storage b)")
    case None
    with 2(3) ei ix show ?thesis by simp
  next
    case (Some cbs)
    let ?b2 = "?b1\<lparr>sb_storage := publish_enter (sb_storage ?b1)\<rparr>"
    from 2(3) ei Some obtain b3 where b3: "sync_call_all n cbs ty v ?b2 = Some (Returns b3)"
      "b' = b3\<lparr>sb_storage := publish_leave (sb_storage b3)\<rparr>"
      by (auto split: option.splits ran.splits)
    have "set cbs \<subseteq> set (subscribers ty (sb_storage ?b1) (sb_indices ?b1))"
      using publish_list_subscribers [OF 2(2), of ty] subscribers_eventIndex [OF 2(2), of ty ty] ei Some
      by simp
    then have "typed_run ?b2 b3"
      by (intro 2(1) [of "(index, g)" index g ?b1 cbs])
        (use ei Some b3(1) ok in \<open>simp_all\<close>, simp add: publish_enter_def)
    with typed_run_trans [OF ix typed_run_bracket] b3(2) show ?thesis by simp
  qed
next
  case (4 n cb cbs ty v b)
  let ?b1 = "b\<lparr>sb_trace := sb_trace b @ [(cb_name cb, ty, v)]\<rparr>"
  from 4(6) obtain b2 where b2: "sync_run_calls n (cb_calls cb v) ?b1 = Some (Returns b2)"
    "sync_call_all n cbs ty v b2 = Some (Returns b')"
    by (auto split: option.splits ran.splits)
  have b1: "typed_run b ?b1" using 4(3,5) by (intro typed_run_call) simp_all
  have one: "typed_run ?b1 b2" using 4(1) [OF _ _ b2(1)] 4(3,4) by simp
  then have both: "typed_run b b2" using typed_run_trans [OF b1] by blast
  have count: "m_publishCount (sb_storage b2) > 0"
    using sync_left_alone(3) [OF _ b2(1)] 4(4) by (simp add: left_alone_def)
  from both have "storage_ok (sb_storage b2) (sb_indices b2)"
    "set cbs \<subseteq> set (subscribers ty (sb_storage b2) (sb_indices b2))"
    using 4(5) by (simp_all add: typed_run_def)
  with 4(2) [OF b2(1) refl _ count _ b2(2)] typed_run_trans [OF both] show ?case by blast
next
  case (6 n ty v cs b)
  from 6(5) obtain b1 where b1: "sync_publish n ty v b = Some (Returns b1)"
    "sync_run_calls n cs b1 = Some (Returns b')"
    by (auto split: option.splits ran.splits)
  have one: "typed_run b b1" by (rule 6(1) [OF 6(3) b1(1)])
  have "m_publishCount (sb_storage b1) > 0"
    using sync_left_alone(1) [OF b1(1)] 6(4) by (simp add: left_alone_def)
  with one 6(2) [OF b1(1) refl _ _ b1(2)] have "typed_run b1 b'" by (simp add: typed_run_def)
  with one show ?case by (rule typed_run_trans)
next
  case (7 n ty callback cs b)
  from publishing_rejects(1) [OF 7(3), of ty callback "sb_indices b"] 7(4) show ?case by auto
next
  case (8 n cs b)
  from publishing_rejects(2) [OF 8(3)] 8(4) show ?case by auto
qed (auto simp: typed_run_refl)

section \<open>AsyncEventBus\<close>

datatype 'v async_callback =
    Async_callback (acb_name: nat) (acb_calls: "'v \<Rightarrow> 'v async_call list")
  and 'v async_call =
    Async_publish event_type 'v
  | Async_subscribe event_type "'v async_callback option"
  | Async_clear
  | Async_dispatch

text \<open>\<open>m_eventPublishers\<close> holds the events to publish.\<close>

record 'v async_bus =
  ab_storage :: "'v async_callback storage"
  ab_indices :: event_indices
  m_eventPublishers :: "(event_type \<times> 'v) list"
  ab_trace :: "(nat \<times> event_type \<times> 'v) list"

definition new_async_bus :: "event_indices \<Rightarrow> 'v async_bus" where
  "new_async_bus g =
     \<lparr>ab_storage = new_storage, ab_indices = g, m_eventPublishers = [], ab_trace = []\<rparr>"

definition async_subscribe ::
  "event_type \<Rightarrow> 'v async_callback option \<Rightarrow> 'v async_bus \<Rightarrow> unit result \<times> 'v async_bus" where
  "async_subscribe ty callback b =
     (case storage_subscribe ty callback (ab_storage b) (ab_indices b) of
        (r, s, g) \<Rightarrow> (r, b\<lparr>ab_storage := s, ab_indices := g\<rparr>))"

definition async_publish :: "event_type \<Rightarrow> 'v \<Rightarrow> 'v async_bus \<Rightarrow> 'v async_bus" where
  "async_publish ty v b = b\<lparr>m_eventPublishers := m_eventPublishers b @ [(ty, v)]\<rparr>"

definition async_clear :: "'v async_bus \<Rightarrow> unit result \<times> 'v async_bus" where
  "async_clear b =
     (case storage_clear (ab_storage b) of
        (Inl x, s) \<Rightarrow> (Inl x, b\<lparr>ab_storage := s\<rparr>)
      | (Inr _, s) \<Rightarrow> (Inr (), b\<lparr>ab_storage := s, m_eventPublishers := []\<rparr>))"

text \<open>\<open>dispatch\<close>, publishing one event to the storage, and the calls of a callback.\<close>

function (sequential) async_dispatch :: "nat \<Rightarrow> 'v async_bus \<Rightarrow> 'v async_bus ran option"
  and async_storage_publish ::
    "nat \<Rightarrow> event_type \<Rightarrow> 'v \<Rightarrow> 'v async_bus \<Rightarrow> 'v async_bus ran option"
  and async_call_all ::
    "nat \<Rightarrow> 'v async_callback list \<Rightarrow> event_type \<Rightarrow> 'v \<Rightarrow> 'v async_bus \<Rightarrow> 'v async_bus ran option"
  and async_run_calls :: "nat \<Rightarrow> 'v async_call list \<Rightarrow> 'v async_bus \<Rightarrow> 'v async_bus ran option" where
  "async_dispatch 0 b = None"
| "async_dispatch (Suc n) b =
     (case m_eventPublishers b of
        [] \<Rightarrow> Some (Returns b)
      | (ty, v) # q \<Rightarrow>
          (case async_storage_publish n ty v (b\<lparr>m_eventPublishers := q\<rparr>) of
             Some (Returns b1) \<Rightarrow> async_dispatch n b1
           | r \<Rightarrow> r))"
| "async_storage_publish n ty v b =
     (let (index, g) = eventIndex ty (ab_indices b);
          b1 = b\<lparr>ab_indices := g\<rparr>
      in case publish_list index (ab_storage b1) of
           None \<Rightarrow> Some (Returns b1)
         | Some cbs \<Rightarrow>
             (case async_call_all n cbs ty v (b1\<lparr>ab_storage := publish_enter (ab_storage b1)\<rparr>) of
                Some (Returns b2) \<Rightarrow> Some (Returns (b2\<lparr>ab_storage := publish_leave (ab_storage b2)\<rparr>))
              | r \<Rightarrow> r))"
| "async_call_all n [] ty v b = Some (Returns b)"
| "async_call_all n (cb # cbs) ty v b =
     (case async_run_calls n (acb_calls cb v) (b\<lparr>ab_trace := ab_trace b @ [(acb_name cb, ty, v)]\<rparr>) of
        Some (Returns b1) \<Rightarrow> async_call_all n cbs ty v b1
      | r \<Rightarrow> r)"
| "async_run_calls n [] b = Some (Returns b)"
| "async_run_calls n (Async_publish ty v # cs) b = async_run_calls n cs (async_publish ty v b)"
| "async_run_calls n (Async_subscribe ty callback # cs) b =
     (case async_subscribe ty callback b of
        (Inl x, b1) \<Rightarrow> Some Terminated
      | (Inr _, b1) \<Rightarrow> async_run_calls n cs b1)"
| "async_run_calls n (Async_clear # cs) b =
     (case async_clear b of
        (Inl x, b1) \<Rightarrow> Some Terminated
      | (Inr _, b1) \<Rightarrow> async_run_calls n cs b1)"
| "async_run_calls n (Async_dispatch # cs) b =
     (case async_dispatch n b of
        Some (Returns b1) \<Rightarrow> async_run_calls n cs b1
      | r \<Rightarrow> r)"
  by pat_completeness auto

termination
  by (relation "measures
       [\<lambda>x. case x of Inl (Inl (n, _)) \<Rightarrow> 4 * n | Inl (Inr (n, _)) \<Rightarrow> 4 * n + 3
                | Inr (Inl (n, _)) \<Rightarrow> 4 * n + 2 | Inr (Inr (n, _)) \<Rightarrow> 4 * n + 1,
        \<lambda>x. case x of Inl _ \<Rightarrow> 0 | Inr (Inl (_, cbs, _)) \<Rightarrow> length cbs | Inr (Inr (_, cs, _)) \<Rightarrow> length cs]")
    auto

lemma async_publishing_rejects:
  assumes "m_publishCount (ab_storage b) > 0"
  shows "\<exists>x b1. async_subscribe ty callback b = (Inl x, b1)" and "\<exists>x b1. async_clear b = (Inl x, b1)"
  using publishing_rejects [OF assms] by (auto simp: async_subscribe_def async_clear_def)
    (metis (no_types, lifting) case_prod_conv publishing_rejects(1) assms)+

text \<open>A run of callbacks leaves the subscriptions alone; a dispatch that returns left no event.\<close>

lemma async_storage_kept:
  "async_dispatch n b = Some (Returns b') \<Longrightarrow> ab_storage b' = ab_storage b \<and> m_eventPublishers b' = []"
  "async_storage_publish n ty v b = Some (Returns b') \<Longrightarrow> ab_storage b' = ab_storage b"
  "m_publishCount (ab_storage b) > 0 \<Longrightarrow> async_call_all n cbs ty v b = Some (Returns b') \<Longrightarrow>
     ab_storage b' = ab_storage b"
  "m_publishCount (ab_storage b) > 0 \<Longrightarrow> async_run_calls n cs b = Some (Returns b') \<Longrightarrow>
     ab_storage b' = ab_storage b"
proof (induction n b and n ty v b and n cbs ty v b and n cs b arbitrary: b' and b' and b' and b'
    rule: async_dispatch_async_storage_publish_async_call_all_async_run_calls.induct)
  case (2 n b)
  show ?case
  proof (cases "m_eventPublishers b")
    case (Cons e q)
    obtain ty v where e: "e = (ty, v)" by fastforce
    from 2(3) Cons e obtain b1 where
      b1: "async_storage_publish n ty v (b\<lparr>m_eventPublishers := q\<rparr>) = Some (Returns b1)"
        "async_dispatch n b1 = Some (Returns b')"
      by (auto split: option.splits ran.splits)
    from 2(1) [OF Cons e [symmetric] b1(1)] 2(2) [OF Cons e [symmetric] b1(1) refl b1(2)] show ?thesis by simp
  qed (use 2(3) in simp)
next
  case (3 n ty v b)
  obtain index g where ei: "eventIndex ty (ab_indices b) = (index, g)" by fastforce
  let ?b1 = "b\<lparr>ab_indices := g\<rparr>"
  show ?case
  proof (cases "publish_list index (ab_storage b)")
    case None
    with 3(2) ei show ?thesis by auto
  next
    case (Some cbs)
    let ?b2 = "?b1\<lparr>ab_storage := publish_enter (ab_storage ?b1)\<rparr>"
    from 3(2) ei Some obtain b3 where b3: "async_call_all n cbs ty v ?b2 = Some (Returns b3)"
      "b' = b3\<lparr>ab_storage := publish_leave (ab_storage b3)\<rparr>"
      by (auto split: option.splits ran.splits)
    have "ab_storage b3 = ab_storage ?b2"
      by (rule 3(1) [of "(index, g)" index g ?b1 cbs])
        (use ei Some b3(1) in \<open>simp_all add: publish_enter_def\<close>)
    with b3(2) show ?thesis by simp
  qed
next
  case (5 n cb cbs ty v b)
  let ?b1 = "b\<lparr>ab_trace := ab_trace b @ [(acb_name cb, ty, v)]\<rparr>"
  from 5(4) obtain b2 where b2: "async_run_calls n (acb_calls cb v) ?b1 = Some (Returns b2)"
    "async_call_all n cbs ty v b2 = Some (Returns b')"
    by (auto split: option.splits ran.splits)
  have one: "ab_storage b2 = ab_storage b" using 5(1) [OF _ b2(1)] 5(3) by simp
  then show ?case using 5(2) [OF b2(1) refl _ b2(2)] 5(3) by simp
next
  case (7 n ty v cs b)
  then show ?case by (simp add: async_publish_def)
next
  case (8 n ty callback cs b)
  from async_publishing_rejects(1) [OF 8(2), of ty callback] 8(3) show ?case by auto
next
  case (9 n cs b)
  from async_publishing_rejects(2) [OF 9(2)] 9(3) show ?case by auto
next
  case (10 n cs b)
  from 10(4) obtain b1 where b1: "async_dispatch n b = Some (Returns b1)"
    "async_run_calls n cs b1 = Some (Returns b')"
    by (auto split: option.splits ran.splits)
  from 10(1) [OF b1(1)] 10(2) [OF b1(1) refl _ b1(2)] 10(3) show ?case by simp
qed auto

lemma async_call_all_plain:
  "\<forall>cb \<in> set cbs. acb_calls cb v = [] \<Longrightarrow>
     async_call_all n cbs ty v b =
       Some (Returns (b\<lparr>ab_trace := ab_trace b @ map (\<lambda>cb. (acb_name cb, ty, v)) cbs\<rparr>))"
  by (induction cbs arbitrary: b) simp_all

text \<open>What one queued event gives when the callbacks make no calls.\<close>

definition deliveries :: "'v async_bus \<Rightarrow> event_type \<times> 'v \<Rightarrow> (nat \<times> event_type \<times> 'v) list" where
  "deliveries b e =
     map (\<lambda>cb. (acb_name cb, fst e, snd e)) (subscribers (fst e) (ab_storage b) (ab_indices b))"

lemma async_publish_plain:
  assumes ok: "storage_ok (ab_storage b) (ab_indices b)"
    and plain: "\<forall>cb \<in> set (subscribers ty (ab_storage b) (ab_indices b)). acb_calls cb v = []"
  shows "async_storage_publish n ty v b =
     Some (Returns (b\<lparr>ab_indices := snd (eventIndex ty (ab_indices b)),
                      ab_trace := ab_trace b @ deliveries b (ty, v)\<rparr>))"
proof -
  obtain i g where ei: "eventIndex ty (ab_indices b) = (i, g)" by fastforce
  note subs = publish_list_subscribers [OF ok, of ty]
  show ?thesis
  proof (cases "publish_list i (ab_storage b)")
    case None
    with subs ei have "deliveries b (ty, v) = []" by (simp add: deliveries_def)
    with None ei show ?thesis by simp
  next
    case (Some cbs)
    with subs ei have "cbs = subscribers ty (ab_storage b) (ab_indices b)" by simp
    with Some ei plain show ?thesis
      by (simp add: async_call_all_plain deliveries_def Let_def)
  qed
qed

lemma async_dispatch_plain:
  assumes "storage_ok (ab_storage b) (ab_indices b)"
    and "\<forall>(ty, v) \<in> set (m_eventPublishers b).
      \<forall>cb \<in> set (subscribers ty (ab_storage b) (ab_indices b)). acb_calls cb v = []"
    and "length (m_eventPublishers b) < n"
  shows "\<exists>g. async_dispatch n b = Some (Returns (b\<lparr>ab_indices := g, m_eventPublishers := [],
     ab_trace := ab_trace b @ concat (map (deliveries b) (m_eventPublishers b))\<rparr>))"
  using assms
proof (induction "m_eventPublishers b" arbitrary: b n)
  case Nil
  then obtain m where n: "n = Suc m" by (cases n) simp_all
  have "b\<lparr>ab_indices := ab_indices b, m_eventPublishers := [], ab_trace := ab_trace b\<rparr> = b"
    using Nil(1) by simp
  then show ?case
    using Nil(1) [symmetric] by (intro exI [of _ "ab_indices b"]) (simp add: n)
next
  case (Cons e q)
  obtain ty v where e: "e = (ty, v)" by fastforce
  obtain m where n: "n = Suc m" and m: "length q < m"
    using Cons.prems(3) Cons.hyps(2) [symmetric] by (cases n) simp_all
  let ?b = "b\<lparr>m_eventPublishers := q\<rparr>"
  let ?g = "snd (eventIndex ty (ab_indices b))"
  let ?b1 = "?b\<lparr>ab_indices := ?g, ab_trace := ab_trace b @ deliveries b e\<rparr>"
  have subs: "subscribers ty' (ab_storage b) ?g = subscribers ty' (ab_storage b) (ab_indices b)" for ty'
    by (rule subscribers_eventIndex [OF Cons.prems(1)])
  have "deliveries ?b = deliveries b" by (simp add: deliveries_def fun_eq_iff)
  moreover have "\<forall>cb \<in> set (subscribers ty (ab_storage ?b) (ab_indices ?b)). acb_calls cb v = []"
    using Cons.prems(2) Cons.hyps(2) [symmetric] e by simp
  ultimately have pub: "async_storage_publish m ty v ?b = Some (Returns ?b1)"
    using async_publish_plain [of ?b ty v m] Cons.prems(1) e by simp
  have "deliveries ?b1 = deliveries b" by (simp add: deliveries_def subs fun_eq_iff)
  moreover have "\<exists>g. async_dispatch m ?b1 = Some (Returns (?b1\<lparr>ab_indices := g, m_eventPublishers := [],
     ab_trace := ab_trace ?b1 @ concat (map (deliveries ?b1) (m_eventPublishers ?b1))\<rparr>))"
    using Cons.prems(1,2) Cons.hyps(2) [symmetric] m
    by (intro Cons.hyps(1)) (auto simp: subs intro: eventIndex_storage_ok)
  ultimately show ?case
    using Cons.hyps(2) [symmetric] pub e by (auto simp: n)
qed

text \<open>The bus a run came back with.\<close>

definition returned :: "'s ran option \<Rightarrow> 's option" where
  "returned r = (case r of Some (Returns b) \<Rightarrow> Some b | _ \<Rightarrow> None)"

lemma returned_Some: "returned r = Some b \<longleftrightarrow> r = Some (Returns b)"
  by (auto simp: returned_def split: option.splits ran.splits)

text \<open>
  Even when callbacks publish further events or call \<open>dispatch\<close> themselves, a dispatch that
  returns has emptied the queue; publishing alone calls no callback.
\<close>

lemma dispatch_leaves_nothing:
  assumes "async_dispatch n (async_publish ty v b) = Some (Returns b')"
  shows "m_eventPublishers b' = [] \<and> ab_storage b' = ab_storage b \<and>
     ab_trace (async_publish ty v b) = ab_trace b"
  using async_storage_kept(1) [OF assms] by (simp add: async_publish_def)

section \<open>Properties\<close>

text \<open>A bus with a subscriber of type 0 that publishes an event of type 1, which has a subscriber.\<close>

definition sample_bus :: "nat sync_bus" where
  "sample_bus =
     snd (sync_subscribe 1 (Some (Callback 20 (\<lambda>v. [])))
       (snd (sync_subscribe 0 (Some (Callback 10 (\<lambda>v. [Call_publish 1 (v + 1)])))
         (new_sync_bus \<lparr>m_eventIndex = 0, ei_index = []\<rparr>))))"

lemma sample_bus_ok: "storage_ok (sb_storage sample_bus) (sb_indices sample_bus)"
proof -
  have "sb_storage sample_bus = \<lparr>m_callbacks =
      [[Callback 10 (\<lambda>v. [Call_publish 1 (v + 1)])], [Callback 20 (\<lambda>v. [])]], m_publishCount = 0\<rparr>"
    "sb_indices sample_bus = \<lparr>m_eventIndex = 2, ei_index = [(1, 1), (0, 0)]\<rparr>"
    by (simp_all add: sample_bus_def sync_subscribe_def storage_subscribe_def new_sync_bus_def
        new_storage_def throwIfPublishing_def eventIndex_def reserveAndResizeIfNecessary_def Let_def)
  then show ?thesis
    by (simp add: storage_ok_def indices_ok_def less_Suc_eq)
qed

text \<open>
  Subscribing. On a bus that is not publishing, subscribing a callback to a type of event
  succeeds, appends it to the subscribers of that type and leaves the subscribers of every
  other type as they are, whether or not the type has been used before.
\<close>

lemma subscribe_isolated:
  assumes "storage_ok (sb_storage b) (sb_indices b)" and "m_publishCount (sb_storage b) = 0"
    and "sync_subscribe ty (Some callback) b = (r, b')"
  shows "r = Inr () \<and> storage_ok (sb_storage b') (sb_indices b') \<and>
     subscribers ty' (sb_storage b') (sb_indices b') =
       (if ty' = ty then subscribers ty (sb_storage b) (sb_indices b) @ [callback]
        else subscribers ty' (sb_storage b) (sb_indices b))"
proof -
  obtain r1 s g where sub:
    "storage_subscribe ty (Some callback) (sb_storage b) (sb_indices b) = (r1, s, g)"
    by (metis prod.exhaust)
  with assms(3) have "r = r1" "b' = b\<lparr>sb_storage := s, sb_indices := g\<rparr>"
    by (simp_all add: sync_subscribe_def)
  with subscribers_subscribe [OF assms(1,2) sub] show ?thesis by simp
qed

text \<open>
  Publishing never disturbs the subscriptions. Whatever the callbacks do (publishing
  further events, trying to subscribe or to clear), if a call of \<open>publish\<close> comes back, the
  subscriptions and the publish count are what they were before it, so no iteration over
  callbacks was ever invalidated, and the callbacks called before are not called off.
\<close>

lemma publish_keeps_subscriptions:
  assumes "sync_publish n ty v b = Some (Returns b')"
  shows "sb_storage b' = sb_storage b \<and> (\<exists>t. sb_trace b' = sb_trace b @ t)"
  using sync_left_alone(1) [OF assms] by (simp add: left_alone_def)





text \<open>
  C37: the asynchronous bus delivers in order. If the subscribers make no calls of the bus,
  \<open>dispatch\<close>, given fuel for one round more than there are queued events, returns with the queue
  empty, and each queued event has been given once to each subscriber of its type, in the
  order in which the events were published and the callbacks subscribed.
\<close>

theorem dispatch_delivers_in_order:
  assumes "storage_ok (ab_storage b) (ab_indices b)"
    and "\<forall>(ty, v) \<in> set (m_eventPublishers b).
      \<forall>cb \<in> set (subscribers ty (ab_storage b) (ab_indices b)). acb_calls cb v = []"
    and "length (m_eventPublishers b) < n"
  shows "\<exists>b'. async_dispatch n b = Some (Returns b') \<and> m_eventPublishers b' = [] \<and>
     ab_storage b' = ab_storage b \<and>
     ab_trace b' = ab_trace b @ concat (map (\<lambda>(ty, v). map (\<lambda>cb. (acb_name cb, ty, v))
       (subscribers ty (ab_storage b) (ab_indices b))) (m_eventPublishers b))"
proof -
  have "deliveries b = (\<lambda>(ty, v). map (\<lambda>cb. (acb_name cb, ty, v))
       (subscribers ty (ab_storage b) (ab_indices b)))"
    by (auto simp: deliveries_def)
  with async_dispatch_plain [OF assms] show ?thesis by fastforce
qed

definition sample_async :: "nat async_bus" where
  "sample_async = async_publish 0 8 (async_publish 1 9 (async_publish 0 7
     (snd (async_subscribe 0 (Some (Async_callback 11 (\<lambda>v. [])))
       (snd (async_subscribe 0 (Some (Async_callback 10 (\<lambda>v. [])))
         (new_async_bus \<lparr>m_eventIndex = 0, ei_index = []\<rparr>)))))))"

theorem dispatch_delivers_in_order_witness:
  "\<exists>b'. async_dispatch 4 sample_async = Some (Returns b') \<and>
     ab_trace b' = [(10, 0, 7), (11, 0, 7), (10, 0, 8), (11, 0, 8)]"
proof -
  have s: "ab_storage sample_async = \<lparr>m_callbacks =
      [[Async_callback 10 (\<lambda>v. []), Async_callback 11 (\<lambda>v. [])]], m_publishCount = 0\<rparr>"
    "ab_indices sample_async = \<lparr>m_eventIndex = 1, ei_index = [(0, 0)]\<rparr>"
    "m_eventPublishers sample_async = [(0, 7), (1, 9), (0, 8)]" "ab_trace sample_async = []"
    by (simp_all add: sample_async_def async_publish_def async_subscribe_def storage_subscribe_def
        new_async_bus_def new_storage_def throwIfPublishing_def eventIndex_def
        reserveAndResizeIfNecessary_def Let_def)
  have "storage_ok (ab_storage sample_async) (ab_indices sample_async)"
    by (simp add: s storage_ok_def indices_ok_def)
  then have "\<exists>b'. async_dispatch 4 sample_async = Some (Returns b') \<and> m_eventPublishers b' = [] \<and>
      ab_storage b' = ab_storage sample_async \<and>
      ab_trace b' = [(10, 0, 7), (11, 0, 7), (10, 0, 8), (11, 0, 8)]"
    using dispatch_delivers_in_order [of sample_async 4] by (simp add: s subscribers_def)
  then show ?thesis by blast
qed

end
