(* ===== verification/Network_Component.thy ===== *)
theory Network_Component
  imports Client
begin

text \<open>
  \<open>client/src/network/NetworkComponent.hpp\<close>/\<open>.cpp\<close>: the client on its worker thread, and the
  queue of results the user interface drains once a frame. The two threads share the queue
  under a mutex and read the connection state atomically; the coroutines the interface spawns
  wait until the worker takes them up. A step is one of either thread, so the interleavings of
  the two are the sequences of steps.
\<close>

section \<open>Results\<close>

datatype NetworkOperation = Connect_op | Disconnect_op | Ping_op | StateSnapshot_op

datatype network_result =
    Pong_result PongResponse
  | Snapshot_result StateSnapshotResponse
  | NetworkError NetworkOperation string

text \<open>\<open>exceptionMessage\<close>: all exceptions of the client are standard ones.\<close>

definition exceptionMessage :: "(error_code \<Rightarrow> string) \<Rightarrow> exn \<Rightarrow> string" where
  "exceptionMessage ec_text x = exn_what ec_text x"

text \<open>
  The completion handlers of the four operations: what they publish for what the coroutine
  returned.
\<close>

fun completion :: "(error_code \<Rightarrow> string) \<Rightarrow> outcome \<Rightarrow> network_result option" where
  "completion ec_text (Connect_returns (Inl x)) = Some (NetworkError Connect_op (exceptionMessage ec_text x))"
| "completion ec_text (Connect_returns (Inr _)) = None"
| "completion ec_text (Disconnect_returns (Inl x)) =
     Some (NetworkError Disconnect_op (exceptionMessage ec_text x))"
| "completion ec_text (Disconnect_returns (Inr _)) = None"
| "completion ec_text (Ping_returns request k (Inl x)) =
     Some (NetworkError Ping_op (exceptionMessage ec_text x))"
| "completion ec_text (Ping_returns request k (Inr response)) = Some (Pong_result response)"
| "completion ec_text (Snapshot_returns k (Inl x)) =
     Some (NetworkError StateSnapshot_op (exceptionMessage ec_text x))"
| "completion ec_text (Snapshot_returns k (Inr response)) = Some (Snapshot_result response)"

section \<open>The component\<close>

text \<open>
  \<open>nc_spawned\<close> are the coroutines the worker has not started, \<open>nc_ended\<close> the calls whose
  completion handlers it has not run, \<open>nc_drained\<close> the results the user interface has got so far.
  The state and the queue of results are shared by the threads, and are not written together.
\<close>

record network_component =
  m_client :: client
  m_results :: "network_result list"
  nc_spawned :: "client_event list"
  nc_ended :: "outcome list"
  nc_drained :: "network_result list"

definition network_create :: "client_config \<Rightarrow> network_component result" where
  "network_create cfg =
     (case client_create cfg of
        Inl x \<Rightarrow> Inl x
      | Inr c \<Rightarrow>
          Inr \<lparr>m_client = c, m_results = [], nc_spawned = [], nc_ended = [], nc_drained = []\<rparr>)"

definition spawn :: "client_event \<Rightarrow> network_component \<Rightarrow> network_component" where
  "spawn call nc = nc\<lparr>nc_spawned := nc_spawned nc @ [call]\<rparr>"

definition nc_connect :: "network_component \<Rightarrow> network_component" where
  "nc_connect = spawn Call_connect"

definition nc_disconnect :: "network_component \<Rightarrow> network_component" where
  "nc_disconnect = spawn Call_disconnect"

definition nc_sendRequest :: "client_payload \<Rightarrow> network_component \<Rightarrow> network_component" where
  "nc_sendRequest payload = spawn (Call_request payload)"

definition nc_state :: "network_component \<Rightarrow> ConnectionState" where
  "nc_state nc = m_state (m_client nc)"

definition nc_publish :: "network_result \<Rightarrow> network_component \<Rightarrow> network_component" where
  "nc_publish r nc = nc\<lparr>m_results := m_results nc @ [r]\<rparr>"

definition drainResults :: "network_component \<Rightarrow> network_result list \<times> network_component" where
  "drainResults nc =
     (m_results nc, nc\<lparr>m_results := [], nc_drained := nc_drained nc @ m_results nc\<rparr>)"

text \<open>
  The destructor up to the wait for its future; what its \<open>disconnect\<close> returns goes to the
  future, as \<open>completion\<close> has it, for it returns normally.
\<close>

definition nc_shutdown :: "network_component \<Rightarrow> network_component" where
  "nc_shutdown = spawn Call_disconnect"

text \<open>One step of the worker: the client makes a step, in which calls may end.\<close>

definition worker_step :: "client_event \<Rightarrow> network_component \<Rightarrow> network_component option" where
  "worker_step e nc =
     (case client_exec e (m_client nc) of
        None \<Rightarrow> None
      | Some c \<Rightarrow>
          Some (nc\<lparr>m_client := c,
                  nc_ended := nc_ended nc @ drop (length (cl_outcomes (m_client nc))) (cl_outcomes c)\<rparr>))"

text \<open>The completion handler of the call that ended first.\<close>

definition complete_call ::
  "(error_code \<Rightarrow> string) \<Rightarrow> network_component \<Rightarrow> network_component option" where
  "complete_call ec_text nc =
     (case nc_ended nc of
        [] \<Rightarrow> None
      | oc # ocs \<Rightarrow>
          Some (case completion ec_text oc of
                  None \<Rightarrow> nc\<lparr>nc_ended := ocs\<rparr>
                | Some r \<Rightarrow> nc_publish r (nc\<lparr>nc_ended := ocs\<rparr>)))"

text \<open>The steps of the worker, and with them those of the user interface.\<close>

datatype worker_event = Takes nat | Client_step client_event | Completes

fun worker_exec ::
  "(error_code \<Rightarrow> string) \<Rightarrow> worker_event \<Rightarrow> network_component \<Rightarrow> network_component option" where
  "worker_exec ec_text (Takes i) nc =
     (if i < length (nc_spawned nc)
      then worker_step (nc_spawned nc ! i) (nc\<lparr>nc_spawned := remove_at i (nc_spawned nc)\<rparr>)
      else None)"
| "worker_exec ec_text (Client_step e) nc = (if internal_event e then worker_step e nc else None)"
| "worker_exec ec_text Completes nc = complete_call ec_text nc"

datatype nc_event =
    Ui_connect
  | Ui_disconnect
  | Ui_request client_payload
  | Ui_drain
  | Ui_shutdown
  | Worker worker_event

fun nc_exec :: "(error_code \<Rightarrow> string) \<Rightarrow> nc_event \<Rightarrow> network_component \<Rightarrow> network_component option" where
  "nc_exec ec_text Ui_connect nc = Some (nc_connect nc)"
| "nc_exec ec_text Ui_disconnect nc = Some (nc_disconnect nc)"
| "nc_exec ec_text (Ui_request payload) nc = Some (nc_sendRequest payload nc)"
| "nc_exec ec_text Ui_drain nc = Some (snd (drainResults nc))"
| "nc_exec ec_text Ui_shutdown nc = Some (nc_shutdown nc)"
| "nc_exec ec_text (Worker e) nc = worker_exec ec_text e nc"

abbreviation nc_execs ::
  "(error_code \<Rightarrow> string) \<Rightarrow> nc_event list \<Rightarrow> network_component \<Rightarrow> network_component option" where
  "nc_execs ec_text \<equiv> runs (nc_exec ec_text)"

lemmas ui_defs = nc_connect_def nc_disconnect_def nc_sendRequest_def nc_shutdown_def spawn_def
  drainResults_def

section \<open>The client of the component\<close>

text \<open>
  What the worker does to the client is a run of the client: no other step touches it. The
  steps preserve any property of a client and of the list of results on their way.
\<close>

definition nc_run :: "client_config \<Rightarrow> network_component \<Rightarrow> bool" where
  "nc_run cfg nc \<longleftrightarrow> (\<exists>es. client_run cfg es (m_client nc))"

lemma worker_step_run: "nc_run cfg nc \<Longrightarrow> worker_step e nc = Some nc' \<Longrightarrow> nc_run cfg nc'"
  by (auto simp: nc_run_def worker_step_def split: option.splits) (blast intro: client_next)

lemma worker_exec_run:
  assumes "nc_run cfg nc" and "worker_exec ec_text e nc = Some nc'"
  shows "nc_run cfg nc'"
proof (cases e)
  case (Takes i)
  have "nc_run cfg (nc\<lparr>nc_spawned := remove_at i (nc_spawned nc)\<rparr>)"
    using assms(1) by (simp add: nc_run_def)
  with Takes assms(2) show ?thesis
    using worker_step_run by (simp split: if_splits)
next
  case (Client_step e')
  with assms show ?thesis using worker_step_run by (simp split: if_splits)
next
  case Completes
  with assms show ?thesis
    by (auto simp: complete_call_def nc_publish_def nc_run_def split: list.splits option.splits)
qed

lemma nc_exec_run: "nc_run cfg nc \<Longrightarrow> nc_exec ec_text e nc = Some nc' \<Longrightarrow> nc_run cfg nc'"
  by (cases e) (auto simp: ui_defs nc_run_def intro: worker_exec_run [unfolded nc_run_def])

lemma network_create_run: "network_create cfg = Inr nc \<Longrightarrow> nc_run cfg nc"
  by (auto simp: network_create_def nc_run_def split: sum.splits) (blast intro: client_start)

interpretation nc_client: machine_invariant "nc_exec ec_text" "nc_run cfg" for ec_text cfg
  by unfold_locales (rule nc_exec_run)

section \<open>Nothing is lost\<close>

definition results_inv :: "(error_code \<Rightarrow> string) \<Rightarrow> network_component \<Rightarrow> bool" where
  "results_inv ec_text nc \<longleftrightarrow>
     nc_drained nc @ m_results nc @ List.map_filter (completion ec_text) (nc_ended nc) =
       List.map_filter (completion ec_text) (cl_outcomes (m_client nc))"

text \<open>The client only ever appends to its outcomes.\<close>

lemma client_exec_appends: "client_exec e c = Some c' \<Longrightarrow> \<exists>ocs. cl_outcomes c' = cl_outcomes c @ ocs"
  using client_exec_logs by blast

lemma worker_step_inv:
  assumes "results_inv ec_text nc" and "worker_step e nc = Some nc'"
  shows "results_inv ec_text nc'"
proof -
  obtain c where c: "client_exec e (m_client nc) = Some c"
    "nc' = nc\<lparr>m_client := c,
       nc_ended := nc_ended nc @ drop (length (cl_outcomes (m_client nc))) (cl_outcomes c)\<rparr>"
    using assms(2) by (auto simp: worker_step_def split: option.splits)
  obtain ocs where ocs: "cl_outcomes c = cl_outcomes (m_client nc) @ ocs"
    using client_exec_appends [OF c(1)] by blast
  then have "m_client nc' = c" "nc_drained nc' = nc_drained nc" "m_results nc' = m_results nc"
    "nc_ended nc' = nc_ended nc @ ocs"
    by (simp_all add: c(2))
  then show ?thesis
    using assms(1) ocs by (metis append_assoc map_filter_append results_inv_def)
qed

lemma complete_call_inv:
  "results_inv ec_text nc \<Longrightarrow> complete_call ec_text nc = Some nc' \<Longrightarrow> results_inv ec_text nc'"
  by (auto simp: results_inv_def complete_call_def nc_publish_def List.map_filter_def
      split: list.splits option.splits)

lemma worker_exec_inv:
  assumes "results_inv ec_text nc" and "worker_exec ec_text e nc = Some nc'"
  shows "results_inv ec_text nc'"
proof (cases e)
  case (Takes i)
  have "results_inv ec_text (nc\<lparr>nc_spawned := remove_at i (nc_spawned nc)\<rparr>)"
    using assms(1) by (simp add: results_inv_def)
  with Takes assms(2) show ?thesis using worker_step_inv by (simp split: if_splits)
next
  case (Client_step e')
  with assms show ?thesis using worker_step_inv by (simp split: if_splits)
next
  case Completes
  with assms complete_call_inv show ?thesis by simp
qed

lemma nc_exec_inv: "results_inv ec_text nc \<Longrightarrow> nc_exec ec_text e nc = Some nc' \<Longrightarrow> results_inv ec_text nc'"
  by (cases e) (auto simp: ui_defs results_inv_def intro: worker_exec_inv [unfolded results_inv_def])

interpretation nc_results: machine_invariant "nc_exec ec_text" "results_inv ec_text" for ec_text
  by unfold_locales (rule nc_exec_inv)

lemma network_create_inv: "network_create cfg = Inr nc \<Longrightarrow> results_inv ec_text nc"
  by (auto simp: network_create_def client_create_def results_inv_def List.map_filter_def
      split: sum.splits)

section \<open>Shutting down\<close>

text \<open>The calls of \<open>disconnect\<close> so far: those that have returned, and those that wait.\<close>

fun of_disconnect :: "outcome \<Rightarrow> bool" where
  "of_disconnect (Disconnect_returns r) = True"
| "of_disconnect oc = False"

definition returned_disconnects :: "client \<Rightarrow> nat" where
  "returned_disconnects c = length (filter of_disconnect (cl_outcomes c))"

definition disconnect_calls :: "client \<Rightarrow> nat" where
  "disconnect_calls c = returned_disconnects c + length (m_disconnectWaiters c)"

lemma length_remove_one: "i < length xs \<Longrightarrow> length xs = Suc (length (remove_at i xs))"
  by (simp add: remove_at_def)

lemma request_outcome_kind [simp]: "\<not> of_disconnect (request_outcome payload k r)"
  by (simp add: request_outcome_def split: client_payload.splits)

lemma waiters_setState [simp]:
  "length (m_disconnectWaiters (setState st c)) = length (m_disconnectWaiters c)"
  by (simp add: setState_def Let_def)

lemma disconnect_calls_step:
  assumes "client_exec e c = Some c'"
  shows "disconnect_calls c' = disconnect_calls c + (if e = Call_disconnect then 1 else 0)"
proof -
  note defs = disconnect_calls_def returned_disconnects_def log_outcome_def
  show ?thesis
  proof (cases e)
    case Call_connect
    with assms show ?thesis by (auto simp: defs connect_begin_def)
  next
    case (Connect_done ec)
    with assms show ?thesis
      by (auto simp: defs connect_resume_def connect_failed_def closeConnectingSocket_def Let_def
          split: if_splits prod.splits sum.splits option.splits)
  next
    case Call_disconnect
    with assms show ?thesis
      by (cases "m_state c") (auto simp: defs disconnect_begin_def waitForDisconnected_def
          closeConnectingSocket_def case_prod_unfold Let_def split: option.splits)
  next
    case (Waiter_resumed i)
    with assms length_remove_one [of i "m_disconnectWaiters c"] show ?thesis
      by (auto simp: defs disconnect_resume_def Let_def split: if_splits waiter.splits)
  next
    case (Call_request payload)
    with assms show ?thesis
      by (auto simp: defs request_begin_def Let_def split: prod.splits sum.splits fault.splits)
  next
    case (Sender_resumed i)
    then obtain ec where "c' = request_resume i ec c"
      using assms by (metis sender_resumedD)
    with Sender_resumed show ?thesis
      by (simp add: defs request_resume_def case_prod_unfold Let_def)
  next
    case Posted_close
    with assms show ?thesis
      by (auto simp: defs client_connectionClosed_def cm_connectionClosed_def case_prod_unfold Let_def
          split: if_splits)
  next
    case (Received ref i)
    with assms show ?thesis
      by (auto simp: defs client_receive_def client_settle_def Let_def split: if_splits read_loop.splits)
  next
    case (Conn_event ref ev)
    with assms show ?thesis
      by (auto simp: defs client_settle_def Let_def split: if_splits)
  qed (use assms in \<open>auto simp: defs split: if_splits option.splits\<close>)
qed

lemma disconnect_calls_internal:
  "client_execs fs c = Some c' \<Longrightarrow> list_all internal_event fs \<Longrightarrow> disconnect_calls c' = disconnect_calls c"
proof (induction fs arbitrary: c)
  case (Cons f fs)
  then obtain c1 where c1: "client_exec f c = Some c1" "client_execs fs c1 = Some c'"
    by (auto split: Option.bind_splits)
  moreover have "f \<noteq> Call_disconnect" using Cons.prems(2) by auto
  ultimately show ?case using Cons disconnect_calls_step [OF c1(1)] by simp
qed simp

text \<open>Once the client is disconnected, the waiting coroutines can all be resumed.\<close>

lemma waiters_return:
  "client_run cfg es c \<Longrightarrow> m_state c = Disconnected \<Longrightarrow>
     \<exists>fs c'. client_execs fs c = Some c' \<and> list_all internal_event fs \<and>
       m_state c' = Disconnected \<and> m_disconnectWaiters c' = []"
proof (induction "length (m_disconnectWaiters c)" arbitrary: es c)
  case 0
  then show ?case by (intro exI [of _ "[]"] exI [of _ c]) simp
next
  case (Suc n)
  then obtain w ws where ws: "m_disconnectWaiters c = w # ws" by (auto simp: Suc_length_conv)
  then have "w = Waiter_done Ec_operation_aborted"
    using client_run_link [OF Suc.prems(1)] Suc.prems(2) by (auto simp: link_inv_def waiters_inv_def)
  then have step: "client_exec (Waiter_resumed 0) c = Some (disconnect_resume 0 Ec_operation_aborted c)"
    using ws by simp
  let ?c = "disconnect_resume 0 Ec_operation_aborted c"
  have c: "m_state ?c = Disconnected" "n = length (m_disconnectWaiters ?c)"
    using Suc.hyps(2) Suc.prems(2) ws by (simp_all add: disconnect_resume_def log_outcome_def remove_at_def)
  from Suc.hyps(1) [OF c(2) client_next [OF Suc.prems(1) step] c(1)] obtain fs c' where
    "client_execs fs ?c = Some c'" "list_all internal_event fs" "m_state c' = Disconnected"
    "m_disconnectWaiters c' = []" by blast
  with step show ?case by (intro exI [of _ "Waiter_resumed 0 # fs"] exI [of _ c']) simp
qed

text \<open>Steps of the client, and all completion handlers, as steps of the worker.\<close>

lemma client_steps:
  "client_execs fs (m_client nc) = Some c \<Longrightarrow> list_all internal_event fs \<Longrightarrow>
     \<exists>nc'. nc_execs ec_text (map (\<lambda>e. Worker (Client_step e)) fs) nc = Some nc' \<and> m_client nc' = c \<and>
       nc_spawned nc' = nc_spawned nc"
proof (induction fs arbitrary: nc)
  case (Cons f fs)
  then obtain c1 where c1: "client_exec f (m_client nc) = Some c1" "client_execs fs c1 = Some c"
    by (auto split: Option.bind_splits)
  then obtain nc1 where "worker_step f nc = Some nc1" "m_client nc1 = c1" "nc_spawned nc1 = nc_spawned nc"
    by (simp add: worker_step_def)
  moreover from this Cons.IH [of nc1] c1(2) Cons.prems(2) obtain nc' where
    "nc_execs ec_text (map (\<lambda>e. Worker (Client_step e)) fs) nc1 = Some nc'" "m_client nc' = c"
    "nc_spawned nc' = nc_spawned nc1" by auto
  ultimately show ?case using Cons.prems(2) by simp
qed simp

lemma completion_steps:
  "\<exists>fs nc'. nc_execs ec_text (map Worker fs) nc = Some nc' \<and> m_client nc' = m_client nc \<and>
     nc_spawned nc' = nc_spawned nc \<and> nc_ended nc' = []"
proof (induction "nc_ended nc" arbitrary: nc)
  case Nil
  then show ?case by (intro exI [of _ "[]"] exI [of _ nc]) simp
next
  case (Cons oc ocs)
  obtain nc1 where nc1: "complete_call ec_text nc = Some nc1" "nc_ended nc1 = ocs"
    "m_client nc1 = m_client nc" "nc_spawned nc1 = nc_spawned nc"
    using Cons.hyps(2) [symmetric]
    by (cases "completion ec_text oc") (simp_all add: complete_call_def nc_publish_def)
  from Cons.hyps(1) [OF nc1(2) [symmetric]] obtain fs nc' where
    "nc_execs ec_text (map Worker fs) nc1 = Some nc'" "m_client nc' = m_client nc1"
    "nc_spawned nc' = nc_spawned nc1" "nc_ended nc' = []" by blast
  with nc1 show ?case by (intro exI [of _ "Completes # fs"] exI [of _ nc']) simp
qed

text \<open>A call of \<open>disconnect\<close> leads to \<open>Disconnected\<close>, and every call returns there.\<close>

lemma disconnect_returns:
  assumes run: "client_run cfg es c"
  shows "\<exists>fs c'. client_execs fs (disconnect_begin c) = Some c' \<and> list_all internal_event fs \<and>
     m_state c' = Disconnected \<and> m_disconnectWaiters c' = []"
proof -
  let ?c = "disconnect_begin c"
  have run1: "client_run cfg (es @ [Call_disconnect]) ?c" by (rule client_next [OF run]) simp
  have "m_state ?c = Disconnected \<or> m_state ?c = Disconnecting"
    by (cases "m_state c") (auto simp: disconnect_begin_def log_outcome_def waitForDisconnected_def
        setState_def closeConnectingSocket_def case_prod_unfold Let_def split: option.splits)
  moreover have "client_execs [] ?c = Some ?c" "list_all internal_event []" by simp_all
  ultimately obtain fs c1 where c1: "client_execs fs ?c = Some c1" "list_all internal_event fs"
    "m_state c1 = Disconnected"
    using disconnecting_ends [OF run1] by blast
  from waiters_return [OF client_execs_run [OF run1 c1(1)] c1(3)] obtain gs c2 where
    "client_execs gs c1 = Some c2" "list_all internal_event gs" "m_state c2 = Disconnected"
    "m_disconnectWaiters c2 = []" by blast
  with c1 show ?thesis
    by (intro exI [of _ "fs @ gs"] exI [of _ c2]) (simp add: runs_append)
qed

section \<open>Properties\<close>

text \<open>A ping without a connection, a drain, and a connect that fails.\<close>

definition sample_network :: network_component where
  "sample_network = projr (network_create default_client_config)"

definition sample_network_events :: "nc_event list" where
  "sample_network_events =
     [Ui_request (Ping \<lparr>ping_timestamp = 1\<rparr>), Ui_connect, Worker (Takes 0), Worker Completes,
      Ui_drain, Worker (Takes 0), Worker (Client_step (Connect_done Ec_operation_aborted))]"

lemma sample_network_create: "network_create default_client_config = Inr sample_network"
  by (simp add: sample_network_def network_create_def client_create_def validate_def
      default_client_config_def)



end
