(* ===== verification/State_Stack.thy ===== *)
theory State_Stack
  imports Network_Component "HOL-Library.Multiset"
begin

text \<open>
  \<open>client/src/states/StateManager.hpp\<close>/\<open>.cpp\<close>, \<open>ApplicationState.hpp\<close> and
  \<open>client/src/ui/UiComponent.hpp\<close>/\<open>.cpp\<close>: the stack of application states. An application
  state is its root widget, the two answers that let the states below it run and show, and
  what it asks of the state manager when one of its functions is called. The widget library is
  reduced to what the code uses of it: the list of mounted widgets and whether each is enabled.
\<close>

section \<open>UiComponent\<close>

type_synonym widget = nat

record ui =
  gui_widgets :: "widget list"
  ui_enabled :: "widget \<Rightarrow> bool"

definition new_ui :: ui where
  "new_ui = \<lparr>gui_widgets = [], ui_enabled = (\<lambda>_. True)\<rparr>"

definition mount :: "widget \<Rightarrow> ui \<Rightarrow> ui" where
  "mount root u = u\<lparr>gui_widgets := gui_widgets u @ [root]\<rparr>"

definition unmount :: "widget \<Rightarrow> ui \<Rightarrow> ui" where
  "unmount root u = u\<lparr>gui_widgets := remove1 root (gui_widgets u)\<rparr>"

definition setInteractive :: "widget \<Rightarrow> bool \<Rightarrow> ui \<Rightarrow> ui" where
  "setInteractive root interactive u = u\<lparr>ui_enabled := (ui_enabled u)(root := interactive)\<rparr>"

section \<open>ApplicationState\<close>

text \<open>The functions of a state the manager calls, with the argument of an event or a result.\<close>

datatype state_call = Handles_event nat | Handles_result network_result | Updates | Renders

datatype app_state =
    App_state (uiRoot: widget) (updatesBelow: bool) (drawsBelow: bool)
      (requests: "state_call \<Rightarrow> request list")
  and request =
    Request_push "app_state option" | Request_reset "app_state option" | Request_pop

section \<open>StateManager\<close>

datatype change = Push app_state | ResetTo app_state | Pop

record state_manager =
  m_ui :: ui
  m_states :: "app_state list"
  m_pendingChanges :: "change list"
  sm_calls :: "(widget \<times> state_call) list"

definition refreshInteractivity :: "state_manager \<Rightarrow> state_manager" where
  "refreshInteractivity m =
     m\<lparr>m_ui := fold (\<lambda>i u. setInteractive (uiRoot (m_states m ! i)) (i = length (m_states m) - 1) u)
                [0 ..< length (m_states m)] (m_ui m)\<rparr>"

text \<open>The constructor; \<open>None\<close> is a null pointer.\<close>

definition StateManager :: "ui \<Rightarrow> app_state option \<Rightarrow> state_manager result" where
  "StateManager u initialState =
     (case initialState of
        None \<Rightarrow> Inl (Invalid_argument ''Initial application state must not be null'')
      | Some st \<Rightarrow>
          Inr (refreshInteractivity
            \<lparr>m_ui = mount (uiRoot st) u, m_states = [st], m_pendingChanges = [], sm_calls = []\<rparr>))"

definition requestPush :: "app_state option \<Rightarrow> state_manager \<Rightarrow> unit result \<times> state_manager" where
  "requestPush state m =
     (case state of
        None \<Rightarrow> (Inl (Invalid_argument ''Pushed application state must not be null''), m)
      | Some st \<Rightarrow> (Inr (), m\<lparr>m_pendingChanges := m_pendingChanges m @ [Push st]\<rparr>))"

definition requestResetTo :: "app_state option \<Rightarrow> state_manager \<Rightarrow> unit result \<times> state_manager" where
  "requestResetTo state m =
     (case state of
        None \<Rightarrow> (Inl (Invalid_argument ''Reset application state must not be null''), m)
      | Some st \<Rightarrow> (Inr (), m\<lparr>m_pendingChanges := m_pendingChanges m @ [ResetTo st]\<rparr>))"

definition requestPop :: "state_manager \<Rightarrow> state_manager" where
  "requestPop m = m\<lparr>m_pendingChanges := m_pendingChanges m @ [Pop]\<rparr>"

text \<open>A call of a function of a state, which may make requests; the first exception ends it.\<close>

fun run_requests :: "request list \<Rightarrow> state_manager \<Rightarrow> unit result \<times> state_manager" where
  "run_requests [] m = (Inr (), m)"
| "run_requests (Request_push st # rs) m =
     (case requestPush st m of (Inl x, m1) \<Rightarrow> (Inl x, m1) | (Inr _, m1) \<Rightarrow> run_requests rs m1)"
| "run_requests (Request_reset st # rs) m =
     (case requestResetTo st m of (Inl x, m1) \<Rightarrow> (Inl x, m1) | (Inr _, m1) \<Rightarrow> run_requests rs m1)"
| "run_requests (Request_pop # rs) m = run_requests rs (requestPop m)"

definition call_state :: "state_call \<Rightarrow> app_state \<Rightarrow> state_manager \<Rightarrow> unit result \<times> state_manager" where
  "call_state call st m =
     run_requests (requests st call) (m\<lparr>sm_calls := sm_calls m @ [(uiRoot st, call)]\<rparr>)"

fun call_states ::
  "state_call \<Rightarrow> app_state list \<Rightarrow> state_manager \<Rightarrow> unit result \<times> state_manager" where
  "call_states call [] m = (Inr (), m)"
| "call_states call (st # sts) m =
     (case call_state call st m of (Inl x, m1) \<Rightarrow> (Inl x, m1) | (Inr _, m1) \<Rightarrow> call_states call sts m1)"

text \<open>The loop of \<open>firstUpdatedState\<close> and \<open>firstRenderedState\<close>.\<close>

fun first_below :: "(app_state \<Rightarrow> bool) \<Rightarrow> app_state list \<Rightarrow> nat \<Rightarrow> nat" where
  "first_below below sts 0 = 0"
| "first_below below sts (Suc n) = (if below (sts ! Suc n) then first_below below sts n else Suc n)"

definition firstUpdatedState :: "state_manager \<Rightarrow> nat" where
  "firstUpdatedState m = first_below updatesBelow (m_states m) (length (m_states m) - 1)"

definition firstRenderedState :: "state_manager \<Rightarrow> nat" where
  "firstRenderedState m = first_below drawsBelow (m_states m) (length (m_states m) - 1)"

definition sm_handleEvent :: "nat \<Rightarrow> state_manager \<Rightarrow> unit result \<times> state_manager" where
  "sm_handleEvent event m = call_state (Handles_event event) (last (m_states m)) m"

definition sm_handleNetworkResult :: "network_result \<Rightarrow> state_manager \<Rightarrow> unit result \<times> state_manager" where
  "sm_handleNetworkResult r m =
     call_states (Handles_result r) (drop (firstUpdatedState m) (m_states m)) m"

definition sm_render :: "state_manager \<Rightarrow> unit result \<times> state_manager" where
  "sm_render m = call_states Renders (drop (firstRenderedState m) (m_states m)) m"

text \<open>\<open>applyPendingChanges\<close>: one change, then the loop over them.\<close>

fun apply_change :: "change \<Rightarrow> state_manager \<Rightarrow> unit result \<times> state_manager" where
  "apply_change (Push st) m =
     (Inr (), m\<lparr>m_ui := mount (uiRoot st) (m_ui m), m_states := m_states m @ [st]\<rparr>)"
| "apply_change (ResetTo st) m =
     (Inr (), m\<lparr>m_ui := fold (\<lambda>old. unmount (uiRoot old)) (m_states m) (mount (uiRoot st) (m_ui m)),
                m_states := [st]\<rparr>)"
| "apply_change Pop m =
     (if length (m_states m) = 1
      then (Inl (Logic_error ''Cannot pop the last application state''), m)
      else (Inr (), m\<lparr>m_ui := unmount (uiRoot (last (m_states m))) (m_ui m),
                      m_states := butlast (m_states m)\<rparr>))"

fun apply_changes :: "change list \<Rightarrow> state_manager \<Rightarrow> unit result \<times> state_manager" where
  "apply_changes [] m = (Inr (), m)"
| "apply_changes (c # cs) m =
     (case apply_change c (m\<lparr>m_pendingChanges := cs\<rparr>) of
        (Inl x, m1) \<Rightarrow> (Inl x, m1)
      | (Inr _, m1) \<Rightarrow> apply_changes cs m1)"

definition applyPendingChanges :: "state_manager \<Rightarrow> unit result \<times> state_manager" where
  "applyPendingChanges m =
     (if m_pendingChanges m = [] then (Inr (), m)
      else case apply_changes (m_pendingChanges m) m of
             (Inl x, m1) \<Rightarrow> (Inl x, m1)
           | (Inr _, m1) \<Rightarrow> (Inr (), refreshInteractivity m1))"

definition sm_update :: "state_manager \<Rightarrow> unit result \<times> state_manager" where
  "sm_update m =
     (case call_states Updates (drop (firstUpdatedState m) (m_states m)) m of
        (Inl x, m1) \<Rightarrow> (Inl x, m1)
      | (Inr _, m1) \<Rightarrow> applyPendingChanges m1)"

section \<open>The stack and the widgets\<close>

text \<open>There is always a state, and the mounted widgets are the roots of the states.\<close>

definition stack_ok :: "state_manager \<Rightarrow> bool" where
  "stack_ok m \<longleftrightarrow> m_states m \<noteq> [] \<and> mset (gui_widgets (m_ui m)) = mset (map uiRoot (m_states m))"

lemma fold_interactive_widgets [simp]:
  "gui_widgets (fold (\<lambda>i u. setInteractive (r i) (p i) u) is u) = gui_widgets u"
  by (induction "is" arbitrary: u) (simp_all add: setInteractive_def)

lemma refresh_frame [simp]:
  "m_states (refreshInteractivity m) = m_states m"
  "gui_widgets (m_ui (refreshInteractivity m)) = gui_widgets (m_ui m)"
  "m_pendingChanges (refreshInteractivity m) = m_pendingChanges m"
  "sm_calls (refreshInteractivity m) = sm_calls m"
  by (simp_all add: refreshInteractivity_def)

text \<open>Calling states only records the calls and adds pending changes.\<close>

definition only_requests :: "state_manager \<Rightarrow> state_manager \<Rightarrow> bool" where
  "only_requests m m' \<longleftrightarrow>
     m_states m' = m_states m \<and> m_ui m' = m_ui m \<and>
     (\<exists>cs. m_pendingChanges m' = m_pendingChanges m @ cs)"

lemma only_requests_trans: "only_requests m m1 \<Longrightarrow> only_requests m1 m2 \<Longrightarrow> only_requests m m2"
  by (auto simp: only_requests_def)

lemma run_requests_only:
  "run_requests rs m = (r, m') \<Longrightarrow> only_requests m m' \<and> sm_calls m' = sm_calls m"
proof (induction rs m arbitrary: r m' rule: run_requests.induct)
  case (2 st rs m)
  then show ?case
    by (cases st) (fastforce simp: requestPush_def only_requests_def)+
next
  case (3 st rs m)
  then show ?case
    by (cases st) (fastforce simp: requestResetTo_def only_requests_def)+
next
  case (4 rs m)
  then show ?case by (fastforce simp: requestPop_def only_requests_def)
qed (simp add: only_requests_def)

lemma call_state_only:
  assumes "call_state call st m = (r, m')"
  shows "only_requests m m'" and "sm_calls m' = sm_calls m @ [(uiRoot st, call)]"
  using run_requests_only [OF assms [unfolded call_state_def]] by (simp_all add: only_requests_def)

lemma call_states_only:
  "call_states call sts m = (r, m') \<Longrightarrow>
     only_requests m m' \<and> (\<exists>k \<le> length sts. sm_calls m' =
       sm_calls m @ map (\<lambda>st. (uiRoot st, call)) (take k sts) \<and> (isl r \<or> k = length sts))"
proof (induction sts arbitrary: m)
  case (Cons st sts)
  obtain q m1 where m1: "call_state call st m = (q, m1)" by fastforce
  note one = call_state_only [OF m1]
  show ?case
  proof (cases q)
    case (Inl x)
    with Cons.prems m1 one show ?thesis by (auto intro!: exI [of _ 1])
  next
    case (Inr u)
    with Cons.prems m1 have "call_states call sts m1 = (r, m')" by simp
    from Cons.IH [OF this] obtain k where k: "k \<le> length sts" "only_requests m1 m'"
      "sm_calls m' = sm_calls m1 @ map (\<lambda>st. (uiRoot st, call)) (take k sts)" "isl r \<or> k = length sts"
      by blast
    with one only_requests_trans [OF one(1) k(2)] show ?thesis
      by (intro conjI exI [of _ "Suc k"]) auto
  qed
qed (simp add: only_requests_def)

lemma only_requests_ok: "only_requests m m' \<Longrightarrow> stack_ok m \<Longrightarrow> stack_ok m'"
  by (simp add: only_requests_def stack_ok_def)

lemma fold_unmount:
  "gui_widgets (fold (\<lambda>old. unmount (uiRoot old)) sts u) = fold remove1 (map uiRoot sts) (gui_widgets u)"
  by (induction sts arbitrary: u) (simp_all add: unmount_def)

lemma mset_fold_remove1: "mset (fold remove1 ys xs) = mset xs - mset ys"
  by (induction ys arbitrary: xs) simp_all

lemma apply_change_ok: "apply_change c m = (r, m') \<Longrightarrow> stack_ok m \<Longrightarrow> stack_ok m'"
proof (induction c m rule: apply_change.induct)
  case (3 m)
  show ?case
  proof (cases "length (m_states m) = 1")
    case False
    with 3 have states: "m_states m = butlast (m_states m) @ [last (m_states m)]"
      by (simp add: stack_ok_def)
    moreover have "butlast (m_states m) \<noteq> []"
      using False states by (metis length_append_singleton list.size(3) One_nat_def)
    moreover have "mset (map uiRoot (m_states m)) =
        mset (map uiRoot (butlast (m_states m))) + {#uiRoot (last (m_states m))#}"
      using arg_cong [OF states, of "\<lambda>s. mset (map uiRoot s)"] by simp
    ultimately show ?thesis
      using 3 False by (auto simp: stack_ok_def unmount_def)
  qed (use 3 in simp)
qed (auto simp: stack_ok_def mount_def fold_unmount mset_fold_remove1)

lemma apply_changes_ok: "apply_changes cs m = (r, m') \<Longrightarrow> stack_ok m \<Longrightarrow> stack_ok m'"
proof (induction cs m rule: apply_changes.induct)
  case (2 c cs m)
  obtain q m1 where m1: "apply_change c (m\<lparr>m_pendingChanges := cs\<rparr>) = (q, m1)" by fastforce
  have "stack_ok (m\<lparr>m_pendingChanges := cs\<rparr>)" using 2(3) by (simp add: stack_ok_def)
  then have ok: "stack_ok m1" by (rule apply_change_ok [OF m1])
  show ?case
  proof (cases q)
    case (Inr u)
    with 2 m1 ok show ?thesis by simp
  qed (use 2(2) m1 ok in simp)
qed simp

section \<open>The changes as operations on a stack\<close>

fun stack_after :: "change list \<Rightarrow> app_state list \<Rightarrow> app_state list option" where
  "stack_after [] sts = Some sts"
| "stack_after (Push st # cs) sts = stack_after cs (sts @ [st])"
| "stack_after (ResetTo st # cs) sts = stack_after cs [st]"
| "stack_after (Pop # cs) sts = (if length sts = 1 then None else stack_after cs (butlast sts))"

lemma apply_changes_spec:
  "case stack_after cs (m_states m) of
     None \<Rightarrow> fst (apply_changes cs m) = Inl (Logic_error ''Cannot pop the last application state'')
   | Some sts \<Rightarrow> fst (apply_changes cs m) = Inr () \<and> m_states (snd (apply_changes cs m)) = sts \<and>
       (cs \<noteq> [] \<longrightarrow> m_pendingChanges (snd (apply_changes cs m)) = [])"
proof (induction cs m rule: apply_changes.induct)
  case (2 c cs m)
  let ?m = "m\<lparr>m_pendingChanges := cs\<rparr>"
  obtain q m1 where m1: "apply_change c ?m = (q, m1)" by fastforce
  have pend: "m_pendingChanges m1 = cs" using m1 by (cases c) (auto split: if_splits)
  show ?case
  proof (cases q)
    case (Inl x)
    with m1 show ?thesis by (cases c) (auto split: if_splits)
  next
    case (Inr u)
    have "stack_after (c # cs) (m_states m) = stack_after cs (m_states m1)"
      using m1 Inr by (cases c) (auto split: if_splits)
    moreover have "apply_changes (c # cs) m = apply_changes cs m1" using m1 Inr by simp
    moreover have "cs = [] \<Longrightarrow> m_pendingChanges (snd (apply_changes cs m1)) = []" using pend by simp
    ultimately show ?thesis
      using 2 [OF m1 [symmetric] Inr] by (cases "cs = []") (auto split: option.splits)
  qed
qed simp

text \<open>Setting the interactivity of distinct widgets one after the other.\<close>

lemma fold_interactive:
  assumes "\<And>i. i \<in> set is \<Longrightarrow> i \<noteq> j \<Longrightarrow> r i \<noteq> r j"
  shows "ui_enabled (fold (\<lambda>i u. setInteractive (r i) (p i) u) is u) (r j) =
     (if j \<in> set is then p j else ui_enabled u (r j))"
  using assms
proof (induction "is" arbitrary: u)
  case (Cons i "is")
  show ?case
  proof (cases "i = j")
    case False
    with Cons.prems [of i] have "r j \<noteq> r i" by auto
    with Cons False show ?thesis by (simp add: setInteractive_def)
  next
    case True
    with Cons show ?thesis by (simp add: setInteractive_def)
  qed
qed simp

lemma refresh_top:
  assumes "distinct (map uiRoot (m_states m))" and "j < length (m_states m)"
  shows "ui_enabled (m_ui (refreshInteractivity m)) (uiRoot (m_states m ! j)) \<longleftrightarrow>
     j = length (m_states m) - 1"
proof -
  have "uiRoot (m_states m ! i) \<noteq> uiRoot (m_states m ! j)"
    if "i \<in> set [0 ..< length (m_states m)]" "i \<noteq> j" for i
    using nth_eq_iff_index_eq [OF assms(1), of i j] that assms(2) by auto
  from fold_interactive [of "[0 ..< length (m_states m)]" j "\<lambda>i. uiRoot (m_states m ! i)", OF this]
  show ?thesis using assms(2) by (simp add: refreshInteractivity_def)
qed

section \<open>The states that run\<close>

lemma first_below_spec:
  "first_below below sts n \<le> n \<and>
   (\<forall>i. first_below below sts n < i \<and> i \<le> n \<longrightarrow> below (sts ! i)) \<and>
   (first_below below sts n = 0 \<or> \<not> below (sts ! first_below below sts n))"
proof (induction n)
  case (Suc n)
  then show ?case by (auto simp: le_Suc_eq)
qed simp

text \<open>Applying changes calls no state, so the calls of an update are those of its loop.\<close>

lemma apply_changes_calls: "sm_calls (snd (apply_changes cs m)) = sm_calls m"
proof (induction cs m rule: apply_changes.induct)
  case (2 c cs m)
  obtain q m1 where m1: "apply_change c (m\<lparr>m_pendingChanges := cs\<rparr>) = (q, m1)" by fastforce
  then have "sm_calls m1 = sm_calls m" by (cases c) (auto split: if_splits)
  with 2 m1 show ?case by (cases q) simp_all
qed simp

lemma applyPendingChanges_calls: "sm_calls (snd (applyPendingChanges m)) = sm_calls m"
  using apply_changes_calls [of "m_pendingChanges m" m]
  by (auto simp: applyPendingChanges_def split: prod.splits sum.splits)

lemma sm_update_calls:
  "fst (sm_update m) = Inr () \<Longrightarrow>
     sm_calls (snd (sm_update m)) =
       sm_calls m @ map (\<lambda>st. (uiRoot st, Updates)) (drop (firstUpdatedState m) (m_states m))"
proof -
  assume ok: "fst (sm_update m) = Inr ()"
  obtain q m1 where m1: "call_states Updates (drop (firstUpdatedState m) (m_states m)) m = (q, m1)"
    by fastforce
  with ok obtain u where "q = Inr u" by (cases q) (simp_all add: sm_update_def)
  with m1 call_states_only [OF m1] show ?thesis
    by (auto simp: sm_update_def applyPendingChanges_calls)
qed

section \<open>Runs\<close>

datatype sm_op =
    Do_push "app_state option"
  | Do_reset "app_state option"
  | Do_pop
  | Do_event nat
  | Do_result network_result
  | Do_update
  | Do_render

fun sm_exec :: "sm_op \<Rightarrow> state_manager \<Rightarrow> unit result \<times> state_manager" where
  "sm_exec (Do_push st) m = requestPush st m"
| "sm_exec (Do_reset st) m = requestResetTo st m"
| "sm_exec Do_pop m = (Inr (), requestPop m)"
| "sm_exec (Do_event e) m = sm_handleEvent e m"
| "sm_exec (Do_result r) m = sm_handleNetworkResult r m"
| "sm_exec Do_update m = sm_update m"
| "sm_exec Do_render m = sm_render m"

text \<open>Operations one after the other; one that throws leaves its effect up to there.\<close>

definition sm_run :: "sm_op list \<Rightarrow> state_manager \<Rightarrow> state_manager" where
  "sm_run ops m = fold (\<lambda>op m. snd (sm_exec op m)) ops m"

lemma applyPendingChanges_ok:
  assumes "stack_ok m"
  shows "stack_ok (snd (applyPendingChanges m))"
proof -
  obtain q m1 where m1: "apply_changes (m_pendingChanges m) m = (q, m1)" by fastforce
  with apply_changes_ok [OF m1 assms] assms show ?thesis
    by (cases q) (auto simp: applyPendingChanges_def stack_ok_def)
qed

lemma sm_exec_ok:
  assumes ok: "stack_ok m"
  shows "stack_ok (snd (sm_exec op m))"
proof -
  have calls: "stack_ok (snd (call_states call sts m))" for call sts
    using call_states_only [of call sts m] only_requests_ok [OF _ ok] by (metis prod.collapse)
  show ?thesis
  proof (cases op)
    case Do_update
    obtain q m1 where "call_states Updates (drop (firstUpdatedState m) (m_states m)) m = (q, m1)"
      by fastforce
    with calls [of Updates "drop (firstUpdatedState m) (m_states m)"] Do_update
      applyPendingChanges_ok [of m1] show ?thesis
      by (cases q) (simp_all add: sm_update_def)
  next
    case (Do_event e)
    have "only_requests m (snd (call_state (Handles_event e) (last (m_states m)) m))"
      by (metis call_state_only(1) prod.collapse)
    with only_requests_ok [OF _ ok] Do_event show ?thesis by (simp add: sm_handleEvent_def)
  next
    case (Do_push st)
    with ok show ?thesis by (cases st) (auto simp: requestPush_def stack_ok_def)
  next
    case (Do_reset st)
    with ok show ?thesis by (cases st) (auto simp: requestResetTo_def stack_ok_def)
  qed (use ok calls in \<open>simp_all add: requestPop_def sm_handleNetworkResult_def sm_render_def stack_ok_def\<close>)
qed

lemma sm_run_ok: "stack_ok m \<Longrightarrow> stack_ok (sm_run ops m)"
  unfolding sm_run_def by (induction ops arbitrary: m) (simp_all add: sm_exec_ok)

section \<open>Properties\<close>

definition sample_state :: "widget \<Rightarrow> bool \<Rightarrow> app_state" where
  "sample_state root below = App_state root below below (\<lambda>_. [])"

definition sample_stack :: state_manager where
  "sample_stack = projr (StateManager new_ui (Some (sample_state 1 False)))"

text \<open>
  C39: the stack and the window agree. From the construction of the state manager on, after
  any sequence of requests, events, network results, updates and renderings, whatever the
  states request and even where an operation throws, there is a state on the stack, and the
  widgets mounted in the window are the roots of the states on the stack.
\<close>

theorem stack_and_widgets_agree:
  assumes "StateManager new_ui (Some st) = Inr m"
  shows "m_states (sm_run ops m) \<noteq> [] \<and>
     mset (gui_widgets (m_ui (sm_run ops m))) = mset (map uiRoot (m_states (sm_run ops m)))"
proof -
  have "stack_ok m"
    using assms by (auto simp: StateManager_def stack_ok_def mount_def new_ui_def)
  from sm_run_ok [OF this, of ops] show ?thesis by (simp add: stack_ok_def)
qed

theorem stack_and_widgets_agree_witness:
  "mset (gui_widgets (m_ui (sm_run [Do_push (Some (sample_state 2 True)), Do_update, Do_pop, Do_pop, Do_update]
     sample_stack))) = {#1#}"
proof -
  let ?ops = "[Do_push (Some (sample_state 2 True)), Do_update, Do_pop, Do_pop, Do_update]"
  have "StateManager new_ui (Some (sample_state 1 False)) = Inr sample_stack"
    by (simp add: sample_stack_def StateManager_def)
  from stack_and_widgets_agree [OF this, of ?ops]
  have "mset (gui_widgets (m_ui (sm_run ?ops sample_stack))) =
      mset (map uiRoot (m_states (sm_run ?ops sample_stack)))" by simp
  moreover have "map uiRoot (m_states (sm_run ?ops sample_stack)) = [1]" by code_simp
  ultimately show ?thesis by simp
qed

text \<open>
  C40: the pending changes are applied as operations on a stack, in the order of the requests.
  If they never pop the last state, they all take effect, none is left, and of states with
  different roots exactly the top one is interactive; otherwise the logic error is thrown.
\<close>

theorem changes_applied:
  "case stack_after (m_pendingChanges m) (m_states m) of
     None \<Rightarrow> fst (applyPendingChanges m) = Inl (Logic_error ''Cannot pop the last application state'')
   | Some sts \<Rightarrow>
       fst (applyPendingChanges m) = Inr () \<and> m_states (snd (applyPendingChanges m)) = sts \<and>
       m_pendingChanges (snd (applyPendingChanges m)) = [] \<and>
       (m_pendingChanges m \<noteq> [] \<and> distinct (map uiRoot sts) \<longrightarrow>
          (\<forall>j < length sts. ui_enabled (m_ui (snd (applyPendingChanges m))) (uiRoot (sts ! j)) \<longleftrightarrow>
             j = length sts - 1))"
proof (cases "m_pendingChanges m = []")
  case True
  then show ?thesis by (simp add: applyPendingChanges_def)
next
  case False
  obtain q m1 where m1: "apply_changes (m_pendingChanges m) m = (q, m1)" by fastforce
  show ?thesis
    using apply_changes_spec [of "m_pendingChanges m" m] m1 False refresh_top [of m1]
    by (cases q) (auto simp: applyPendingChanges_def split: option.splits)
qed

theorem changes_applied_witness:
  "map (ui_enabled (m_ui (snd (applyPendingChanges
       (snd (requestPush (Some (sample_state 2 True)) sample_stack)))))) [1, 2] = [False, True]"
proof -
  define m where "m = snd (requestPush (Some (sample_state 2 True)) sample_stack)"
  let ?sts = "[sample_state 1 False, sample_state 2 True]"
  have "m_states m = [sample_state 1 False]" "m_pendingChanges m = [Push (sample_state 2 True)]"
    by (simp_all add: m_def requestPush_def sample_stack_def StateManager_def)
  then have "stack_after (m_pendingChanges m) (m_states m) = Some ?sts"
    and "m_pendingChanges m \<noteq> []" by simp_all
  moreover have "distinct (map uiRoot ?sts)" by (simp add: sample_state_def)
  ultimately have "\<forall>j < length ?sts. ui_enabled (m_ui (snd (applyPendingChanges m))) (uiRoot (?sts ! j)) \<longleftrightarrow>
      j = length ?sts - 1"
    using changes_applied [of m] by (simp only: option.case) blast
  from spec [OF this, of 0] spec [OF this, of 1] show ?thesis
    by (simp add: m_def sample_state_def)
qed

text \<open>
  Which states run. On a stack that is not empty, a network result and an update reach
  exactly the states from \<open>firstUpdatedState\<close> to the top, from the bottom up: every state above
  that one lets the states below it run, and it is the lowest or does not. If nothing throws,
  each is called once; a network result never changes the stack.
\<close>

lemma running_states:
  assumes "m_states m \<noteq> []"
  shows "let k = firstUpdatedState m; n = length (m_states m); m' = snd (sm_handleNetworkResult r m)
     in k < n \<and> (\<forall>i. k < i \<and> i < n \<longrightarrow> updatesBelow (m_states m ! i)) \<and>
        (k = 0 \<or> \<not> updatesBelow (m_states m ! k)) \<and> m_states m' = m_states m \<and>
        (fst (sm_handleNetworkResult r m) = Inr () \<longrightarrow>
           sm_calls m' = sm_calls m @ map (\<lambda>st. (uiRoot st, Handles_result r)) (drop k (m_states m))) \<and>
        (fst (sm_update m) = Inr () \<longrightarrow>
           sm_calls (snd (sm_update m)) = sm_calls m @ map (\<lambda>st. (uiRoot st, Updates)) (drop k (m_states m)))"
proof -
  let ?n = "length (m_states m) - 1" and ?k = "firstUpdatedState m"
  have k: "?k \<le> ?n" "\<forall>i. ?k < i \<and> i \<le> ?n \<longrightarrow> updatesBelow (m_states m ! i)"
    "?k = 0 \<or> \<not> updatesBelow (m_states m ! ?k)"
    using first_below_spec [of updatesBelow "m_states m" ?n] by (simp_all add: firstUpdatedState_def)
  have n: "length (m_states m) > 0" using assms by simp
  obtain q m' where m': "call_states (Handles_result r) (drop ?k (m_states m)) m = (q, m')"
    by fastforce
  from call_states_only [OF m'] have "only_requests m m'"
    "q = Inr () \<longrightarrow> sm_calls m' = sm_calls m @ map (\<lambda>st. (uiRoot st, Handles_result r)) (drop ?k (m_states m))"
    by auto
  moreover have "?k < length (m_states m)" using k(1) n by linarith
  moreover have "\<forall>i. ?k < i \<and> i < length (m_states m) \<longrightarrow> updatesBelow (m_states m ! i)"
    using k(2) by auto
  ultimately show ?thesis
    using k(3) m' sm_update_calls [of m]
    by (simp add: sm_handleNetworkResult_def only_requests_def Let_def)
qed

end
