(* ===== verification/Style.thy ===== *)
theory Style
  imports Prelude
begin

text \<open>
  \<open>client/src/ui/Style.hpp\<close>/\<open>.cpp\<close>: the palette and the makers of the widgets. A widget is a
  record of what the code sets; positions and sizes are whole numbers of pixels, although the
  code writes them as floating-point numbers. A widget is placed at the origin until it is
  given a position, and the size of a label is left to the widget library.
\<close>

section \<open>Colours\<close>

text \<open>Red, green, blue and opacity.\<close>

type_synonym colour = "u8 \<times> u8 \<times> u8 \<times> u8"

definition rgb :: "u8 \<Rightarrow> u8 \<Rightarrow> u8 \<Rightarrow> colour" where "rgb r g b = (r, g, b, 255)"

definition style_background :: colour where "style_background = rgb 10 14 23"
definition style_surface :: colour where "style_surface = rgb 17 24 39"
definition style_surface2 :: colour where "style_surface2 = rgb 24 32 48"
definition style_border :: colour where "style_border = rgb 43 54 76"
definition style_text :: colour where "style_text = rgb 235 241 250"
definition style_muted :: colour where "style_muted = rgb 148 163 184"
definition style_accent :: colour where "style_accent = rgb 96 165 250"
definition style_accentHover :: colour where "style_accentHover = rgb 125 184 255"
definition style_accentDown :: colour where "style_accentDown = rgb 59 130 246"
definition style_ok :: colour where "style_ok = rgb 74 222 128"
definition style_warn :: colour where "style_warn = rgb 251 191 36"
definition style_err :: colour where "style_err = rgb 248 113 113"
definition dangerBackground :: colour where "dangerBackground = rgb 88 28 28"
definition dangerHover :: colour where "dangerHover = rgb 127 29 29"
definition dangerDown :: colour where "dangerDown = rgb 153 27 27"

section \<open>Widgets\<close>

record label =
  lb_text :: string
  lb_textSize :: nat
  lb_textColour :: colour
  lb_position :: "int \<times> int"

record button =
  bt_text :: string
  bt_position :: "int \<times> int"
  bt_size :: "int \<times> int"
  bt_textSize :: nat
  bt_textColour :: colour
  bt_background :: colour
  bt_hover :: colour
  bt_down :: colour
  bt_borders :: nat
  bt_radius :: nat

record panel_look =
  pn_background :: colour
  pn_border :: colour
  pn_borders :: nat
  pn_radius :: nat

datatype ButtonKind = Primary | Secondary | Danger

definition makeLabel :: "string \<Rightarrow> nat \<Rightarrow> colour \<Rightarrow> label" where
  "makeLabel labelText textSize colour =
     \<lparr>lb_text = labelText, lb_textSize = textSize, lb_textColour = colour, lb_position = (0, 0)\<rparr>"

definition stylePanel :: "colour \<Rightarrow> colour \<Rightarrow> nat \<Rightarrow> panel_look" where
  "stylePanel background border radius =
     \<lparr>pn_background = background, pn_border = border, pn_borders = 1, pn_radius = radius\<rparr>"

fun button_colours :: "ButtonKind \<Rightarrow> colour \<times> colour \<times> colour" where
  "button_colours Primary = (style_accentDown, style_accent, style_accentHover)"
| "button_colours Secondary = (style_surface2, rgb 35 45 66, rgb 47 60 86)"
| "button_colours Danger = (dangerBackground, dangerHover, dangerDown)"

definition makeButton :: "string \<Rightarrow> int \<Rightarrow> ButtonKind \<Rightarrow> button" where
  "makeButton buttonText y kind =
     (case button_colours kind of
        (background, hover, down) \<Rightarrow>
          \<lparr>bt_text = buttonText, bt_position = (24, y), bt_size = (212, 44), bt_textSize = 15,
           bt_textColour = style_text, bt_background = background, bt_hover = hover, bt_down = down,
           bt_borders = 0, bt_radius = 10\<rparr>)"

end
