(* ===== verification/Console.thy ===== *)
theory Console
  imports State_Stack Style
begin

text \<open>
  \<open>client/src/states/ClientConsoleState.hpp\<close>/\<open>.cpp\<close> with its two panels,
  \<open>client/src/ui/ConnectionPanel.hpp\<close>/\<open>.cpp\<close> and \<open>EventLogPanel.hpp\<close>/\<open>.cpp\<close>. Of the widgets,
  what the code changes after it has made them: the text and the colours of the status, which
  buttons are enabled, the text of the log. The clock is a parameter: \<open>now\<close> is what
  \<open>currentTime\<close> makes of it, \<open>millis\<close> the milliseconds since the epoch.
\<close>

section \<open>Texts\<close>

text \<open>An endpoint, its address as \<open>to_string\<close> of the network library writes it.\<close>

record endpoint =
  ep_address :: string
  ep_port :: u16

definition endpointText :: "endpoint \<Rightarrow> string" where
  "endpointText ep = ep_address ep @ '':'' @ to_string (unat (ep_port ep))"

text \<open>\<open>currentTime\<close>: the local time of day as \<open>put_time\<close> writes it, two digits for each field.\<close>

record local_time =
  tm_hour :: nat
  tm_min :: nat
  tm_sec :: nat

definition two_digits :: "nat \<Rightarrow> string" where
  "two_digits n = [''0123456789'' ! (n div 10 mod 10), ''0123456789'' ! (n mod 10)]"

definition currentTime :: "local_time \<Rightarrow> string" where
  "currentTime t =
     two_digits (tm_hour t) @ '':'' @ two_digits (tm_min t) @ '':'' @ two_digits (tm_sec t)"

text \<open>Times of day, leap seconds included, are told apart by what is written.\<close>

lemma two_digits_inj: "two_digits m = two_digits n \<Longrightarrow> m < 100 \<Longrightarrow> n < 100 \<Longrightarrow> m = n"
proof -
  assume eq: "two_digits m = two_digits n" and "m < 100" "n < 100"
  have digit: "''0123456789'' ! i = ''0123456789'' ! j \<longleftrightarrow> i = j" if "i < 10" "j < 10" for i j
    using that by (intro nth_eq_iff_index_eq) simp_all
  from eq digit have "m div 10 mod 10 = n div 10 mod 10" "m mod 10 = n mod 10"
    by (simp_all add: two_digits_def)
  moreover have "m div 10 mod 10 = m div 10" "n div 10 mod 10 = n div 10"
    using \<open>m < 100\<close> \<open>n < 100\<close> by (simp_all add: div_less_iff_less_mult)
  ultimately show "m = n" by (metis div_mult_mod_eq)
qed

lemma currentTime_inj:
  assumes "currentTime s = currentTime t"
    and "tm_hour s < 24" "tm_min s < 60" "tm_sec s \<le> 60" "tm_hour t < 24" "tm_min t < 60" "tm_sec t \<le> 60"
  shows "s = t"
proof -
  have len: "length (two_digits n) = 2" for n by (simp add: two_digits_def)
  have "two_digits (tm_hour s) = two_digits (tm_hour t)" "two_digits (tm_min s) = two_digits (tm_min t)"
    "two_digits (tm_sec s) = two_digits (tm_sec t)"
    using assms(1) by (simp_all add: currentTime_def len)
  with two_digits_inj [of "tm_hour s" "tm_hour t"] two_digits_inj [of "tm_min s" "tm_min t"]
    two_digits_inj [of "tm_sec s" "tm_sec t"] assms(2-7)
  have "tm_hour s = tm_hour t" "tm_min s = tm_min t" "tm_sec s = tm_sec t" by simp_all
  then show ?thesis by simp
qed

text \<open>The server's log and the client's panel write an endpoint in the same way.\<close>

lemma endpoints_agree:
  "makeRemoteEndpointString (Inr (address, port)) = endpointText \<lparr>ep_address = address, ep_port = port\<rparr>"
  by (simp add: makeRemoteEndpointString_def endpointText_def)

fun operationName :: "NetworkOperation \<Rightarrow> string" where
  "operationName Connect_op = ''Connect''"
| "operationName Disconnect_op = ''Disconnect''"
| "operationName Ping_op = ''Ping''"
| "operationName StateSnapshot_op = ''State snapshot''"

section \<open>EventLogPanel\<close>

text \<open>\<open>el_added\<close>: the time and the line of all calls of \<open>add\<close> so far.\<close>

record event_log =
  m_lines :: "string list"
  m_logView :: string
  el_added :: "(string \<times> string) list"

definition EventLogPanel :: event_log where
  "EventLogPanel = \<lparr>m_lines = [], m_logView = [], el_added = []\<rparr>"

definition maxLines :: nat where "maxLines = 80"

definition refresh :: "event_log \<Rightarrow> event_log" where
  "refresh el = el\<lparr>m_logView := fold (\<lambda>line text. (text @ line) @ [CHR 0x0A]) (m_lines el) []\<rparr>"

definition log_entry :: "string \<Rightarrow> string \<Rightarrow> string" where
  "log_entry now line = ''['' @ now @ ''] '' @ line"

definition log_add :: "string \<Rightarrow> string \<Rightarrow> event_log \<Rightarrow> event_log" where
  "log_add now line el =
     (let lines = (if length (m_lines el) \<ge> maxLines then tl (m_lines el) else m_lines el)
      in refresh (el\<lparr>m_lines := lines @ [log_entry now line], el_added := el_added el @ [(now, line)]\<rparr>))"

section \<open>ConnectionPanel\<close>

datatype panel_button =
  Connect_button | Disconnect_button | Snapshot_button | Ping_button | Quit_button

record connection_panel =
  m_statusDot :: colour
  statusDot_border :: colour
  m_statusLabel :: string
  endpointLabel :: string
  button_enabled :: "panel_button \<Rightarrow> bool"

definition ConnectionPanel :: "string \<Rightarrow> connection_panel" where
  "ConnectionPanel text =
     \<lparr>m_statusDot = style_err, statusDot_border = style_err, m_statusLabel = ''Disconnected'',
      endpointLabel = text, button_enabled = (\<lambda>_. True)\<rparr>"

definition setEnabled :: "panel_button \<Rightarrow> bool \<Rightarrow> connection_panel \<Rightarrow> connection_panel" where
  "setEnabled b on p = p\<lparr>button_enabled := (button_enabled p)(b := on)\<rparr>"

fun status_text :: "ConnectionState \<Rightarrow> string" where
  "status_text Disconnected = ''Disconnected''"
| "status_text Connecting = ''Connecting...''"
| "status_text Connected = ''Connected''"
| "status_text Disconnecting = ''Disconnecting...''"

fun status_colour_of :: "ConnectionState \<Rightarrow> colour" where
  "status_colour_of Disconnected = style_err"
| "status_colour_of Connecting = style_warn"
| "status_colour_of Connected = style_ok"
| "status_colour_of Disconnecting = style_warn"

definition showState :: "ConnectionState \<Rightarrow> connection_panel \<Rightarrow> connection_panel" where
  "showState state p =
     (let connected = (state = Connected);
          p1 = setEnabled Connect_button (state = Disconnected) p;
          p2 = setEnabled Disconnect_button (state = Connecting \<or> connected) p1;
          p3 = setEnabled Ping_button connected p2;
          p4 = setEnabled Snapshot_button connected p3
      in p4\<lparr>m_statusLabel := status_text state, m_statusDot := status_colour_of state,
            statusDot_border := status_colour_of state\<rparr>)"

definition disableConnect :: "connection_panel \<Rightarrow> connection_panel" where
  "disableConnect = setEnabled Connect_button False"

definition disableDisconnect :: "connection_panel \<Rightarrow> connection_panel" where
  "disableDisconnect = setEnabled Disconnect_button False"

section \<open>ClientConsoleState\<close>

record console =
  m_connectionPanel :: connection_panel
  m_eventLog :: event_log
  m_shownState :: ConnectionState

definition add_line :: "string \<Rightarrow> string \<Rightarrow> console \<Rightarrow> console" where
  "add_line now line c = c\<lparr>m_eventLog := log_add now line (m_eventLog c)\<rparr>"

definition show_state :: "ConnectionState \<Rightarrow> console \<Rightarrow> console" where
  "show_state state c =
     c\<lparr>m_shownState := state, m_connectionPanel := showState state (m_connectionPanel c)\<rparr>"

definition ClientConsoleState :: "endpoint \<Rightarrow> string \<Rightarrow> network_component \<Rightarrow> console" where
  "ClientConsoleState ep now nc =
     add_line now ''Ready''
       (show_state (nc_state nc)
          \<lparr>m_connectionPanel = ConnectionPanel (endpointText ep), m_eventLog = EventLogPanel,
           m_shownState = nc_state nc\<rparr>)"

text \<open>What the buttons but the last call; the first two change the panel before they call.\<close>

definition on_connect ::
  "endpoint \<Rightarrow> string \<Rightarrow> console \<Rightarrow> network_component \<Rightarrow> console \<times> network_component" where
  "on_connect ep now c nc =
     (add_line now (''Connecting to '' @ endpointText ep)
        (c\<lparr>m_connectionPanel := disableConnect (m_connectionPanel c)\<rparr>),
      nc_connect nc)"

definition on_disconnect ::
  "string \<Rightarrow> console \<Rightarrow> network_component \<Rightarrow> console \<times> network_component" where
  "on_disconnect now c nc =
     (add_line now ''Disconnect requested''
        (c\<lparr>m_connectionPanel := disableDisconnect (m_connectionPanel c)\<rparr>),
      nc_disconnect nc)"

definition on_snapshot ::
  "string \<Rightarrow> console \<Rightarrow> network_component \<Rightarrow> console \<times> network_component" where
  "on_snapshot now c nc = (add_line now ''Sending state snapshot'' c, nc_sendRequest StateSnapshot nc)"

definition on_ping ::
  "u64 \<Rightarrow> string \<Rightarrow> console \<Rightarrow> network_component \<Rightarrow> console \<times> network_component" where
  "on_ping millis now c nc =
     (add_line now ''Sending ping'' c, nc_sendRequest (Ping \<lparr>ping_timestamp = millis\<rparr>) nc)"

definition console_update :: "string \<Rightarrow> network_component \<Rightarrow> console \<Rightarrow> console" where
  "console_update now nc c =
     (let currentState = nc_state nc
      in if currentState = m_shownState c then c
         else let c1 = show_state currentState c
              in if currentState = Connected then add_line now ''Connected'' c1
                 else if currentState = Disconnected then add_line now ''Disconnected'' c1
                 else c1)"

fun result_line :: "network_result \<Rightarrow> string" where
  "result_line (Pong_result response) = ''Pong: '' @ to_string (unat (pong_timestamp response))"
| "result_line (Snapshot_result response) = ''State snapshot: '' @ state_json response"
| "result_line (NetworkError operation message) = operationName operation @ '' failed: '' @ message"

fun shows_state :: "network_result \<Rightarrow> bool" where
  "shows_state (NetworkError operation message) = (operation = Connect_op \<or> operation = Disconnect_op)"
| "shows_state r = False"

definition console_handleNetworkResult ::
  "string \<Rightarrow> network_result \<Rightarrow> network_component \<Rightarrow> console \<Rightarrow> console" where
  "console_handleNetworkResult now r nc c =
     add_line now (result_line r) (if shows_state r then show_state (nc_state nc) c else c)"

section \<open>The log\<close>

text \<open>The log shows the last lines added to it, in order, each with the time of its call.\<close>

definition log_ok :: "event_log \<Rightarrow> bool" where
  "log_ok el \<longleftrightarrow>
     m_lines el = drop (length (el_added el) - maxLines) (map (\<lambda>(now, line). log_entry now line) (el_added el)) \<and>
     m_logView el = concat (map (\<lambda>line. line @ [CHR 0x0A]) (m_lines el))"

lemma fold_lines:
  "fold (\<lambda>line text. text @ line @ [x]) lines acc = acc @ concat (map (\<lambda>line. line @ [x]) lines)"
  by (induction lines arbitrary: acc) simp_all

lemma log_add_fields:
  "m_lines (log_add now line el) =
     (if length (m_lines el) \<ge> maxLines then tl (m_lines el) else m_lines el) @ [log_entry now line]"
  "el_added (log_add now line el) = el_added el @ [(now, line)]"
  "m_logView (log_add now line el) = concat (map (\<lambda>line. line @ [CHR 0x0A]) (m_lines (log_add now line el)))"
  by (simp_all add: log_add_def refresh_def fold_lines Let_def)

lemma log_ok_new: "log_ok EventLogPanel"
  by (simp add: log_ok_def EventLogPanel_def)

lemma log_ok_add:
  assumes "log_ok el"
  shows "log_ok (log_add now line el)"
proof -
  let ?entries = "map (\<lambda>(now, line). log_entry now line) (el_added el)"
  have lines: "m_lines el = drop (length ?entries - maxLines) ?entries"
    using assms by (simp add: log_ok_def)
  have "m_lines (log_add now line el) =
      drop (Suc (length ?entries) - maxLines) (?entries @ [log_entry now line])"
  proof (cases "length ?entries \<ge> maxLines")
    case True
    then have "length (m_lines el) = maxLines" using lines by (simp add: maxLines_def)
    moreover have "Suc (length ?entries) - maxLines = Suc (length ?entries - maxLines)"
      using True by (rule Suc_diff_le)
    moreover have "Suc (length ?entries - maxLines) \<le> length ?entries"
      using True by (simp add: maxLines_def)
    moreover have "tl (m_lines el) = drop (Suc (length ?entries - maxLines)) ?entries"
      unfolding lines by (simp only: drop_Suc tl_drop)
    ultimately show ?thesis by (simp add: log_add_fields(1))
  next
    case False
    with lines have "m_lines el = ?entries" "length (m_lines el) < maxLines" by simp_all
    with False show ?thesis by (simp add: log_add_fields(1))
  qed
  moreover have "map (\<lambda>(now, line). log_entry now line) (el_added (log_add now line el)) =
      ?entries @ [log_entry now line]" "length (el_added (log_add now line el)) = Suc (length ?entries)"
    by (simp_all add: log_add_fields(2))
  ultimately show ?thesis unfolding log_ok_def log_add_fields(3) by simp
qed

lemma add_line_log:
  "el_added (m_eventLog (add_line now line c)) = el_added (m_eventLog c) @ [(now, line)]"
  "log_ok (m_eventLog c) \<Longrightarrow> log_ok (m_eventLog (add_line now line c))"
  by (simp_all add: add_line_def log_ok_add log_add_fields(2))

section \<open>The panel\<close>

text \<open>
  The status shows the state the console has seen last, and no button is enabled that makes no
  sense in it.
\<close>

definition panel_ok :: "ConnectionState \<Rightarrow> connection_panel \<Rightarrow> bool" where
  "panel_ok state p \<longleftrightarrow>
     m_statusLabel p = status_text state \<and> m_statusDot p = status_colour_of state \<and>
     statusDot_border p = status_colour_of state \<and>
     (button_enabled p Connect_button \<longrightarrow> state = Disconnected) \<and>
     (button_enabled p Disconnect_button \<longrightarrow> state = Connecting \<or> state = Connected) \<and>
     button_enabled p Ping_button = (state = Connected) \<and>
     button_enabled p Snapshot_button = (state = Connected) \<and>
     button_enabled p Quit_button"

definition console_ok :: "console \<Rightarrow> bool" where
  "console_ok c \<longleftrightarrow> panel_ok (m_shownState c) (m_connectionPanel c) \<and> log_ok (m_eventLog c)"

lemma button_enabled_setEnabled [simp]:
  "button_enabled (setEnabled b on p) = (button_enabled p)(b := on)"
  by (simp add: setEnabled_def)

lemma setEnabled_frame [simp]:
  "m_statusLabel (setEnabled b on p) = m_statusLabel p" "m_statusDot (setEnabled b on p) = m_statusDot p"
  "statusDot_border (setEnabled b on p) = statusDot_border p"
  by (simp_all add: setEnabled_def)

lemma button_enabled_showState:
  "button_enabled (showState state p) b =
     (case b of
        Connect_button \<Rightarrow> state = Disconnected
      | Disconnect_button \<Rightarrow> state = Connecting \<or> state = Connected
      | Snapshot_button \<Rightarrow> state = Connected
      | Ping_button \<Rightarrow> state = Connected
      | Quit_button \<Rightarrow> button_enabled p Quit_button)"
  by (cases b) (simp_all add: showState_def Let_def)

lemma panel_ok_showState: "button_enabled p Quit_button \<Longrightarrow> panel_ok state (showState state p)"
  by (simp add: panel_ok_def button_enabled_showState) (simp add: showState_def Let_def)

lemma console_ok_show: "console_ok c \<Longrightarrow> console_ok (show_state state c)"
  using panel_ok_showState [of "m_connectionPanel c" state]
  by (simp add: console_ok_def show_state_def) (simp add: panel_ok_def)

lemma console_ok_add: "console_ok c \<Longrightarrow> console_ok (add_line now line c)"
  using add_line_log(2) [of c now line] by (simp add: console_ok_def) (simp add: add_line_def)

lemma console_ok_new: "console_ok (ClientConsoleState ep now nc)"
  unfolding ClientConsoleState_def
  by (rule console_ok_add)
    (simp add: console_ok_def show_state_def log_ok_new panel_ok_showState ConnectionPanel_def)

lemma console_ok_update: "console_ok c \<Longrightarrow> console_ok (console_update now nc c)"
  by (simp add: console_update_def console_ok_add console_ok_show Let_def)

lemma console_ok_result: "console_ok c \<Longrightarrow> console_ok (console_handleNetworkResult now r nc c)"
  by (simp add: console_handleNetworkResult_def console_ok_add console_ok_show)

lemma console_ok_disable:
  "console_ok c \<Longrightarrow> console_ok (c\<lparr>m_connectionPanel := disableConnect (m_connectionPanel c)\<rparr>)"
  "console_ok c \<Longrightarrow> console_ok (c\<lparr>m_connectionPanel := disableDisconnect (m_connectionPanel c)\<rparr>)"
  by (simp_all add: console_ok_def panel_ok_def disableConnect_def disableDisconnect_def)

lemmas button_defs = on_connect_def on_disconnect_def on_snapshot_def on_ping_def

lemma console_ok_buttons:
  "console_ok c \<Longrightarrow> console_ok (fst (on_connect ep now c nc))"
  "console_ok c \<Longrightarrow> console_ok (fst (on_disconnect now c nc))"
  "console_ok c \<Longrightarrow> console_ok (fst (on_snapshot now c nc))"
  "console_ok c \<Longrightarrow> console_ok (fst (on_ping millis now c nc))"
  by (simp_all add: button_defs console_ok_add console_ok_disable)

text \<open>After an update the console shows the state it has read.\<close>

lemma console_update_shows: "m_shownState (console_update now nc c) = nc_state nc"
  by (simp add: console_update_def show_state_def add_line_def Let_def)

section \<open>Properties\<close>

lemma log_adds:
  "log_ok el \<Longrightarrow> log_ok (fold (\<lambda>(now, line). log_add now line) adds el) \<and>
     el_added (fold (\<lambda>(now, line). log_add now line) adds el) = el_added el @ adds"
  by (induction adds arbitrary: el) (auto simp: log_ok_add log_add_fields(2))

text \<open>
  C35: the event log after any calls of \<open>add\<close>. It holds the last 80 lines (all of them, when
  there are fewer) in the order of the calls, each with its time in brackets before it, and the
  text view shows them one per line.
\<close>

theorem event_log_keeps_last:
  "let el = fold (\<lambda>(now, line). log_add now line) adds EventLogPanel;
       entries = map (\<lambda>(now, line). ''['' @ now @ ''] '' @ line) adds
   in m_lines el = drop (length adds - 80) entries \<and>
      m_logView el = concat (map (\<lambda>entry. entry @ [CHR 0x0A]) (drop (length adds - 80) entries))"
proof -
  let ?el = "fold (\<lambda>(now, line). log_add now line) adds EventLogPanel"
  have "log_ok ?el \<and> el_added ?el = adds"
    using log_adds [OF log_ok_new, of adds] by (simp add: EventLogPanel_def)
  then show ?thesis by (simp add: log_ok_def log_entry_def maxLines_def Let_def)
qed

end
