(* ===== verification/Layout.thy ===== *)
theory Layout
  imports Console
begin

text \<open>
  What the constructors of \<open>client/src/ui/ConnectionPanel.cpp\<close>, \<open>EventLogPanel.cpp\<close> and
  \<open>client/src/states/ClientConsoleState.cpp\<close> add to the root panel, as a tree of widgets.
\<close>

section \<open>Widgets in their panels\<close>

record text_area =
  ta_position :: "int \<times> int"
  ta_size :: "int \<times> int"
  ta_textSize :: nat
  ta_readOnly :: bool
  ta_look :: panel_look
  ta_textColour :: colour
  ta_defaultTextColour :: colour
  ta_padding :: "nat \<times> nat \<times> nat \<times> nat"

datatype layout =
    Label_at label
  | Button_at button
  | Text_area_at text_area
  | Panel_at "int \<times> int" "int \<times> int" panel_look "layout list"

definition label_at :: "label \<Rightarrow> int \<Rightarrow> int \<Rightarrow> layout" where
  "label_at l x y = Label_at (l\<lparr>lb_position := (x, y)\<rparr>)"

text \<open>The dot gets its look from \<open>stylePanel\<close>, and then no borders.\<close>

definition statusDot :: layout where
  "statusDot = Panel_at (24, 54) (12, 12) ((stylePanel style_err style_err 6)\<lparr>pn_borders := 0\<rparr>) []"

definition sidebar :: layout where
  "sidebar = Panel_at (32, 32) (260, 616) (stylePanel style_surface style_border 18)
     [label_at (makeLabel ''TextStalker'' 24 style_text) 24 24,
      label_at (makeLabel ''Network client'' 14 style_muted) 24 60,
      label_at (makeLabel ''Actions'' 13 style_muted) 24 108,
      Button_at (makeButton ''Connect'' 136 Primary),
      Button_at (makeButton ''Disconnect'' 192 Secondary),
      Button_at (makeButton ''Send state snapshot'' 248 Secondary),
      Button_at (makeButton ''Send ping'' 304 Secondary),
      Button_at (makeButton ''Quit'' 548 Danger)]"

definition statusCard :: "string \<Rightarrow> layout" where
  "statusCard endpoint = Panel_at (324, 120) (644, 96) (stylePanel style_surface style_border 18)
     [label_at (makeLabel ''Connection status'' 13 style_muted) 24 18,
      statusDot,
      label_at (makeLabel ''Disconnected'' 20 style_text) 46 47,
      label_at (makeLabel endpoint 14 style_muted) 470 50]"

definition connection_widgets :: "string \<Rightarrow> layout list" where
  "connection_widgets endpoint =
     [sidebar,
      label_at (makeLabel ''Client console'' 28 style_text) 324 40,
      label_at (makeLabel ''Local control panel for protocol requests'' 15 style_muted) 326 78,
      statusCard endpoint]"

definition logView :: layout where
  "logView = Text_area_at
     \<lparr>ta_position = (324, 304), ta_size = (644, 344), ta_textSize = 14, ta_readOnly = True,
      ta_look = \<lparr>pn_background = style_surface, pn_border = style_border, pn_borders = 1, pn_radius = 18\<rparr>,
      ta_textColour = style_text, ta_defaultTextColour = style_muted, ta_padding = (16, 14, 16, 14)\<rparr>"

definition log_widgets :: "layout list" where
  "log_widgets =
     [label_at (makeLabel ''Event log'' 18 style_text) 324 244,
      label_at (makeLabel ''Recent client activity'' 13 style_muted) 324 270,
      logView]"

text \<open>The root panel is transparent.\<close>

definition console_root :: "endpoint \<Rightarrow> layout" where
  "console_root ep = Panel_at (0, 0) (1000, 680)
     \<lparr>pn_background = (0, 0, 0, 0), pn_border = (0, 0, 0, 0), pn_borders = 0, pn_radius = 0\<rparr>
     (connection_widgets (endpointText ep) @ log_widgets)"

section \<open>Everything fits\<close>

text \<open>The place of a widget with a size of its own, and the corner of a label.\<close>

fun place :: "layout \<Rightarrow> (int \<times> int) \<times> (int \<times> int)" where
  "place (Label_at l) = (lb_position l, (0, 0))"
| "place (Button_at b) = (bt_position b, bt_size b)"
| "place (Text_area_at t) = (ta_position t, ta_size t)"
| "place (Panel_at pos dims look ws) = (pos, dims)"

fun apart :: "(int \<times> int) \<times> (int \<times> int) \<Rightarrow> (int \<times> int) \<times> (int \<times> int) \<Rightarrow> bool" where
  "apart ((x1, y1), (w1, h1)) ((x2, y2), (w2, h2)) \<longleftrightarrow>
     x1 + w1 \<le> x2 \<or> x2 + w2 \<le> x1 \<or> y1 + h1 \<le> y2 \<or> y2 + h2 \<le> y1"

fun within :: "(int \<times> int) \<times> (int \<times> int) \<Rightarrow> int \<times> int \<Rightarrow> bool" where
  "within ((x, y), (w, h)) (width, height) \<longleftrightarrow> 0 \<le> x \<and> 0 \<le> y \<and> x + w \<le> width \<and> y + h \<le> height"

fun all_apart :: "layout list \<Rightarrow> bool" where
  "all_apart [] = True"
| "all_apart (v # ws) \<longleftrightarrow> list_all (\<lambda>w. apart (place v) (place w)) ws \<and> all_apart ws"

fun fits :: "layout \<Rightarrow> bool" where
  "fits (Panel_at pos dims look ws) \<longleftrightarrow>
     list_all (\<lambda>w. within (place w) dims) ws \<and> all_apart ws \<and> list_all fits ws"
| "fits w = True"

text \<open>
  Every widget lies within the panel it is in, and no two widgets of a panel cover each other,
  whatever the endpoint; the labels are counted with their upper left corner only.
\<close>

lemma console_fits: "fits (console_root ep)"
  by (simp add: console_root_def connection_widgets_def sidebar_def statusCard_def statusDot_def
      label_at_def makeLabel_def makeButton_def log_widgets_def logView_def)

text \<open>The constructor of the panel shows the state the console model begins with.\<close>

lemma status_begins:
  "m_statusLabel (ConnectionPanel t) = ''Disconnected'' \<and> m_statusDot (ConnectionPanel t) = style_err \<and>
   (\<exists>pos dims look. statusDot = Panel_at pos dims look [] \<and> pn_background look = m_statusDot (ConnectionPanel t) \<and>
      pn_border look = statusDot_border (ConnectionPanel t))"
  by (simp add: ConnectionPanel_def statusDot_def stylePanel_def)

end
