(* ===== verification/Rendering.thy ===== *)
theory Rendering
  imports State_Stack Style
begin

text \<open>
  \<open>client/src/render/RenderComponent.hpp\<close>/\<open>.cpp\<close>, \<open>UiComponent::draw\<close> and
  \<open>ClientConsoleState::render\<close>: what the program draws. The window is that of the graphics
  library, so drawing is modelled by the calls the program makes of it, in their order; a window
  is open until it is closed. What \<open>pollEvent\<close> returns is an event of the application.
\<close>

section \<open>RenderComponent\<close>

text \<open>A circle, in whole pixels like the widgets.\<close>

record circle =
  cr_radius :: int
  cr_fill :: colour
  cr_position :: "int \<times> int"

datatype window_call =
    Set_framerate_limit nat
  | Clear colour
  | Draw_circle circle
  | Draw_widgets "widget list"
  | Display
  | Close_window

text \<open>The clock counts microseconds.\<close>

record render_component =
  rc_mode :: "nat \<times> nat"
  rc_title :: string
  rc_open :: bool
  rc_calls :: "window_call list"
  m_frameClock :: int

definition window_does :: "window_call \<Rightarrow> render_component \<Rightarrow> render_component" where
  "window_does call r = r\<lparr>rc_calls := rc_calls r @ [call]\<rparr>"

definition RenderComponent :: "nat \<times> nat \<Rightarrow> string \<Rightarrow> nat \<Rightarrow> int \<Rightarrow> render_component" where
  "RenderComponent mode title frameLimit now = window_does (Set_framerate_limit frameLimit)
     \<lparr>rc_mode = mode, rc_title = title, rc_open = True, rc_calls = [], m_frameClock = now\<rparr>"

definition isOpen :: "render_component \<Rightarrow> bool" where
  "isOpen r = rc_open r"

definition nextFrameTime :: "int \<Rightarrow> render_component \<Rightarrow> int \<times> render_component" where
  "nextFrameTime now r = (now - m_frameClock r, r\<lparr>m_frameClock := now\<rparr>)"

definition clearColor :: colour where "clearColor = rgb 10 14 23"

lemma clearColor_background: "clearColor = style_background"
  by (simp add: clearColor_def style_background_def)

definition beginFrame :: "render_component \<Rightarrow> render_component" where
  "beginFrame = window_does (Clear clearColor)"

definition present :: "render_component \<Rightarrow> render_component" where
  "present = window_does Display"

definition close_window :: "render_component \<Rightarrow> render_component" where
  "close_window r = (window_does Close_window r)\<lparr>rc_open := False\<rparr>"

section \<open>What is drawn in a frame\<close>

text \<open>\<open>UiComponent::draw\<close>: the mounted widgets.\<close>

definition ui_draw :: "ui \<Rightarrow> render_component \<Rightarrow> render_component" where
  "ui_draw u = window_does (Draw_widgets (gui_widgets u))"

text \<open>The circles the constructor of the console makes; nothing changes them.\<close>

definition m_background :: "circle list" where
  "m_background =
     [\<lparr>cr_radius = 360, cr_fill = (37, 99, 235, 26), cr_position = (680, -220)\<rparr>,
      \<lparr>cr_radius = 260, cr_fill = (124, 58, 237, 18), cr_position = (-150, 420)\<rparr>]"

definition console_render :: "render_component \<Rightarrow> render_component" where
  "console_render r = fold (\<lambda>shape. window_does (Draw_circle shape)) m_background r"

lemma rendering_fields [simp]:
  "isOpen (window_does call r) = isOpen r" "\<not> isOpen (close_window r)"
  "rc_calls (window_does call r) = rc_calls r @ [call]"
  "rc_calls (close_window r) = rc_calls r @ [Close_window]"
  "isOpen (snd (nextFrameTime now r)) = isOpen r" "rc_calls (snd (nextFrameTime now r)) = rc_calls r"
  "isOpen (RenderComponent mode title n now)"
  "rc_calls (RenderComponent mode title n now) = [Set_framerate_limit n]"
  by (simp_all add: window_does_def close_window_def isOpen_def nextFrameTime_def RenderComponent_def)

lemma console_render_fields [simp]:
  "isOpen (console_render r) = isOpen r"
  "rc_calls (console_render r) = rc_calls r @ map Draw_circle m_background"
  by (simp_all add: console_render_def m_background_def)

lemma ui_draw_fields [simp]:
  "isOpen (ui_draw u r) = isOpen r" "rc_calls (ui_draw u r) = rc_calls r @ [Draw_widgets (gui_widgets u)]"
  "isOpen (beginFrame r) = isOpen r" "rc_calls (beginFrame r) = rc_calls r @ [Clear clearColor]"
  "isOpen (present r) = isOpen r" "rc_calls (present r) = rc_calls r @ [Display]"
  by (simp_all add: ui_draw_def beginFrame_def present_def)

text \<open>The times of the frames add up: no part of the time is counted twice or left out.\<close>

lemma frame_times:
  "sum_list (fst (fold (\<lambda>now (ts, r). let (t, r') = nextFrameTime now r in (ts @ [t], r')) nows ([], r))) =
     last (m_frameClock r # nows) - m_frameClock r"
proof (induction nows rule: rev_induct)
  case (snoc now nows)
  have "m_frameClock (snd (fold (\<lambda>now (ts, r). let (t, r') = nextFrameTime now r in (ts @ [t], r')) nows ([], r))) =
      last (m_frameClock r # nows)"
    by (induction nows rule: rev_induct) (simp_all add: nextFrameTime_def split: prod.splits)
  with snoc show ?case by (simp add: nextFrameTime_def case_prod_unfold)
qed simp

end
