(* ===== verification/Application.thy ===== *)
theory Application
  imports Console Rendering "HOL-Library.Sublist"
begin

text \<open>
  \<open>client/src/Application.hpp\<close>/\<open>.cpp\<close>: the client program as a whole. A step is one call of the
  loop in \<open>run\<close> (an event that is polled, a network result that is handled, the update and the
  drawing that end a frame) or one step of the worker thread, which may come anywhere in
  between. The event dispatch of the widget library is reduced to its outcome: an enabled
  button is pressed, a widget takes the event, or it is left for the application state. The time
  of a frame is left out: the one application state does not look at it.
\<close>

section \<open>State\<close>

text \<open>Where \<open>run\<close> is; an exception leaves it.\<close>

datatype app_phase = Polling | Handling "network_result list" | Returned | Left_by exn

record application =
  app_render :: render_component
  app_network :: network_component
  app_states :: state_manager
  app_console :: console
  app_phase :: app_phase

abbreviation app_open :: "application \<Rightarrow> bool" where
  "app_open a \<equiv> isOpen (app_render a)"

text \<open>The console as an application state: the only one there ever is, and it requests no other.\<close>

definition console_state :: app_state where
  "console_state = App_state 0 False False (\<lambda>_. [])"

definition app_endpoint :: endpoint where
  "app_endpoint = \<lparr>ep_address = ''127.0.0.1'', ep_port = 1234\<rparr>"

definition Application :: "string \<Rightarrow> application result" where
  "Application now =
     (case network_create default_client_config of
        Inl x \<Rightarrow> Inl x
      | Inr nc \<Rightarrow>
          (case StateManager new_ui (Some console_state) of
             Inl x \<Rightarrow> Inl x
           | Inr m \<Rightarrow>
               Inr \<lparr>app_render = RenderComponent (1000, 680) ''TextStalker Client'' 60 0, app_network = nc, app_states = m,
                    app_console = ClientConsoleState app_endpoint now nc, app_phase = Polling\<rparr>))"

section \<open>Steps\<close>

text \<open>What the console does when the state manager calls it.\<close>

fun perform :: "string \<Rightarrow> state_call \<Rightarrow> application \<Rightarrow> application" where
  "perform now (Handles_event e) a = a"
| "perform now (Handles_result r) a =
     a\<lparr>app_console := console_handleNetworkResult now r (app_network a) (app_console a)\<rparr>"
| "perform now Updates a = a\<lparr>app_console := console_update now (app_network a) (app_console a)\<rparr>"
| "perform now Renders a = a\<lparr>app_render := console_render (app_render a)\<rparr>"

definition on_states ::
  "(state_manager \<Rightarrow> unit result \<times> state_manager) \<Rightarrow> string \<Rightarrow> application \<Rightarrow> unit result \<times> application" where
  "on_states f now a =
     (let (r, m) = f (app_states a);
          calls = map snd (drop (length (sm_calls (app_states a))) (sm_calls m))
      in (r, fold (perform now) calls (a\<lparr>app_states := m\<rparr>)))"

text \<open>Going on to a phase, unless there was an exception.\<close>

fun proceed :: "app_phase \<Rightarrow> unit result \<times> application \<Rightarrow> application" where
  "proceed ph (Inl x, a) = a\<lparr>app_phase := Left_by x\<rparr>"
| "proceed ph (Inr _, a) = a\<lparr>app_phase := ph\<rparr>"

datatype ui_input = Closed | Press panel_button | Taken_by_widget | Left_for_state nat

definition press :: "panel_button \<Rightarrow> string \<Rightarrow> u64 \<Rightarrow> application \<Rightarrow> application" where
  "press b now millis a =
     (let set = (\<lambda>(c, nc). a\<lparr>app_console := c, app_network := nc\<rparr>);
          c = app_console a; nc = app_network a
      in case b of
           Connect_button \<Rightarrow> set (on_connect app_endpoint now c nc)
         | Disconnect_button \<Rightarrow> set (on_disconnect now c nc)
         | Snapshot_button \<Rightarrow> set (on_snapshot now c nc)
         | Ping_button \<Rightarrow> set (on_ping millis now c nc)
         | Quit_button \<Rightarrow> a\<lparr>app_render := close_window (app_render a)\<rparr>)"

definition can_press :: "panel_button \<Rightarrow> application \<Rightarrow> bool" where
  "can_press b a \<longleftrightarrow>
     ui_enabled (m_ui (app_states a)) (uiRoot console_state) \<and>
     button_enabled (m_connectionPanel (app_console a)) b"

datatype app_event =
    Polled ui_input string u64
  | No_more_events
  | Next_result string
  | Frame_end string
  | Work worker_event

fun poll :: "ui_input \<Rightarrow> string \<Rightarrow> u64 \<Rightarrow> application \<Rightarrow> application option" where
  "poll Closed now millis a = Some (a\<lparr>app_render := close_window (app_render a)\<rparr>)"
| "poll (Press b) now millis a = (if can_press b a then Some (press b now millis a) else None)"
| "poll Taken_by_widget now millis a = Some a"
| "poll (Left_for_state e) now millis a = Some (proceed Polling (on_states (sm_handleEvent e) now a))"

text \<open>The end of the polling loop: the window may have been closed; else the results are drained.\<close>

definition poll_end :: "application \<Rightarrow> application" where
  "poll_end a =
     (if \<not> app_open a then a\<lparr>app_phase := Returned\<rparr>
      else let (rs, nc) = drainResults (app_network a)
           in a\<lparr>app_network := nc, app_phase := Handling rs\<rparr>)"

text \<open>The end of a frame: the update, and what is drawn.\<close>

definition draw_frame :: "string \<Rightarrow> application \<Rightarrow> unit result \<times> application" where
  "draw_frame now a =
     (case on_states sm_render now (a\<lparr>app_render := beginFrame (app_render a)\<rparr>) of
        (Inl x, a1) \<Rightarrow> (Inl x, a1)
      | (Inr _, a1) \<Rightarrow>
          (Inr (), a1\<lparr>app_render := present (ui_draw (m_ui (app_states a1)) (app_render a1))\<rparr>))"

definition frame_end :: "string \<Rightarrow> application \<Rightarrow> application" where
  "frame_end now a =
     (case on_states sm_update now a of
        (Inl x, a1) \<Rightarrow> a1\<lparr>app_phase := Left_by x\<rparr>
      | (Inr _, a1) \<Rightarrow>
          (case draw_frame now a1 of
             (Inl x, a2) \<Rightarrow> a2\<lparr>app_phase := Left_by x\<rparr>
           | (Inr _, a2) \<Rightarrow> a2\<lparr>app_phase := (if app_open a2 then Polling else Returned)\<rparr>))"

fun app_exec :: "(error_code \<Rightarrow> string) \<Rightarrow> app_event \<Rightarrow> application \<Rightarrow> application option" where
  "app_exec ec_text (Polled input now millis) a =
     (if app_phase a = Polling then poll input now millis a else None)"
| "app_exec ec_text No_more_events a = (if app_phase a = Polling then Some (poll_end a) else None)"
| "app_exec ec_text (Next_result now) a =
     (case app_phase a of
        Handling (r # rs) \<Rightarrow> Some (proceed (Handling rs) (on_states (sm_handleNetworkResult r) now a))
      | _ \<Rightarrow> None)"
| "app_exec ec_text (Frame_end now) a =
     (if app_phase a = Handling [] then Some (frame_end now a) else None)"
| "app_exec ec_text (Work e) a =
     map_option (\<lambda>nc. a\<lparr>app_network := nc\<rparr>) (worker_exec ec_text e (app_network a))"

abbreviation app_execs ::
  "(error_code \<Rightarrow> string) \<Rightarrow> app_event list \<Rightarrow> application \<Rightarrow> application option" where
  "app_execs ec_text \<equiv> runs (app_exec ec_text)"

section \<open>The state manager with one state\<close>

definition only_console :: "state_manager \<Rightarrow> bool" where
  "only_console m \<longleftrightarrow>
     m_states m = [console_state] \<and> m_pendingChanges m = [] \<and> gui_widgets (m_ui m) = [uiRoot console_state] \<and>
     ui_enabled (m_ui m) (uiRoot console_state)"

lemma call_console:
  "call_state call console_state m = (Inr (), m\<lparr>sm_calls := sm_calls m @ [(0, call)]\<rparr>)"
  by (simp add: call_state_def console_state_def)

lemma only_console_new: "StateManager new_ui (Some console_state) = Inr m \<Longrightarrow> only_console m"
  by (auto simp: StateManager_def only_console_def refreshInteractivity_def setInteractive_def mount_def
      new_ui_def)

text \<open>A call of the state manager is a call of the console, and changes nothing else in it.\<close>

lemma on_states_console:
  assumes "only_console (app_states a)"
  shows "\<exists>m. only_console m \<and>
       on_states (sm_handleEvent e) now a = (Inr (), a\<lparr>app_states := m\<rparr>)"
    and "\<exists>m. only_console m \<and> on_states (sm_handleNetworkResult r) now a =
       (Inr (), perform now (Handles_result r) (a\<lparr>app_states := m\<rparr>))"
    and "\<exists>m. only_console m \<and> on_states sm_update now a =
       (Inr (), perform now Updates (a\<lparr>app_states := m\<rparr>))"
    and "\<exists>m. only_console m \<and> on_states sm_render now a =
       (Inr (), perform now Renders (a\<lparr>app_states := m\<rparr>))"
proof -
  let ?m = "\<lambda>call. (app_states a)\<lparr>sm_calls := sm_calls (app_states a) @ [(0, call)]\<rparr>"
  have ok: "only_console (?m call)" for call using assms by (simp add: only_console_def)
  note defs = on_states_def only_console_def firstUpdatedState_def firstRenderedState_def
  have "on_states (sm_handleEvent e) now a = (Inr (), a\<lparr>app_states := ?m (Handles_event e)\<rparr>)"
    using assms by (simp add: defs sm_handleEvent_def call_console)
  with ok show "\<exists>m. only_console m \<and> on_states (sm_handleEvent e) now a = (Inr (), a\<lparr>app_states := m\<rparr>)"
    by blast
  have "on_states (sm_handleNetworkResult r) now a =
      (Inr (), perform now (Handles_result r) (a\<lparr>app_states := ?m (Handles_result r)\<rparr>))"
    using assms by (simp add: defs sm_handleNetworkResult_def call_console)
  with ok show "\<exists>m. only_console m \<and> on_states (sm_handleNetworkResult r) now a =
      (Inr (), perform now (Handles_result r) (a\<lparr>app_states := m\<rparr>))"
    by blast
  have "on_states sm_update now a = (Inr (), perform now Updates (a\<lparr>app_states := ?m Updates\<rparr>))"
    using assms by (simp add: defs sm_update_def call_console applyPendingChanges_def)
  with ok show "\<exists>m. only_console m \<and> on_states sm_update now a =
      (Inr (), perform now Updates (a\<lparr>app_states := m\<rparr>))"
    by blast
  have "on_states sm_render now a = (Inr (), perform now Renders (a\<lparr>app_states := ?m Renders\<rparr>))"
    using assms by (simp add: defs sm_render_def call_console)
  with ok show "\<exists>m. only_console m \<and> on_states sm_render now a =
      (Inr (), perform now Renders (a\<lparr>app_states := m\<rparr>))"
    by blast
qed

section \<open>The invariant of the application\<close>

fun remaining :: "app_phase \<Rightarrow> network_result list" where
  "remaining (Handling rs) = rs"
| "remaining ph = []"

text \<open>Every result handled so far is a line of the log, in order.\<close>

definition logged :: "application \<Rightarrow> network_result list \<Rightarrow> bool" where
  "logged a rs \<longleftrightarrow> subseq (map result_line rs) (map snd (el_added (m_eventLog (app_console a))))"

definition app_inv :: "(error_code \<Rightarrow> string) \<Rightarrow> application \<Rightarrow> bool" where
  "app_inv ec_text a \<longleftrightarrow>
     only_console (app_states a) \<and> console_ok (app_console a) \<and>
     nc_run default_client_config (app_network a) \<and> results_inv ec_text (app_network a) \<and>
     (\<exists>handled. nc_drained (app_network a) = handled @ remaining (app_phase a) \<and> logged a handled) \<and>
     (\<forall>x. app_phase a \<noteq> Left_by x)"

lemma app_invD:
  assumes "app_inv ec_text a"
  shows "only_console (app_states a)" "console_ok (app_console a)"
    "nc_run default_client_config (app_network a)" "results_inv ec_text (app_network a)"
    "app_phase a \<noteq> Left_by x"
  using assms by (simp_all add: app_inv_def)

lemma app_invI:
  assumes "only_console (app_states a)" and "console_ok (app_console a)"
    and "nc_run default_client_config (app_network a)" and "results_inv ec_text (app_network a)"
    and "nc_drained (app_network a) = handled @ remaining (app_phase a)" and "logged a handled"
    and "\<And>x. app_phase a \<noteq> Left_by x"
  shows "app_inv ec_text a"
  using assms unfolding app_inv_def by blast

lemma logged_add:
  "logged a rs \<Longrightarrow> app_console a' = add_line now line c \<Longrightarrow>
     el_added (m_eventLog c) = el_added (m_eventLog (app_console a)) \<Longrightarrow> logged a' rs"
  using list_emb_append_mono [of "(=)" "map result_line rs" _ "[]" "[line]"]
  by (simp add: logged_def add_line_log(1))

lemma logged_result:
  "logged a rs \<Longrightarrow> app_console a' = add_line now (result_line r) c \<Longrightarrow>
     el_added (m_eventLog c) = el_added (m_eventLog (app_console a)) \<Longrightarrow> logged a' (rs @ [r])"
  by (simp add: logged_def add_line_log(1) list_emb_append_mono)

lemma logged_same: "m_eventLog (app_console a') = m_eventLog (app_console a) \<Longrightarrow> logged a' rs = logged a rs"
  by (simp add: logged_def)

lemma logged_update:
  "logged a rs \<Longrightarrow> app_console a' = console_update now nc (app_console a) \<Longrightarrow> logged a' rs"
  by (auto simp: console_update_def show_state_def Let_def intro: logged_add logged_same [THEN iffD2]
      split: if_splits)

text \<open>The steps of the interface on the network component.\<close>

lemma ui_inv:
  assumes "nc_exec ec_text e nc = Some nc'" and "nc_run cfg nc" and "results_inv ec_text nc"
  shows "nc_run cfg nc' \<and> results_inv ec_text nc'"
  using nc_exec_run [OF assms(2,1)] nc_exec_inv [OF assms(3,1)] by simp

lemma pressed_inv:
  assumes inv: "app_inv ec_text a" and ph: "app_phase a = Polling"
    and c: "console_ok c'" "c' = add_line now line c"
      "el_added (m_eventLog c) = el_added (m_eventLog (app_console a))"
    and e: "nc_exec ec_text e (app_network a) = Some nc" "nc_drained nc = nc_drained (app_network a)"
  shows "app_inv ec_text (a\<lparr>app_console := c', app_network := nc\<rparr>)"
proof -
  have "logged a (nc_drained (app_network a))" using inv ph by (simp add: app_inv_def)
  then have "logged (a\<lparr>app_console := c', app_network := nc\<rparr>) (nc_drained (app_network a))"
    by (rule logged_add [of _ _ _ now line c]) (simp_all add: c(2,3))
  with ui_inv [OF e(1) app_invD(3,4) [OF inv]] app_invD(1,5) [OF inv] c(1) e(2) ph show ?thesis
    by (simp add: app_inv_def)
qed

lemma press_inv:
  assumes inv: "app_inv ec_text a" and ph: "app_phase a = Polling"
  shows "app_inv ec_text (press b now millis a)"
proof -
  note pressed = pressed_inv [OF inv ph]
  note ok = console_ok_add [OF app_invD(2) [OF inv]]
  note ok_disable = console_ok_disable [THEN console_ok_add, OF app_invD(2) [OF inv]]
  show ?thesis
  proof (cases b)
    case Connect_button
    then show ?thesis unfolding press_def button_defs Let_def panel_button.case prod.case
      by (simp, intro pressed [OF ok_disable(1) refl _ nc_exec.simps(1)]) (simp_all add: ui_defs)
  next
    case Disconnect_button
    then show ?thesis unfolding press_def button_defs Let_def
      by (simp, intro pressed [OF ok_disable(2) refl _ nc_exec.simps(2)]) (simp_all add: ui_defs)
  next
    case Snapshot_button
    then show ?thesis unfolding press_def button_defs Let_def
      by (simp, intro pressed [OF ok refl _ nc_exec.simps(3)]) (simp_all add: ui_defs)
  next
    case Ping_button
    then show ?thesis unfolding press_def button_defs Let_def
      by (simp, intro pressed [OF ok refl _ nc_exec.simps(3)]) (simp_all add: ui_defs)
  next
    case Quit_button
    then show ?thesis
      using inv by (simp add: press_def app_inv_def logged_def)
  qed
qed

lemma poll_inv:
  assumes inv: "app_inv ec_text a" and ph: "app_phase a = Polling"
    and "poll input now millis a = Some a'"
  shows "app_inv ec_text a'"
proof (cases input)
  case (Press b)
  with assms(3) press_inv [OF inv ph] show ?thesis by (auto split: if_splits)
next
  case (Left_for_state e)
  obtain m where "only_console m" "on_states (sm_handleEvent e) now a = (Inr (), a\<lparr>app_states := m\<rparr>)"
    using on_states_console(1) [OF app_invD(1) [OF inv]] by blast
  with Left_for_state assms(3) inv ph show ?thesis by (auto simp: app_inv_def logged_def)
qed (use assms(3) inv in \<open>auto simp: app_inv_def logged_def\<close>)

lemma poll_end_inv:
  assumes inv: "app_inv ec_text a" and ph: "app_phase a = Polling"
  shows "app_inv ec_text (poll_end a)"
proof -
  have "nc_exec ec_text Ui_drain (app_network a) = Some (snd (drainResults (app_network a)))" by simp
  note ui = ui_inv [OF this app_invD(3,4) [OF inv]]
  have "logged a (nc_drained (app_network a))" using inv ph by (simp add: app_inv_def)
  then have drained: "\<exists>handled. nc_drained (app_network a) @ m_results (app_network a) =
      handled @ m_results (app_network a) \<and> logged a handled" by blast
  show ?thesis
  proof (cases "app_open a")
    case True
    then have eq: "poll_end a = a\<lparr>app_network := snd (drainResults (app_network a)),
        app_phase := Handling (m_results (app_network a))\<rparr>"
      by (simp add: poll_end_def drainResults_def)
    have "nc_drained (snd (drainResults (app_network a))) = nc_drained (app_network a) @ m_results (app_network a)"
      by (simp add: drainResults_def)
    with app_invD(1,2) [OF inv] ui drained show ?thesis
      by (simp add: eq app_inv_def logged_def)
  next
    case False
    with inv ph show ?thesis by (simp add: poll_end_def app_inv_def logged_def)
  qed
qed

lemma next_result_inv:
  assumes inv: "app_inv ec_text a" and ph: "app_phase a = Handling (r # rs)"
  shows "app_inv ec_text (proceed (Handling rs) (on_states (sm_handleNetworkResult r) now a))"
proof -
  obtain m where m: "only_console m" "on_states (sm_handleNetworkResult r) now a =
      (Inr (), perform now (Handles_result r) (a\<lparr>app_states := m\<rparr>))"
    using on_states_console(2) [OF app_invD(1) [OF inv]] by blast
  let ?a = "a\<lparr>app_states := m,
    app_console := console_handleNetworkResult now r (app_network a) (app_console a), app_phase := Handling rs\<rparr>"
  obtain handled where h: "nc_drained (app_network a) = handled @ r # rs" "logged a handled"
    using inv ph by (auto simp: app_inv_def)
  have "logged ?a (handled @ [r])"
    using h(2) by (rule logged_result [of _ _ _ now r "if shows_state r
        then show_state (nc_state (app_network a)) (app_console a) else app_console a"])
      (simp_all add: console_handleNetworkResult_def show_state_def)
  moreover have "nc_drained (app_network ?a) = (handled @ [r]) @ remaining (app_phase ?a)"
    using h(1) by simp
  ultimately have "app_inv ec_text ?a"
    using app_invD(2-4) [OF inv] m(1)
    by (intro app_invI [of ?a]) (simp_all add: console_ok_result)
  with m(2) show ?thesis by simp
qed

definition frame_calls :: "window_call list" where
  "frame_calls = [Clear clearColor] @ map Draw_circle m_background @ [Draw_widgets [uiRoot console_state], Display]"

lemma frame_end_eq:
  assumes "only_console (app_states a)"
  shows "\<exists>m r. only_console m \<and> isOpen r = app_open a \<and> rc_calls r = rc_calls (app_render a) @ frame_calls \<and>
     frame_end now a =
       a\<lparr>app_states := m, app_console := console_update now (app_network a) (app_console a),
         app_render := r, app_phase := (if app_open a then Polling else Returned)\<rparr>"
proof -
  obtain m where m: "only_console m" "on_states sm_update now a =
      (Inr (), perform now Updates (a\<lparr>app_states := m\<rparr>))"
    using on_states_console(3) [OF assms] by blast
  let ?a = "perform now Updates (a\<lparr>app_states := m\<rparr>)"
  let ?b = "?a\<lparr>app_render := beginFrame (app_render ?a)\<rparr>"
  have "only_console (app_states ?b)" using m(1) by simp
  then obtain m' where m': "only_console m'"
    "on_states sm_render now ?b = (Inr (), perform now Renders (?b\<lparr>app_states := m'\<rparr>))"
    using on_states_console(4) by blast
  let ?r = "present (ui_draw (m_ui m') (console_render (beginFrame (app_render a))))"
  have "rc_calls ?r = rc_calls (app_render a) @ frame_calls" "isOpen ?r = app_open a"
    using m'(1) by (simp_all add: frame_calls_def only_console_def)
  with m(2) m' show ?thesis
    by (intro exI [of _ m'] exI [of _ ?r]) (simp add: frame_end_def draw_frame_def)
qed

lemma frame_end_shows:
  assumes "only_console (app_states a)"
  shows "m_shownState (app_console (frame_end now a)) = nc_state (app_network (frame_end now a))"
proof -
  obtain m r where "frame_end now a =
     a\<lparr>app_states := m, app_console := console_update now (app_network a) (app_console a),
       app_render := r, app_phase := (if app_open a then Polling else Returned)\<rparr>"
    using frame_end_eq [OF assms] by blast
  then show ?thesis by (simp only:) (simp add: console_update_shows)
qed

lemma frame_end_inv:
  assumes inv: "app_inv ec_text a" and ph: "app_phase a = Handling []"
  shows "app_inv ec_text (frame_end now a)"
proof -
  obtain m r where m: "only_console m" "frame_end now a =
     a\<lparr>app_states := m, app_console := console_update now (app_network a) (app_console a),
       app_render := r, app_phase := (if app_open a then Polling else Returned)\<rparr>" (is "_ = ?a")
    using frame_end_eq [OF app_invD(1) [OF inv]] by blast
  have "logged a (nc_drained (app_network a))" using inv ph by (simp add: app_inv_def)
  then have "logged ?a (nc_drained (app_network a))"
    by (rule logged_update [of _ _ _ now "app_network a"]) simp
  then show ?thesis
    using app_invD(2-4) [OF inv] m(1) unfolding m(2)
    by (intro app_invI [of ?a _ "nc_drained (app_network a)"]) (simp_all add: console_ok_update)
qed

lemma work_inv:
  assumes inv: "app_inv ec_text a" and "worker_exec ec_text e (app_network a) = Some nc"
  shows "app_inv ec_text (a\<lparr>app_network := nc\<rparr>)"
proof -
  have "nc_exec ec_text (Worker e) (app_network a) = Some nc" using assms(2) by simp
  moreover have "nc_drained nc = nc_drained (app_network a)"
    using assms(2) by (cases e) (auto simp: worker_step_def complete_call_def nc_publish_def
        split: if_splits option.splits list.splits)
  ultimately show ?thesis
    using ui_inv [OF \<open>nc_exec ec_text (Worker e) (app_network a) = Some nc\<close> app_invD(3,4) [OF inv]] inv
    by (simp add: app_inv_def logged_def)
qed

lemma app_exec_inv: "app_inv ec_text a \<Longrightarrow> app_exec ec_text e a = Some a' \<Longrightarrow> app_inv ec_text a'"
  by (cases e) (auto simp: poll_inv poll_end_inv next_result_inv frame_end_inv work_inv
      split: if_splits app_phase.splits list.splits)

interpretation app: machine_invariant "app_exec ec_text" "app_inv ec_text" for ec_text
  by unfold_locales (rule app_exec_inv)

lemma Application_inv: "Application now = Inr a \<Longrightarrow> app_inv ec_text a"
  by (auto simp: Application_def app_inv_def only_console_new console_ok_new logged_def
      network_create_run network_create_inv split: sum.splits)
    (auto simp: network_create_def split: sum.splits)

section \<open>What the window shows\<close>

text \<open>\<open>main\<close>: the exit code of the program that ended in this way.\<close>

fun client_main :: "application result \<Rightarrow> nat option" where
  "client_main (Inl x) = Some 1"
| "client_main (Inr a) =
     (case app_phase a of Returned \<Rightarrow> Some 0 | Left_by x \<Rightarrow> Some 1 | _ \<Rightarrow> None)"

definition frames :: "app_event list \<Rightarrow> nat" where
  "frames es = length (filter (\<lambda>e. case e of Frame_end _ \<Rightarrow> True | _ \<Rightarrow> False) es)"

text \<open>After \<open>n\<close> whole frames the window has been closed \<open>k\<close> times.\<close>

definition drawn :: "nat \<Rightarrow> nat \<Rightarrow> application \<Rightarrow> bool" where
  "drawn n k a \<longleftrightarrow>
     rc_calls (app_render a) =
       Set_framerate_limit 60 # concat (replicate n frame_calls) @ replicate k Close_window \<and>
     (app_open a \<longleftrightarrow> k = 0) \<and> (\<forall>rs. app_phase a = Handling rs \<longrightarrow> k = 0) \<and>
     (app_phase a = Returned \<longrightarrow> 0 < k)"

lemma drawn_same:
  "drawn n k a \<Longrightarrow> app_render a' = app_render a \<Longrightarrow> app_phase a' = app_phase a \<Longrightarrow> drawn n k a'"
  by (simp add: drawn_def)

lemma drawn_closed:
  "drawn n k a \<Longrightarrow> app_phase a = Polling \<Longrightarrow> drawn n (Suc k) (a\<lparr>app_render := close_window (app_render a)\<rparr>)"
  by (simp add: drawn_def replicate_append_same)

lemma press_drawn:
  assumes "drawn n k a" and "app_phase a = Polling"
  shows "\<exists>k'. drawn n k' (press b now millis a)"
proof (cases "b = Quit_button")
  case True
  with drawn_closed [OF assms] show ?thesis by (auto simp: press_def)
next
  case False
  then have "app_render (press b now millis a) = app_render a"
    "app_phase (press b now millis a) = app_phase a"
    by (cases b; simp add: press_def button_defs Let_def)+
  with drawn_same [OF assms(1)] show ?thesis by blast
qed

lemma app_exec_drawn:
  assumes inv: "app_inv ec_text a" and drawn: "drawn n k a" and exec: "app_exec ec_text e a = Some a'"
  shows "\<exists>k'. drawn (n + frames [e]) k' a'"
proof (cases e)
  case (Polled input now millis)
  then have ph: "app_phase a = Polling" "poll input now millis a = Some a'" "frames [e] = 0"
    using exec by (simp_all add: frames_def split: if_splits)
  show ?thesis
  proof (cases input)
    case (Press b)
    with ph press_drawn [OF drawn ph(1)] show ?thesis by (auto split: if_splits)
  next
    case (Left_for_state ev)
    obtain m where "on_states (sm_handleEvent ev) now a = (Inr (), a\<lparr>app_states := m\<rparr>)"
      using on_states_console(1) [OF app_invD(1) [OF inv]] by blast
    with Left_for_state ph drawn_same [OF drawn, of a'] show ?thesis by auto
  next
    case Closed
    with ph drawn_closed [OF drawn ph(1)] show ?thesis by auto
  qed (use ph drawn in auto)
next
  case No_more_events
  with exec drawn show ?thesis
    by (auto simp: poll_end_def drainResults_def drawn_def frames_def split: if_splits)
next
  case (Next_result now)
  then obtain r rs where r: "app_phase a = Handling (r # rs)"
    "a' = proceed (Handling rs) (on_states (sm_handleNetworkResult r) now a)"
    using exec by (auto split: app_phase.splits list.splits)
  with Next_result drawn on_states_console(2) [OF app_invD(1) [OF inv], of r now] show ?thesis
    by (auto simp: drawn_def frames_def)
next
  case (Frame_end now)
  then have ph: "a' = frame_end now a" "app_phase a = Handling []" "frames [e] = 1"
    using exec by (simp_all add: frames_def split: if_splits)
  have closed: "k = 0" "app_open a" using drawn ph(2) by (simp_all add: drawn_def)
  obtain m r where m: "isOpen r = app_open a" "rc_calls r = rc_calls (app_render a) @ frame_calls"
    "frame_end now a = a\<lparr>app_states := m, app_console := console_update now (app_network a) (app_console a),
       app_render := r, app_phase := (if app_open a then Polling else Returned)\<rparr>"
    using frame_end_eq [OF app_invD(1) [OF inv]] by blast
  have more: "concat (replicate (Suc n) frame_calls) = concat (replicate n frame_calls) @ frame_calls"
    unfolding replicate_Suc replicate_append_same [symmetric] by simp
  have "drawn (Suc n) 0 a'"
    using drawn closed m(1,2) more unfolding ph(1) m(3) by (simp add: drawn_def del: replicate_Suc)
  then show ?thesis using ph(3) by auto
next
  case (Work we)
  then have "app_render a' = app_render a" "app_phase a' = app_phase a" using exec by auto
  with Work drawn_same [OF drawn] show ?thesis by (auto simp: frames_def)
qed

lemma app_execs_drawn:
  "app_execs ec_text es a = Some a' \<Longrightarrow> app_inv ec_text a \<Longrightarrow> drawn n k a \<Longrightarrow>
     \<exists>k'. drawn (n + frames es) k' a'"
proof (induction es arbitrary: a n k)
  case Nil
  then show ?case by (auto simp: frames_def)
next
  case (Cons e es)
  obtain a1 where a1: "app_exec ec_text e a = Some a1" "app_execs ec_text es a1 = Some a'"
    using Cons.prems(1) by (auto split: Option.bind_splits)
  obtain k1 where k1: "drawn (n + frames [e]) k1 a1"
    using app_exec_drawn [OF Cons.prems(2,3) a1(1)] by blast
  have "frames (e # es) = frames [e] + frames es" by (simp add: frames_def)
  with Cons.IH [OF a1(2) app_exec_inv [OF Cons.prems(2) a1(1)] k1] show ?case by (simp add: add.assoc)
qed

lemma Application_drawn: "Application now = Inr a \<Longrightarrow> drawn 0 0 a"
  by (auto simp: Application_def drawn_def split: sum.splits)

section \<open>A console that no longer notices its client\<close>

text \<open>
  A disconnected client with no call of \<open>connect\<close> stays disconnected, and no call that ends
  reports what makes the console look at the state again.
\<close>

definition quiet :: "outcome \<Rightarrow> bool" where
  "quiet oc \<longleftrightarrow> (\<forall>r. oc \<noteq> Connect_returns r) \<and> (\<forall>x. oc \<noteq> Disconnect_returns (Inl x))"

lemma quiet_request [simp]: "quiet (request_outcome payload k r)"
  by (simp add: quiet_def request_outcome_def split: client_payload.splits)

lemma quiet_completion: "quiet oc \<Longrightarrow> completion ec_text oc = Some r \<Longrightarrow> \<not> shows_state r"
  by (induction ec_text oc rule: completion.induct) (auto simp: quiet_def)

lemma client_exec_quiet:
  assumes inv: "link_inv c" and st: "m_state c = Disconnected" and e: "e \<noteq> Call_connect"
    and exec: "client_exec e c = Some c'"
  shows "m_state c' = Disconnected \<and> (\<exists>ocs. cl_outcomes c' = cl_outcomes c @ ocs \<and> (\<forall>oc \<in> set ocs. quiet oc))"
proof (cases e)
  case (Connect_done ec)
  have "cl_connects c = 0" using inv st by (simp add: link_inv_def state_inv_def)
  with Connect_done exec show ?thesis by simp
next
  case Call_disconnect
  with exec st show ?thesis by (auto simp: disconnect_begin_def quiet_def)
next
  case (Waiter_resumed i)
  then obtain ec where "Waiter_done ec \<in> set (m_disconnectWaiters c)" "c' = disconnect_resume i ec c"
    using exec by (metis waiter_resumedD)
  with inv st show ?thesis
    by (auto simp: link_inv_def waiters_inv_def disconnect_resume_def quiet_def Let_def)
next
  case (Call_request payload)
  with exec st show ?thesis
    by (auto simp: request_begin_def Let_def split: prod.splits sum.splits fault.splits)
next
  case (Sender_resumed i)
  then obtain ec where "c' = request_resume i ec c"
    using exec by (metis sender_resumedD)
  with st show ?thesis by (simp add: request_resume_def case_prod_unfold Let_def)
next
  case Posted_close
  have "cl_posted_closes c = 0" using inv st by (simp add: link_inv_def state_inv_def posted_inv_def)
  with Posted_close exec show ?thesis by simp
next
  case (Received ref i)
  with exec st show ?thesis by (auto simp: client_receive_def split: if_splits read_loop.splits)
qed (use e exec st in \<open>auto split: if_splits option.splits\<close>)

definition nothing_to_show :: "(error_code \<Rightarrow> string) \<Rightarrow> network_component \<Rightarrow> bool" where
  "nothing_to_show ec_text nc \<longleftrightarrow>
     nc_state nc = Disconnected \<and> Call_connect \<notin> set (nc_spawned nc) \<and>
     (\<forall>r \<in> set (m_results nc). \<not> shows_state r) \<and> (\<forall>oc \<in> set (nc_ended nc). quiet oc)"

lemma worker_step_quiet:
  assumes "nc_run cfg nc" and "nothing_to_show ec_text nc" and "e \<noteq> Call_connect"
    and "worker_step e nc = Some nc'"
  shows "nothing_to_show ec_text nc'"
proof -
  obtain c where c: "client_exec e (m_client nc) = Some c"
    "nc' = nc\<lparr>m_client := c,
       nc_ended := nc_ended nc @ drop (length (cl_outcomes (m_client nc))) (cl_outcomes c)\<rparr>"
    using assms(4) by (auto simp: worker_step_def split: option.splits)
  have "link_inv (m_client nc)" using assms(1) client_run_link by (auto simp: nc_run_def)
  moreover have "m_state (m_client nc) = Disconnected"
    using assms(2) by (simp add: nothing_to_show_def nc_state_def)
  ultimately obtain ocs where "m_state c = Disconnected" "cl_outcomes c = cl_outcomes (m_client nc) @ ocs"
    "\<forall>oc \<in> set ocs. quiet oc"
    using client_exec_quiet [OF _ _ assms(3) c(1)] by blast
  with assms(2) show ?thesis by (auto simp: c(2) nothing_to_show_def nc_state_def)
qed

lemma worker_exec_quiet:
  assumes run: "nc_run cfg nc" and quiet: "nothing_to_show ec_text nc"
    and exec: "worker_exec ec_text e nc = Some nc'"
  shows "nothing_to_show ec_text nc'"
proof (cases e)
  case (Takes i)
  let ?nc = "nc\<lparr>nc_spawned := remove_at i (nc_spawned nc)\<rparr>"
  have i: "i < length (nc_spawned nc)" "worker_step (nc_spawned nc ! i) ?nc = Some nc'"
    using Takes exec by (simp_all split: if_splits)
  have "nc_run cfg ?nc" using run by (simp add: nc_run_def)
  moreover have "nothing_to_show ec_text ?nc"
    using quiet set_remove_at [of i "nc_spawned nc"] by (auto simp: nothing_to_show_def nc_state_def)
  moreover have "nc_spawned nc ! i \<noteq> Call_connect"
    using quiet i(1) nth_mem by (force simp: nothing_to_show_def)
  ultimately show ?thesis using i(2) worker_step_quiet by blast
next
  case (Client_step e')
  then have e': "internal_event e'" "worker_step e' nc = Some nc'" using exec by (simp_all split: if_splits)
  then have "e' \<noteq> Call_connect" by auto
  with e'(2) worker_step_quiet [OF run quiet] show ?thesis by blast
next
  case Completes
  with exec quiet quiet_completion [of _ ec_text] show ?thesis
    by (auto simp: complete_call_def nc_publish_def nothing_to_show_def nc_state_def
        split: list.splits option.splits)
qed

definition stuck :: "(error_code \<Rightarrow> string) \<Rightarrow> application \<Rightarrow> bool" where
  "stuck ec_text a \<longleftrightarrow>
     nothing_to_show ec_text (app_network a) \<and> (\<forall>r \<in> set (remaining (app_phase a)). \<not> shows_state r) \<and>
     m_shownState (app_console a) = Disconnected \<and>
     \<not> button_enabled (m_connectionPanel (app_console a)) Connect_button"

lemma stuck_buttons: "app_inv ec_text a \<Longrightarrow> stuck ec_text a \<Longrightarrow> can_press b a \<Longrightarrow> b = Quit_button"
  using app_invD(2) [of ec_text a]
  by (cases b) (auto simp: can_press_def stuck_def console_ok_def panel_ok_def)

lemma stuck_step:
  assumes inv: "app_inv ec_text a" and stuck: "stuck ec_text a" and exec: "app_exec ec_text e a = Some a'"
  shows "stuck ec_text a'"
proof (cases e)
  case (Polled input now millis)
  then have ph: "app_phase a = Polling" "poll input now millis a = Some a'"
    using exec by (simp_all split: if_splits)
  show ?thesis
  proof (cases input)
    case (Press b)
    with ph(2) stuck_buttons [OF inv stuck, of b] have "a' = a\<lparr>app_render := close_window (app_render a)\<rparr>"
      by (auto simp: press_def split: if_splits)
    with stuck show ?thesis by (simp add: stuck_def)
  next
    case (Left_for_state e)
    with ph stuck on_states_console(1) [OF app_invD(1) [OF inv], of e now] show ?thesis
      by (auto simp: stuck_def)
  qed (use ph stuck in \<open>auto simp: stuck_def\<close>)
next
  case No_more_events
  with exec stuck show ?thesis
    by (auto simp: poll_end_def drainResults_def stuck_def nothing_to_show_def nc_state_def split: if_splits)
next
  case (Next_result now)
  then obtain r rs where r: "app_phase a = Handling (r # rs)"
    "a' = proceed (Handling rs) (on_states (sm_handleNetworkResult r) now a)"
    using exec by (auto split: app_phase.splits list.splits)
  with stuck on_states_console(2) [OF app_invD(1) [OF inv], of r now] show ?thesis
    by (auto simp: stuck_def console_handleNetworkResult_def add_line_def)
next
  case (Frame_end now)
  then have "a' = frame_end now a" "app_phase a = Handling []" using exec by (simp_all split: if_splits)
  with stuck frame_end_eq [OF app_invD(1) [OF inv], of now] show ?thesis
    by (auto simp: stuck_def console_update_def nothing_to_show_def split: if_splits)
next
  case (Work e)
  then obtain nc where "worker_exec ec_text e (app_network a) = Some nc" "a' = a\<lparr>app_network := nc\<rparr>"
    using exec by auto
  with stuck worker_exec_quiet [OF app_invD(3) [OF inv]] show ?thesis by (simp add: stuck_def)
qed

interpretation stuck: machine_invariant "app_exec ec_text" "\<lambda>a. app_inv ec_text a \<and> stuck ec_text a"
  for ec_text
  by unfold_locales (auto intro: app_exec_inv stuck_step)

section \<open>Properties\<close>

definition sample_app :: application where
  "sample_app = projr (Application ''12:00:00'')"

lemma sample_app_create: "Application ''12:00:00'' = Inr sample_app"
proof -
  have "\<not> isl (Application ''12:00:00'')"
    by (simp add: Application_def StateManager_def sample_network_create)
  then show ?thesis by (cases "Application ''12:00:00''") (simp_all add: sample_app_def)
qed

text \<open>A connection that is made and lost within one frame, after a press of the button.\<close>

definition lost_connection :: "app_event list" where
  "lost_connection =
     [Polled (Press Connect_button) ''12:00:01'' 0, Work (Takes 0),
      Work (Client_step (Connect_done Ec_success)), Work (Client_step (Conn_event 0 Run_post)),
      Work (Client_step (Conn_event 0 (Run_reader 0))),
      Work (Client_step (Conn_event 0 (Message_read 0 (Inl (System_error Ec_eof ''read''))))),
      Work (Client_step Posted_close), Work Completes, No_more_events, Frame_end ''12:00:02'']"

text \<open>An attempt to connect that the interface sees begin and then fail.\<close>

definition failed_attempt :: "app_event list" where
  "failed_attempt =
     [Polled (Press Connect_button) ''12:00:01'' 0, Work (Takes 0), No_more_events,
      Frame_end ''12:00:02'', Work (Client_step (Connect_done (Ec_other 1))), Work Completes, No_more_events,
      Next_result ''12:00:03'', Frame_end ''12:00:03'']"





text \<open>
  C33: only whole frames are shown. In every run of the program the window is asked for 60 frames
  a second and then, for each frame that ended, to clear itself, to draw the two circles of the
  console and then the widgets of the console's root, and to display what was drawn; nothing is
  drawn once the window is closed, the loop returns only then, and the program ends with exit
  code 0.
\<close>

theorem frames_are_whole:
  assumes "Application now = Inr a0" and "app_execs ec_text es a0 = Some a"
  shows "\<exists>k. rc_calls (app_render a) = Set_framerate_limit 60 #
       concat (replicate (frames es)
         ([Clear clearColor] @ map Draw_circle m_background @ [Draw_widgets [uiRoot console_state], Display])) @
       replicate k Close_window \<and>
     (app_open a \<longleftrightarrow> k = 0) \<and> (app_phase a = Returned \<longrightarrow> 0 < k) \<and>
     (client_main (Inr a) = None \<or> client_main (Inr a) = Some 0)"
proof -
  have inv: "app_inv ec_text a" by (rule app.runs_inv [OF Application_inv [OF assms(1)] assms(2)])
  obtain k where "drawn (frames es) k a"
    using app_execs_drawn [OF assms(2) Application_inv [OF assms(1)] Application_drawn [OF assms(1)]] by auto
  with app_invD(5) [OF inv] show ?thesis
    unfolding drawn_def frame_calls_def by (intro exI [of _ k]) (simp split: app_phase.split)
qed

theorem frames_are_whole_witness:
  "\<exists>a. app_execs (\<lambda>_. []) failed_attempt sample_app = Some a \<and>
     length (filter (\<lambda>call. call = Display) (rc_calls (app_render a))) = 2"
proof -
  have "app_execs (\<lambda>_. []) failed_attempt sample_app \<noteq> None" by code_simp
  then obtain a where a: "app_execs (\<lambda>_. []) failed_attempt sample_app = Some a" by blast
  have n: "frames failed_attempt = 2" by (simp add: frames_def failed_attempt_def)
  show ?thesis
    using frames_are_whole [OF sample_app_create a] a unfolding n m_background_def
    by (auto simp: numeral_2_eq_2)
qed



end
