(* ===== verification/Program.thy ===== *)
theory Program
  imports System Application
begin

text \<open>
  Everything together: the server program and any number of client programs, each with its user
  interface and its worker thread. A step is a step of the server or of one client program;
  where the worker of a client program makes a step of the client, the network of \<open>System\<close>
  decides what it reads. Every run of the programs is a run of the system of the server and the
  clients inside them, so what holds of the system holds of the programs; and what the event
  log shows can be traced to the server.
\<close>

section \<open>The programs\<close>

record program =
  pr_server :: server
  pr_apps :: "application list"

definition client_of :: "application \<Rightarrow> client" where
  "client_of a = m_client (app_network a)"

definition system_of :: "program \<Rightarrow> system" where
  "system_of p = \<lparr>sys_server = pr_server p, sys_clients = map client_of (pr_apps p)\<rparr>"

text \<open>The step of the client an event of the application makes, if it makes one.\<close>

fun client_move :: "application \<Rightarrow> app_event \<Rightarrow> client_event option" where
  "client_move a (Work (Takes i)) = at (nc_spawned (app_network a)) i"
| "client_move a (Work (Client_step e)) = Some e"
| "client_move a e = None"

datatype program_event = Server_does server_event | App_does nat app_event

inductive program_step ::
  "(json \<Rightarrow> string result) \<Rightarrow> (error_code \<Rightarrow> string) \<Rightarrow> wiring \<Rightarrow> program \<Rightarrow> program_event \<Rightarrow> program \<Rightarrow> bool"
  for dump ec_text w where
  server_does: "server_step dump (pr_server p) e v \<Longrightarrow> server_network w (system_of p) e \<Longrightarrow>
     program_step dump ec_text w p (Server_does e) (p\<lparr>pr_server := v\<rparr>)"
| app_does: "j < length (pr_apps p) \<Longrightarrow> app_exec ec_text e (pr_apps p ! j) = Some a \<Longrightarrow>
     pred_option (client_network w (system_of p) j) (client_move (pr_apps p ! j) e) \<Longrightarrow>
     program_step dump ec_text w p (App_does j e) (p\<lparr>pr_apps := (pr_apps p)[j := a]\<rparr>)"

inductive program_path ::
  "(json \<Rightarrow> string result) \<Rightarrow> (error_code \<Rightarrow> string) \<Rightarrow> wiring \<Rightarrow> program \<Rightarrow> program_event list \<Rightarrow>
     program \<Rightarrow> bool"
  for dump ec_text w p0 where
  program_here: "program_path dump ec_text w p0 [] p0"
| program_next: "program_path dump ec_text w p0 es p \<Longrightarrow> program_step dump ec_text w p e p' \<Longrightarrow>
     program_path dump ec_text w p0 (es @ [e]) p'"

text \<open>The server and the client programs, each started at its own time of day.\<close>

inductive program_run ::
  "(json \<Rightarrow> string result) \<Rightarrow> (error_code \<Rightarrow> string) \<Rightarrow> wiring \<Rightarrow> string list \<Rightarrow> program_event list \<Rightarrow>
     program \<Rightarrow> bool"
  for dump ec_text w nows where
  programs_start: "list_all2 (\<lambda>now a. Application now = Inr a) nows as \<Longrightarrow>
     program_run dump ec_text w nows [] \<lparr>pr_server = initial_server, pr_apps = as\<rparr>"
| programs_next: "program_run dump ec_text w nows es p \<Longrightarrow> program_step dump ec_text w p e p' \<Longrightarrow>
     program_run dump ec_text w nows (es @ [e]) p'"

section \<open>A run of the programs is a run of the system\<close>

lemma on_states_network: "app_network (snd (on_states f now a)) = app_network a"
proof -
  have "app_network (perform now call b) = app_network b" for call b
    by (cases "(now, call, b)" rule: perform.cases) simp_all
  then have "app_network (fold (perform now) calls b) = app_network b" for calls b
    by (induction calls arbitrary: b) simp_all
  then show ?thesis by (simp add: on_states_def Let_def split: prod.splits)
qed

lemma proceed_network: "app_network (proceed ph ra) = app_network (snd ra)"
  by (cases "(ph, ra)" rule: proceed.cases) simp_all

lemma frame_end_network: "app_network (frame_end now a) = app_network a"
proof -
  have draw: "app_network (snd (draw_frame now b)) = app_network b" for b
  proof -
    let ?b = "b\<lparr>app_render := beginFrame (app_render b)\<rparr>"
    have "app_network (snd (on_states sm_render now ?b)) = app_network b"
      using on_states_network [of sm_render now ?b] by simp
    then show ?thesis by (auto simp: draw_frame_def split: prod.split sum.split)
  qed
  have "app_network (snd (on_states sm_update now a)) = app_network a" by (rule on_states_network)
  with draw show ?thesis
    by (auto simp: frame_end_def split: prod.split sum.split) (metis snd_conv)+
qed

lemma press_client: "client_of (press b now millis a) = client_of a"
  by (cases b) (simp_all add: press_def button_defs ui_defs client_of_def Let_def)

text \<open>An application makes the step of the client its event stands for, or leaves it alone.\<close>

lemma app_exec_client:
  assumes "app_exec ec_text e a = Some a'"
  shows "case client_move a e of
      None \<Rightarrow> client_of a' = client_of a
    | Some ce \<Rightarrow> client_exec ce (client_of a) = Some (client_of a')"
proof (cases e)
  case (Polled input now millis)
  with assms have "poll input now millis a = Some a'" by (simp split: if_splits)
  with Polled show ?thesis
    by (cases input)
      (auto simp: press_client [unfolded client_of_def] client_of_def proceed_network on_states_network split: if_splits)
next
  case No_more_events
  with assms show ?thesis
    by (auto simp: poll_end_def drainResults_def client_of_def Let_def split: if_splits)
next
  case (Next_result now)
  with assms show ?thesis
    by (auto simp: client_of_def proceed_network on_states_network split: app_phase.splits list.splits)
next
  case (Frame_end now)
  with assms show ?thesis by (auto simp: frame_end_network client_of_def split: if_splits)
next
  case (Work we)
  then obtain nc where nc: "worker_exec ec_text we (app_network a) = Some nc" "a' = a\<lparr>app_network := nc\<rparr>"
    using assms by auto
  show ?thesis
  proof (cases we)
    case (Takes i)
    with Work nc show ?thesis
      by (auto simp: client_of_def worker_step_def at_def split: if_splits option.splits)
  next
    case (Client_step ce)
    with Work nc show ?thesis
      by (auto simp: client_of_def worker_step_def split: if_splits option.splits)
  next
    case Completes
    with Work nc show ?thesis
      by (auto simp: client_of_def complete_call_def nc_publish_def split: list.splits option.splits)
  qed
qed

text \<open>The step of the system a step of the programs makes.\<close>

fun system_moves :: "program \<Rightarrow> program_event \<Rightarrow> system_event list" where
  "system_moves p (Server_does e) = [At_server e]"
| "system_moves p (App_does j e) =
     (case client_move (pr_apps p ! j) e of None \<Rightarrow> [] | Some ce \<Rightarrow> [At_client j ce])"

lemma program_step_system:
  assumes "program_step dump ec_text w p e p'"
  shows "case system_moves p e of
      [] \<Rightarrow> system_of p' = system_of p
    | se # _ \<Rightarrow> system_step dump w (system_of p) se (system_of p')"
  using assms
proof cases
  case (server_does e v)
  have "system_of p' = (system_of p)\<lparr>sys_server := v\<rparr>" using server_does(2) by (simp add: system_of_def)
  moreover have "sys_server (system_of p) = pr_server p" by (simp add: system_of_def)
  ultimately show ?thesis
    using server_does server_moves [of dump "system_of p" e v w] by simp
next
  case (app_does j e a)
  have clients: "sys_clients (system_of p) ! j = client_of (pr_apps p ! j)"
    "j < length (sys_clients (system_of p))"
    using app_does(3) by (simp_all add: system_of_def)
  have p': "system_of p' = (system_of p)\<lparr>sys_clients := (sys_clients (system_of p))[j := client_of a]\<rparr>"
    using app_does(2) by (simp add: system_of_def map_update)
  show ?thesis
  proof (cases "client_move (pr_apps p ! j) e")
    case None
    with app_exec_client [OF app_does(4)] have "client_of a = sys_clients (system_of p) ! j"
      by (simp add: clients(1))
    then have "system_of p' = system_of p" by (simp add: p')
    with None app_does(1) show ?thesis by simp
  next
    case (Some ce)
    with app_exec_client [OF app_does(4)] app_does(5) client_moves [of j "system_of p" ce] clients
    have "system_step dump w (system_of p) (At_client j ce) (system_of p')"
      unfolding p' by simp
    with Some app_does(1) show ?thesis by simp
  qed
qed

lemma Application_client:
  "Application now = Inr a \<Longrightarrow> client_create default_client_config = Inr (client_of a)"
  by (auto simp: Application_def network_create_def client_of_def split: sum.splits)

text \<open>The simulation, with at most as many steps of the system.\<close>

lemma program_simulation:
  "program_run dump ec_text w nows es p \<Longrightarrow>
     \<exists>ses. length ses \<le> length es \<and>
       system_run dump w (replicate (length nows) default_client_config) ses (system_of p)"
proof (induction rule: program_run.induct)
  case (programs_start as)
  then have "list_all2 (\<lambda>cfg c. client_create cfg = Inr c)
      (replicate (length nows) default_client_config) (map client_of as)"
    by (auto simp: list_all2_conv_all_nth Application_client)
  then show ?case by (auto simp: system_of_def intro: run_start)
next
  case (programs_next es p e p')
  then obtain ses where ses: "length ses \<le> length es"
    "system_run dump w (replicate (length nows) default_client_config) ses (system_of p)"
    by blast
  show ?case
  proof (cases "system_moves p e")
    case Nil
    with program_step_system [OF programs_next(2)] ses show ?thesis by (intro exI [of _ ses]) simp
  next
    case (Cons se rest)
    with program_step_system [OF programs_next(2)]
    have "system_step dump w (system_of p) se (system_of p')" by simp
    from run_next [OF ses(2) this] ses(1) show ?thesis by (intro exI [of _ "ses @ [se]"]) simp
  qed
qed

section \<open>Where the lines of the event log come from\<close>

text \<open>The lines that report no response.\<close>

definition plain_line :: "string \<Rightarrow> bool" where
  "plain_line line \<longleftrightarrow> \<not> prefix ''State snapshot: '' line \<and> \<not> prefix ''Pong: '' line"

text \<open>Of two states of an application: new lines are plain or report a drained result.\<close>

definition log_grows :: "application \<Rightarrow> application \<Rightarrow> bool" where
  "log_grows a a' \<longleftrightarrow>
     (\<exists>entries. el_added (m_eventLog (app_console a')) = el_added (m_eventLog (app_console a)) @ entries \<and>
        (\<forall>(now, line) \<in> set entries.
           plain_line line \<or> (\<exists>r \<in> set (nc_drained (app_network a')). line = result_line r))) \<and>
     set (nc_drained (app_network a)) \<subseteq> set (nc_drained (app_network a'))"

definition log_sources :: "application \<Rightarrow> bool" where
  "log_sources a \<longleftrightarrow>
     (\<forall>(now, line) \<in> set (el_added (m_eventLog (app_console a))).
        plain_line line \<or> (\<exists>r \<in> set (nc_drained (app_network a)). line = result_line r))"

lemma log_sources_grows: "log_sources a \<Longrightarrow> log_grows a a' \<Longrightarrow> log_sources a'"
  unfolding log_sources_def log_grows_def by fastforce

lemma log_grows_same:
  "m_eventLog (app_console a') = m_eventLog (app_console a) \<Longrightarrow>
     set (nc_drained (app_network a)) \<subseteq> set (nc_drained (app_network a')) \<Longrightarrow> log_grows a a'"
  by (simp add: log_grows_def)

lemma log_grows_line:
  "app_console a' = add_line now line c \<Longrightarrow> m_eventLog c = m_eventLog (app_console a) \<Longrightarrow>
     nc_drained (app_network a') = nc_drained (app_network a) \<Longrightarrow>
     plain_line line \<or> (\<exists>r \<in> set (nc_drained (app_network a)). line = result_line r) \<Longrightarrow> log_grows a a'"
  by (auto simp: log_grows_def add_line_log(1))

lemma press_log: "log_grows a (press b now millis a)"
  by (cases b) (simp_all add: log_grows_def press_def button_defs ui_defs plain_line_def
      add_line_log(1) Let_def)

lemma update_log:
  "\<exists>entries. el_added (m_eventLog (console_update now nc c)) = el_added (m_eventLog c) @ entries \<and>
     (\<forall>(now, line) \<in> set entries. plain_line line)"
  by (auto simp: console_update_def show_state_def add_line_log(1) plain_line_def Let_def)

lemma app_exec_log:
  assumes inv: "app_inv ec_text a" and exec: "app_exec ec_text e a = Some a'"
  shows "log_grows a a'"
proof (cases e)
  case (Polled input now millis)
  with exec have poll: "poll input now millis a = Some a'" by (simp split: if_splits)
  show ?thesis
  proof (cases input)
    case (Press b)
    with poll press_log show ?thesis by (auto split: if_splits)
  next
    case (Left_for_state ev)
    obtain m where "on_states (sm_handleEvent ev) now a = (Inr (), a\<lparr>app_states := m\<rparr>)"
      using on_states_console(1) [OF app_invD(1) [OF inv]] by blast
    with Left_for_state poll show ?thesis by (auto intro: log_grows_same)
  qed (use poll in \<open>auto intro: log_grows_same\<close>)
next
  case No_more_events
  with exec show ?thesis
    by (auto simp: poll_end_def drainResults_def Let_def split: if_splits intro!: log_grows_same)
next
  case (Next_result now)
  then obtain r rs where ph: "app_phase a = Handling (r # rs)"
    and a': "a' = proceed (Handling rs) (on_states (sm_handleNetworkResult r) now a)"
    using exec by (auto split: app_phase.splits list.splits)
  obtain m where m: "on_states (sm_handleNetworkResult r) now a =
      (Inr (), perform now (Handles_result r) (a\<lparr>app_states := m\<rparr>))"
    using on_states_console(2) [OF app_invD(1) [OF inv]] by blast
  have "r \<in> set (nc_drained (app_network a))" using inv ph by (auto simp: app_inv_def)
  then show ?thesis
    by (intro log_grows_line [of a' now "result_line r" "if shows_state r
          then show_state (nc_state (app_network a)) (app_console a) else app_console a"])
      (auto simp: a' m console_handleNetworkResult_def show_state_def)
next
  case (Frame_end now)
  with exec have a': "a' = frame_end now a" by (simp split: if_splits)
  obtain m r where m: "frame_end now a =
     a\<lparr>app_states := m, app_console := console_update now (app_network a) (app_console a),
       app_render := r, app_phase := (if app_open a then Polling else Returned)\<rparr>"
    using frame_end_eq [OF app_invD(1) [OF inv]] by blast
  with update_log [of now "app_network a" "app_console a"] show ?thesis
    unfolding a' m by (fastforce simp: log_grows_def)
next
  case (Work we)
  then obtain nc where "worker_exec ec_text we (app_network a) = Some nc" "a' = a\<lparr>app_network := nc\<rparr>"
    using exec by auto
  then show ?thesis
    by (cases we) (auto simp: worker_step_def complete_call_def nc_publish_def
        split: if_splits option.splits list.splits intro!: log_grows_same)
qed

interpretation app_log: machine_invariant "app_exec ec_text" "\<lambda>a. app_inv ec_text a \<and> log_sources a" for ec_text
  by unfold_locales (auto intro: app_exec_inv log_sources_grows app_exec_log)

lemma Application_log: "Application now = Inr a \<Longrightarrow> log_sources a"
  by (auto simp: Application_def log_sources_def ClientConsoleState_def EventLogPanel_def plain_line_def
      add_line_log(1) show_state_def split: sum.splits)

section \<open>What was pressed\<close>

text \<open>The press of a button a request comes from; a ping takes the time of the press.\<close>

fun pressed_for :: "client_payload \<Rightarrow> app_event \<Rightarrow> bool" where
  "pressed_for (Ping request) e \<longleftrightarrow> (\<exists>now. e = Polled (Press Ping_button) now (ping_timestamp request))"
| "pressed_for StateSnapshot e \<longleftrightarrow> (\<exists>now millis. e = Polled (Press Snapshot_button) now millis)"

text \<open>The requests of an application: those the worker has still to take up, and those made.\<close>

definition asked :: "application \<Rightarrow> client_payload set" where
  "asked a = {payload. Call_request payload \<in> set (nc_spawned (app_network a))} \<union>
     fst ` set (made (client_of a))"

lemma made_grows:
  assumes "client_exec e c = Some c'" and "(payload, k) \<in> set (made c')"
  shows "(payload, k) \<in> set (made c) \<or> e = Call_request payload"
proof (cases "request_event e")
  case False
  from other_event_frame [OF assms(1) False] have "made c' = made c"
    by (auto simp: made_def map_filter_append map_filter_none)
  with assms(2) show ?thesis by simp
next
  case True
  then consider payload' where "e = Call_request payload'" | i where "e = Sender_resumed i"
    by (cases e) auto
  then show ?thesis
  proof cases
    case (1 payload')
    with assms(1) have "request_begin payload' c = Some c'" by simp
    then show ?thesis by (cases rule: request_begin_sends) (use 1 assms(2) in auto)
  next
    case (2 i)
    with assms obtain ec where "i < length (cl_senders c)" "c' = request_resume i ec c"
      by (metis sender_resumedD)
    with made_resume have "mset (made c') = mset (made c)"
      by (simp add: request_resume_def case_prod_unfold Let_def)
    with assms(2) show ?thesis by (metis mset_eq_setD)
  qed
qed

lemma spawned_after:
  assumes "app_exec ec_text e a = Some a'" and "Call_request payload \<in> set (nc_spawned (app_network a'))"
  shows "Call_request payload \<in> set (nc_spawned (app_network a)) \<or> pressed_for payload e"
proof (cases e)
  case (Polled input now millis)
  with assms(1) have poll: "poll input now millis a = Some a'" by (simp split: if_splits)
  show ?thesis
  proof (cases input)
    case (Press b)
    with poll have "a' = press b now millis a" by (simp split: if_splits)
    with assms(2) Polled Press show ?thesis
      by (cases b) (auto simp: press_def button_defs ui_defs Let_def)
  qed (use poll assms(2) in \<open>auto simp: proceed_network on_states_network\<close>)
next
  case No_more_events
  with assms show ?thesis by (auto simp: poll_end_def drainResults_def Let_def split: if_splits)
next
  case (Next_result now)
  with assms show ?thesis
    by (auto simp: proceed_network on_states_network split: app_phase.splits list.splits)
next
  case (Frame_end now)
  with assms show ?thesis by (auto simp: frame_end_network split: if_splits)
next
  case (Work we)
  with assms set_remove_at show ?thesis
    by (cases we) (fastforce simp: worker_step_def complete_call_def nc_publish_def
        split: if_splits option.splits list.splits)+
qed

lemma asked_after:
  assumes exec: "app_exec ec_text e a = Some a'" and "payload \<in> asked a'"
  shows "payload \<in> asked a \<or> pressed_for payload e"
proof (cases "Call_request payload \<in> set (nc_spawned (app_network a'))")
  case True
  with spawned_after [OF exec] show ?thesis by (auto simp: asked_def)
next
  case False
  with assms(2) obtain k where k: "(payload, k) \<in> set (made (client_of a'))"
    by (auto simp: asked_def)
  show ?thesis
  proof (cases "client_move a e")
    case None
    with app_exec_client [OF exec] k show ?thesis by (force simp: asked_def)
  next
    case (Some ce)
    with app_exec_client [OF exec] have "client_exec ce (client_of a) = Some (client_of a')" by simp
    from made_grows [OF this k] consider "(payload, k) \<in> set (made (client_of a))"
      | "ce = Call_request payload" by blast
    then show ?thesis
    proof cases
      case 1
      then show ?thesis by (force simp: asked_def)
    next
      case 2
      with Some exec have "Call_request payload \<in> set (nc_spawned (app_network a))"
        by (cases "(a, e)" rule: client_move.cases) (auto simp: at_def split: if_splits, metis nth_mem)
      then show ?thesis by (simp add: asked_def)
    qed
  qed
qed

lemma asked_pressed:
  "app_execs ec_text fs a = Some a' \<Longrightarrow> payload \<in> asked a' \<Longrightarrow>
     payload \<in> asked a \<or> (\<exists>f \<in> set fs. pressed_for payload f)"
proof (induction fs arbitrary: a)
  case (Cons f fs)
  then obtain a1 where a1: "app_exec ec_text f a = Some a1" "app_execs ec_text fs a1 = Some a'"
    by (auto split: Option.bind_splits)
  from Cons.IH [OF a1(2) Cons.prems(2)] asked_after [OF a1(1)] show ?case by auto
qed simp

lemma Application_asked: "Application now = Inr a \<Longrightarrow> asked a = {}"
  by (auto simp: Application_def network_create_def client_create_def asked_def made_def client_of_def
      List.map_filter_def split: sum.splits)

section \<open>One client program in a run\<close>

definition app_events :: "nat \<Rightarrow> program_event list \<Rightarrow> app_event list" where
  "app_events j es =
     List.map_filter (\<lambda>e. case e of App_does i e' \<Rightarrow> if i = j then Some e' else None | _ \<Rightarrow> None) es"

lemma run_app:
  "program_run dump ec_text w nows es p \<Longrightarrow> j < length (pr_apps p) \<Longrightarrow>
     \<exists>now a. Application now = Inr a \<and> app_execs ec_text (app_events j es) a = Some (pr_apps p ! j)"
proof (induction rule: program_run.induct)
  case (programs_start as)
  then show ?case by (auto simp: list_all2_conv_all_nth app_events_def List.map_filter_def)
next
  case (programs_next es p e p')
  from programs_next(2) show ?case
  proof cases
    case (server_does e' v)
    with programs_next show ?thesis
      by (simp add: app_events_def map_filter_append map_filter_single)
  next
    case (app_does i e' a)
    from programs_next.prems app_does(2) have "j < length (pr_apps p)" by simp
    from programs_next.IH [OF this] obtain now a0 where a0: "Application now = Inr a0"
      "app_execs ec_text (app_events j es) a0 = Some (pr_apps p ! j)"
      by blast
    show ?thesis
    proof (cases "i = j")
      case True
      with app_does a0 show ?thesis
        by (intro exI [of _ now] exI [of _ a0])
          (simp add: app_events_def map_filter_append map_filter_single runs_append)
    next
      case False
      with app_does a0 show ?thesis
        by (auto simp: app_events_def map_filter_append map_filter_single nth_list_update)
    qed
  qed
qed

lemma app_events_in: "f \<in> set (app_events j es) \<Longrightarrow> App_does j f \<in> set es"
  by (auto simp: app_events_def List.map_filter_def split: program_event.splits if_splits)

lemma run_app_invs:
  assumes "program_run dump ec_text w nows es p" and "j < length (pr_apps p)"
  shows "app_inv ec_text (pr_apps p ! j)" and "log_sources (pr_apps p ! j)"
    and "payload \<in> asked (pr_apps p ! j) \<Longrightarrow> \<exists>f. App_does j f \<in> set es \<and> pressed_for payload f"
proof -
  obtain now a where a: "Application now = Inr a"
    "app_execs ec_text (app_events j es) a = Some (pr_apps p ! j)"
    using run_app [OF assms] by blast
  show "app_inv ec_text (pr_apps p ! j)" "log_sources (pr_apps p ! j)"
    using app_log.runs_inv [OF conjI [OF Application_inv Application_log] a(2)] a(1) by blast+
  show "payload \<in> asked (pr_apps p ! j) \<Longrightarrow> \<exists>f. App_does j f \<in> set es \<and> pressed_for payload f"
    using asked_pressed [OF a(2)] Application_asked [OF a(1)] app_events_in by blast
qed

text \<open>A drained response is what a call of the client returned.\<close>

lemma drained_outcome:
  assumes "app_inv ec_text a" and "r \<in> set (nc_drained (app_network a))"
  shows "\<exists>oc \<in> set (cl_outcomes (client_of a)). completion ec_text oc = Some r"
proof -
  have "results_inv ec_text (app_network a)" using app_invD(4) [OF assms(1)] .
  then have "set (nc_drained (app_network a)) \<subseteq>
      set (List.map_filter (completion ec_text) (cl_outcomes (client_of a)))"
    unfolding results_inv_def client_of_def by (metis Un_upper1 set_append)
  with assms(2) have "r \<in> set (List.map_filter (completion ec_text) (cl_outcomes (client_of a)))"
    by blast
  then show ?thesis by (auto simp: List.map_filter_def)
qed

lemma drained_pong:
  assumes inv: "app_inv ec_text a" and "Pong_result pong \<in> set (nc_drained (app_network a))"
  shows "\<exists>request k. Ping_returns request (Some k) (Inr pong) \<in> set (cl_outcomes (client_of a))"
proof -
  obtain oc where oc: "oc \<in> set (cl_outcomes (client_of a))" "completion ec_text oc = Some (Pong_result pong)"
    using drained_outcome [OF assms] by blast
  obtain request k where "oc = Ping_returns request k (Inr pong)"
    using oc(2) by (cases "(ec_text, oc)" rule: completion.cases) auto
  moreover obtain es where "client_run default_client_config es (client_of a)"
    using app_invD(3) [OF inv] by (auto simp: nc_run_def client_of_def)
  ultimately show ?thesis using oc(1) unnamed_fails by (cases k) blast+
qed

lemma drained_snapshot:
  assumes inv: "app_inv ec_text a" and "Snapshot_result t \<in> set (nc_drained (app_network a))"
  shows "\<exists>k. Snapshot_returns (Some k) (Inr t) \<in> set (cl_outcomes (client_of a))"
proof -
  obtain oc where oc: "oc \<in> set (cl_outcomes (client_of a))" "completion ec_text oc = Some (Snapshot_result t)"
    using drained_outcome [OF assms] by blast
  obtain k where "oc = Snapshot_returns k (Inr t)"
    using oc(2) by (cases "(ec_text, oc)" rule: completion.cases) auto
  moreover obtain es where "client_run default_client_config es (client_of a)"
    using app_invD(3) [OF inv] by (auto simp: nc_run_def client_of_def)
  ultimately show ?thesis using oc(1) unnamed_fails by (cases k) blast+
qed

text \<open>The lines of the log that report responses.\<close>

lemma snapshot_line:
  assumes "log_sources a" and "(time, ''State snapshot: '' @ text) \<in> set (el_added (m_eventLog (app_console a)))"
  shows "Snapshot_result \<lparr>state_json = text\<rparr> \<in> set (nc_drained (app_network a))"
proof -
  obtain r where r: "r \<in> set (nc_drained (app_network a))" "''State snapshot: '' @ text = result_line r"
    using assms by (fastforce simp: log_sources_def plain_line_def)
  show ?thesis
  proof (cases r)
    case (Snapshot_result t)
    with r show ?thesis by (cases t) simp
  next
    case (NetworkError op msg)
    with r(2) show ?thesis by (cases op) simp_all
  qed (use r(2) in simp)
qed

lemma pong_line:
  assumes "log_sources a" and "(time, ''Pong: '' @ text) \<in> set (el_added (m_eventLog (app_console a)))"
  shows "\<exists>pong. Pong_result pong \<in> set (nc_drained (app_network a)) \<and>
     text = to_string (unat (pong_timestamp pong))"
proof -
  obtain r where r: "r \<in> set (nc_drained (app_network a))" "''Pong: '' @ text = result_line r"
    using assms by (fastforce simp: log_sources_def plain_line_def)
  show ?thesis
  proof (cases r)
    case (Pong_result pong)
    with r show ?thesis by auto
  next
    case (NetworkError op msg)
    with r(2) show ?thesis by (cases op) simp_all
  qed (use r(2) in simp)
qed


section \<open>What the log shows came from the server\<close>

text \<open>
  \<open>passed\<close>: the run of the programs passed through a state in which the client program \<open>j\<close> had
  made the request \<open>k\<close> for a snapshot and the text was that of the server's world.
\<close>

definition passed ::
  "(json \<Rightarrow> string result) \<Rightarrow> (error_code \<Rightarrow> string) \<Rightarrow> wiring \<Rightarrow> string list \<Rightarrow> program_event list \<Rightarrow>
     program \<Rightarrow> nat \<Rightarrow> u64 \<Rightarrow> StateSnapshotResponse \<Rightarrow> bool" where
  "passed dump ec_text w nows es p j k t \<longleftrightarrow>
     (\<exists>es1 p1 es2. es = es1 @ es2 \<and> program_run dump ec_text w nows es1 p1 \<and>
        program_path dump ec_text w p1 es2 p \<and>
        (StateSnapshot, k) \<in> set (made (client_of (pr_apps p1 ! j))) \<and>
        snapshotJson dump (srv_service (pr_server p1)) = Inr (state_json t))"

lemma passed_next:
  "passed dump ec_text w nows es p j k t \<Longrightarrow> program_step dump ec_text w p e p' \<Longrightarrow>
     passed dump ec_text w nows (es @ [e]) p' j k t"
  unfolding passed_def by (metis append.assoc program_next)

lemma passed_now:
  "program_run dump ec_text w nows es p \<Longrightarrow> (StateSnapshot, k) \<in> set (made (client_of (pr_apps p ! j))) \<Longrightarrow>
     snapshotJson dump (srv_service (pr_server p)) = Inr (state_json t) \<Longrightarrow>
     passed dump ec_text w nows es p j k t"
  unfolding passed_def by (metis append_Nil2 program_here)

lemma system_of_simps [simp]:
  "sys_server (system_of p) = pr_server p" "length (sys_clients (system_of p)) = length (pr_apps p)"
  "j < length (pr_apps p) \<Longrightarrow> sys_clients (system_of p) ! j = client_of (pr_apps p ! j)"
  by (simp_all add: system_of_def)

lemma program_snapshots:
  assumes wire: "inj_on w (dom w)"
  shows "program_run dump ec_text w nows es p \<Longrightarrow>
     snapshots_known w (passed dump ec_text w nows es p) (system_of p)"
proof (induction rule: program_run.induct)
  case (programs_start as)
  show ?case unfolding system_of_def by (simp add: snapshots_start)
next
  case (programs_next es p e p')
  let ?K = "passed dump ec_text w nows (es @ [e]) p'"
  have known: "snapshots_known w ?K (system_of p)"
    by (rule snapshots_mono [OF programs_next.IH]) (rule passed_next [OF _ programs_next(2)])
  show ?case
  proof (cases "system_moves p e")
    case Nil
    with program_step_system [OF programs_next(2)] known show ?thesis by simp
  next
    case (Cons se rest)
    with program_step_system [OF programs_next(2)]
    have step: "system_step dump w (system_of p) se (system_of p')" by simp
    obtain ses where "system_run dump w (replicate (length nows) default_client_config) ses (system_of p)"
      using program_simulation [OF programs_next(1)] by blast
    then show ?thesis
      by (rule snapshots_step [OF wire _ step known])
        (simp add: passed_now [OF program_run.programs_next [OF programs_next(1,2)]])
  qed
qed

lemma returned_made:
  "Ping_returns request (Some k) r \<in> set (cl_outcomes c) \<Longrightarrow> (Ping request, k) \<in> set (made c)"
  by (force simp: made_def List.map_filter_def)

text \<open>A call's response, in terms of the system inside the programs.\<close>

lemma program_responses:
  assumes run: "program_run dump ec_text w nows es p" and wire: "inj_on w (dom w)"
    and len: "length es < 2 ^ 64" and j: "j < length (pr_apps p)"
  shows "Ping_returns request (Some k) (Inr pong) \<in> set (cl_outcomes (client_of (pr_apps p ! j))) \<Longrightarrow>
       pong_timestamp pong = ping_timestamp request"
    and "Snapshot_returns (Some k) (Inr t) \<in> set (cl_outcomes (client_of (pr_apps p ! j))) \<Longrightarrow>
       passed dump ec_text w nows es p j k t"
proof -
  obtain ses where ses: "length ses \<le> length es"
    "system_run dump w (replicate (length nows) default_client_config) ses (system_of p)"
    using program_simulation [OF run] by blast
  have len': "length ses < 2 ^ 64" and j': "j < length (sys_clients (system_of p))"
    using ses(1) len j by simp_all
  show "pong_timestamp pong = ping_timestamp request"
    if "Ping_returns request (Some k) (Inr pong) \<in> set (cl_outcomes (client_of (pr_apps p ! j)))"
  proof (rule ping_echo [OF run_client(1) [OF ses(2) j'] run_client(2) [OF ses(2) j' len']])
    show "\<forall>r \<in> received (sys_clients (system_of p) ! j).
      \<exists>payload. (payload, server_request_id r) \<in> set (made (sys_clients (system_of p) ! j)) \<and>
        answers ((request_message payload)\<lparr>client_request_id := server_request_id r\<rparr>) r"
      using received_answers [OF ses(2) wire j'] by blast
  qed (use that j in simp)
  show "passed dump ec_text w nows es p j k t"
    if "Snapshot_returns (Some k) (Inr t) \<in> set (cl_outcomes (client_of (pr_apps p ! j)))"
    using returned_snapshot [OF ses(2) wire len' j' _ program_snapshots [OF wire run]] that j by simp
qed

section \<open>Running the programs\<close>

fun program_exec ::
  "(json \<Rightarrow> string result) \<Rightarrow> (error_code \<Rightarrow> string) \<Rightarrow> wiring \<Rightarrow> program_event \<Rightarrow> program \<Rightarrow>
     program option" where
  "program_exec dump ec_text w (Server_does e) p =
     (if server_network w (system_of p) e
      then map_option (\<lambda>v. p\<lparr>pr_server := v\<rparr>) (server_exec dump e (pr_server p)) else None)"
| "program_exec dump ec_text w (App_does j e) p =
     (if j < length (pr_apps p) \<and>
        (case client_move (pr_apps p ! j) e of
           None \<Rightarrow> True
         | Some ce \<Rightarrow> client_network w (system_of p) j ce)
      then map_option (\<lambda>a. p\<lparr>pr_apps := (pr_apps p)[j := a]\<rparr>) (app_exec ec_text e (pr_apps p ! j))
      else None)"

lemma program_exec_step: "program_exec dump ec_text w e p = Some p' \<Longrightarrow> program_step dump ec_text w p e p'"
proof (cases e)
  case (Server_does e')
  assume "program_exec dump ec_text w e p = Some p'"
  with Server_does show ?thesis
    by (auto simp del: server_exec.simps server_network.simps split: if_splits
        intro: server_does server_exec_step)
next
  case (App_does j e')
  assume "program_exec dump ec_text w e p = Some p'"
  with App_does show ?thesis
    by (auto simp del: app_exec.simps client_move.simps client_network.simps
        split: if_splits option.splits intro: app_does)
qed

interpretation program_trace:
  traced_machine "program_exec dump ec_text w" "program_run dump ec_text w nows" for dump ec_text w nows
  by unfold_locales (rule program_run.programs_next [OF _ program_exec_step])

text \<open>
  One client program: the user presses \<open>Connect\<close>, then \<open>Ping\<close>, then \<open>Request state snapshot\<close>,
  each answered before the next is pressed.
\<close>

definition worker :: "client_event list \<Rightarrow> program_event list" where
  "worker es = map (\<lambda>e. App_does 0 (Work (Client_step e))) es"

definition sample_program_events :: "program_event list" where
  "sample_program_events =
     map (App_does 0) [Polled (Press Connect_button) ''12:00:01'' 0, Work (Takes 0)] @
     worker [Connect_done Ec_success, Conn_event 0 Run_post, Conn_event 0 (Run_reader 0)] @
     map (App_does 0) [Work Completes, No_more_events, Frame_end ''12:00:02'',
       Polled (Press Ping_button) ''12:00:03'' 42, Work (Takes 0)] @
     worker [Conn_event 0 Run_post, Conn_event 0 (Run_writer 0)] @
     map Server_does [Accepted, Strand 0 Run_post, Strand 0 (Run_reader 0), Strand 0 (Message_read 0
       (Inr ((request_message (Ping \<lparr>ping_timestamp = 42\<rparr>))\<lparr>client_request_id := 1\<rparr>))),
       Strand 0 Run_post, Strand 0 (Run_writer 0)] @
     worker [Conn_event 0 (Message_read 0 (Inr sample_pong)), Received 0 0, Sender_resumed 0,
       Conn_event 0 (Message_written 0 (Inr ()))] @
     map (App_does 0) [Work Completes, No_more_events, Next_result ''12:00:04'', Frame_end ''12:00:04'',
       Polled (Press Snapshot_button) ''12:00:05'' 50, Work (Takes 0)] @
     worker [Conn_event 0 Run_post, Conn_event 0 (Run_writer 0)] @
     map Server_does [Strand 0 (Message_written 0 (Inr ())), Strand 0 (Message_read 0
       (Inr ((request_message StateSnapshot)\<lparr>client_request_id := 2\<rparr>))),
       Strand 0 Run_post, Strand 0 (Run_writer 0)] @
     worker [Conn_event 0 (Message_read 0 (Inr sample_snapshot)), Received 0 0, Sender_resumed 0] @
     map (App_does 0) [Work Completes, No_more_events, Next_result ''12:00:06'', Frame_end ''12:00:06'']"

definition sample_program :: program where
  "sample_program = the (runs (program_exec sample_dump (\<lambda>_. []) sample_wiring) sample_program_events
     \<lparr>pr_server = initial_server, pr_apps = [sample_app]\<rparr>)"

lemma sample_program_log:
  "map_option (\<lambda>p. map (\<lambda>a. el_added (m_eventLog (app_console a))) (pr_apps p))
     (runs (program_exec sample_dump (\<lambda>_. []) sample_wiring) sample_program_events
       \<lparr>pr_server = initial_server, pr_apps = [sample_app]\<rparr>) =
   Some [[(''12:00:00'', ''Ready''), (''12:00:01'', ''Connecting to 127.0.0.1:1234''),
     (''12:00:02'', ''Connected''), (''12:00:03'', ''Sending ping''), (''12:00:04'', ''Pong: 42''),
     (''12:00:05'', ''Sending state snapshot''), (''12:00:06'', ''State snapshot: {}'')]]"
  by code_simp

lemma sample_program_run:
  "program_run sample_dump (\<lambda>_. []) sample_wiring [''12:00:00''] sample_program_events sample_program"
proof -
  have "program_run sample_dump (\<lambda>_. []) sample_wiring [''12:00:00''] []
      \<lparr>pr_server = initial_server, pr_apps = [sample_app]\<rparr>"
    by (intro programs_start) (simp add: sample_app_create)
  then show ?thesis
    using program_trace.runs_reached sample_program_log by (fastforce simp: sample_program_def)
qed

lemma sample_program_lines:
  "length (pr_apps sample_program) = 1"
  "(''12:00:04'', ''Pong: '' @ ''42'') \<in> set (el_added (m_eventLog (app_console (pr_apps sample_program ! 0))))"
  "(''12:00:06'', ''State snapshot: '' @ ''{}'')
     \<in> set (el_added (m_eventLog (app_console (pr_apps sample_program ! 0))))"
  using sample_program_log by (auto simp: sample_program_def map_eq_Cons_conv)

lemma sample_program_length: "length sample_program_events < 2 ^ 64"
  by (simp add: sample_program_events_def worker_def)

section \<open>Properties\<close>

text \<open>
  C2: the programs implement the system of the server and the clients. Every run of the server
  program and the client programs is a run of that system with at most as many steps, in the
  state of which every client is the one inside its program: the user interface, the queue of
  results and the worker do nothing to the clients but make their calls and their steps.
\<close>

theorem program_refines_system:
  assumes "program_run dump ec_text w nows es p"
  shows "\<exists>ses. length ses \<le> length es \<and>
     system_run dump w (replicate (length nows) default_client_config) ses
       \<lparr>sys_server = pr_server p, sys_clients = map (\<lambda>a. m_client (app_network a)) (pr_apps p)\<rparr>"
  using program_simulation [OF assms] by (simp add: system_of_def client_of_def [abs_def])

theorem program_refines_system_witness:
  "\<exists>ses. length ses \<le> length sample_program_events \<and>
     system_run sample_dump sample_wiring [default_client_config] ses
       \<lparr>sys_server = pr_server sample_program,
        sys_clients = map (\<lambda>a. m_client (app_network a)) (pr_apps sample_program)\<rparr>"
  using program_refines_system [OF sample_program_run] by simp

text \<open>
  C3: what the user reads is the server's world. In every run of the programs of fewer than
  \<open>2 ^ 64\<close> steps, if a client program has added a line to its event log that reports a state
  snapshot, then the run passed through a state in which that program's client had requested a
  snapshot and the server's world printed as exactly the text of the line.
\<close>

theorem log_shows_worlds:
  assumes "program_run dump ec_text w nows es p" and "inj_on w (dom w)" and "length es < 2 ^ 64"
    and "j < length (pr_apps p)"
    and "(now, ''State snapshot: '' @ text) \<in> set (el_added (m_eventLog (app_console (pr_apps p ! j))))"
  shows "\<exists>es1 p1 es2 k. es = es1 @ es2 \<and> program_run dump ec_text w nows es1 p1 \<and>
     program_path dump ec_text w p1 es2 p \<and>
     (StateSnapshot, k) \<in> set (made (m_client (app_network (pr_apps p1 ! j)))) \<and>
     snapshotJson dump (srv_service (pr_server p1)) = Inr text"
proof -
  note invs = run_app_invs [OF assms(1,4)]
  obtain k where "Snapshot_returns (Some k) (Inr \<lparr>state_json = text\<rparr>)
      \<in> set (cl_outcomes (client_of (pr_apps p ! j)))"
    using drained_snapshot [OF invs(1) snapshot_line [OF invs(2) assms(5)]] by blast
  from program_responses(2) [OF assms(1-4) this] show ?thesis
    unfolding passed_def client_of_def by auto
qed

theorem log_shows_worlds_witness:
  "(''12:00:06'', ''State snapshot: '' @ ''{}'')
     \<in> set (el_added (m_eventLog (app_console (pr_apps sample_program ! 0)))) \<and>
   (\<exists>es1 p1 es2 k. sample_program_events = es1 @ es2 \<and>
      program_path sample_dump (\<lambda>_. []) sample_wiring p1 es2 sample_program \<and>
      (StateSnapshot, k) \<in> set (made (m_client (app_network (pr_apps p1 ! 0)))) \<and>
      snapshotJson sample_dump (srv_service (pr_server p1)) = Inr ''{}'')"
  using log_shows_worlds [OF sample_program_run sample_wiring_inj sample_program_length _ sample_program_lines(3)]
    sample_program_lines(1,3) by auto

text \<open>
  C4: a pong the user reads answers a press of the button. In every run of the programs of
  fewer than \<open>2 ^ 64\<close> steps, a line of the event log that reports a pong gives the time stamp,
  as the full 64-bit number, at which the user of that very program pressed \<open>Ping\<close>.
\<close>

theorem log_shows_pings:
  assumes "program_run dump ec_text w nows es p" and "inj_on w (dom w)" and "length es < 2 ^ 64"
    and "j < length (pr_apps p)"
    and "(now, ''Pong: '' @ text) \<in> set (el_added (m_eventLog (app_console (pr_apps p ! j))))"
  shows "\<exists>time millis. App_does j (Polled (Press Ping_button) time millis) \<in> set es \<and>
     text = to_string (unat millis)"
proof -
  note invs = run_app_invs [OF assms(1,4)]
  obtain pong request k where
    ping: "Ping_returns request (Some k) (Inr pong) \<in> set (cl_outcomes (client_of (pr_apps p ! j)))"
    and stamp: "text = to_string (unat (pong_timestamp pong))"
    using drained_pong [OF invs(1)] pong_line [OF invs(2) assms(5)] by blast
  have "Ping request \<in> asked (pr_apps p ! j)"
    using returned_made [OF ping] by (force simp: asked_def)
  with invs(3) obtain time where "App_does j (Polled (Press Ping_button) time (ping_timestamp request)) \<in> set es"
    by fastforce
  with program_responses(1) [OF assms(1-4) ping] stamp show ?thesis by auto
qed

theorem log_shows_pings_witness:
  "(''12:00:04'', ''Pong: '' @ ''42'')
     \<in> set (el_added (m_eventLog (app_console (pr_apps sample_program ! 0)))) \<and>
   (\<exists>time millis. App_does 0 (Polled (Press Ping_button) time millis) \<in> set sample_program_events \<and>
      ''42'' = to_string (unat millis))"
  using log_shows_pings [OF sample_program_run sample_wiring_inj sample_program_length _ sample_program_lines(2)]
    sample_program_lines(1,2) by auto

end
