(* ===== verification/Wire.thy ===== *)
theory Wire
  imports System Message_Channel
begin

text \<open>
  The network of \<open>System\<close> over bytes. There a connection reads the messages the other end wrote;
  here it reads the frames \<open>readMessage\<close> makes of the bytes the other end has put on its socket,
  and \<open>writeMessage\<close> puts the bytes of a message there in as many pieces as the socket takes, or
  breaks off in the middle. The theory shows that the one implements the other: every step over
  bytes is a step the network of \<open>System\<close> allows. The serialiser is a parameter.
\<close>

section \<open>The bytes of a message\<close>

text \<open>
  What is documented of protobuf: a message that is serialised is shorter than 2 GiB, and its
  bytes are parsed to that message.
\<close>

definition protobuf_ok :: "('m \<Rightarrow> bytes option) \<Rightarrow> (bytes \<Rightarrow> int \<Rightarrow> 'm option) \<Rightarrow> bool" where
  "protobuf_ok serialize parse \<longleftrightarrow>
     (\<forall>m data. serialize m = Some data \<longrightarrow> length data < 2 ^ 31 \<and> parse data (int (length data)) = Some m)"

text \<open>The frame \<open>writeMessage\<close> writes under a limit, if it gets as far as writing.\<close>

definition frame_of :: "('m \<Rightarrow> bytes option) \<Rightarrow> u32 \<Rightarrow> 'm \<Rightarrow> bytes option" where
  "frame_of serialize limit m =
     (case serialize m of
        None \<Rightarrow> None
      | Some data \<Rightarrow>
          if data \<noteq> [] \<and> length data \<le> unat limit
          then Some (frame (rev_prefix (le_bytes (word_of_nat (length data)))) data) else None)"

lemma frame_of_length: "frame_of serialize limit m = Some f \<Longrightarrow> 4 < length f"
  by (auto simp: frame_of_def frame_def split: option.splits if_splits)

text \<open>The channel of a connection; what its buffer holds does not matter.\<close>

definition channel_of :: "u32 \<Rightarrow> channel" where
  "channel_of limit = \<lparr>m_frameCodec = \<lparr>max_payload_size = limit\<rparr>, m_readBuffer = []\<rparr>"

lemma readMessage_buffer:
  assumes "m_frameCodec ch = m_frameCodec ch'"
  shows "fst (readMessage host parse ch s) = fst (readMessage host parse ch' s)"
    and "snd (snd (readMessage host parse ch s)) = snd (snd (readMessage host parse ch' s))"
  using assms
  by (auto simp: readMessage_def read_frame_def Let_def async_read_def split: sum.split option.split prod.split)

lemma writeMessage_frame:
  assumes "writeMessage host serialize (channel_of limit) m s = (r, s')"
  shows "case frame_of serialize limit m of
      None \<Rightarrow> isl r \<and> sock_out s' = sock_out s
    | Some f \<Rightarrow> sock_out s' = sock_out s @ take (sock_room s) f \<and> (isl r \<longleftrightarrow> sock_room s < length f)"
proof (cases "serialize m")
  case None
  with assms show ?thesis by (auto simp: writeMessage_def frame_of_def)
next
  case (Some data)
  let ?n = "word_of_nat (length data) :: u32" and ?c = "m_frameCodec (channel_of limit)"
  have w: "write_frame (encodeLengthPrefix host ?c) limit data s = (r, s')"
    using assms Some by (simp add: writeMessage_def channel_of_def)
  show ?thesis
  proof (cases "data \<noteq> [] \<and> length data \<le> unat limit")
    case False
    then have "length data > unat limit \<or> (\<exists>x. encodeLengthPrefix host ?c ?n = Inl x)"
      by (auto simp: encodeLengthPrefix_def validatePayloadSize_def)
    with w Some False show ?thesis
      by (auto simp: write_frame_def frame_of_def split: if_splits)
  next
    case True
    then have "valid_payload_size ?c ?n"
      using unat_word_of_length [of data limit] by (simp add: valid_payload_size_def channel_of_def)
    then have p: "encodeLengthPrefix host ?c ?n = Inr (rev_prefix (le_bytes ?n))"
      by (simp add: encodeLengthPrefix_ok del: rev_prefix.simps)
    let ?p = "rev_prefix (le_bytes ?n)"
    obtain r1 s1 where 1: "async_write (prefix_bytes ?p) s = (r1, s1)" by fastforce
    note out1 = async_write_out [OF 1]
    have f: "frame_of serialize limit m = Some (prefix_bytes ?p @ data)"
      using True Some by (simp add: frame_of_def frame_def)
    show ?thesis
    proof (cases r1)
      case (Inl x)
      with w True p 1 have "r = Inl x" "s' = s1" by (auto simp: write_frame_def)
      with Inl out1 f show ?thesis by auto
    next
      case (Inr u)
      with w True p 1 have 2: "async_write data s1 = (r, s')" by (auto simp: write_frame_def)
      from Inr out1 f async_write_out [OF 2] show ?thesis by (cases r) auto
    qed
  qed
qed

text \<open>Of a frame and what follows it, the reader can only read the message of the frame.\<close>

lemma rev_prefix_inj: "rev_prefix p = rev_prefix q \<Longrightarrow> p = q"
  by (metis rev_prefix_rev_prefix)

lemma le_bytes_inj: "le_bytes n = le_bytes k \<Longrightarrow> n = k"
  by (metis le_word_le_bytes)

lemma prefix_bytes_append_inj:
  "prefix_bytes p @ xs = prefix_bytes q @ ys \<longleftrightarrow> p = q \<and> xs = ys"
  by (cases p; cases q) auto

lemma readMessage_frame:
  assumes ok: "protobuf_ok serialize parse" and f: "frame_of serialize limit m = Some f"
    and s: "sock_in s = f @ rest" and r: "readMessage host parse ch s = (Inr m', ch', s')"
  shows "m' = m \<and> sock_in s' = rest"
proof -
  obtain data where data: "serialize m = Some data" "length data \<le> unat limit"
    "f = prefix_bytes (rev_prefix (le_bytes (word_of_nat (length data)))) @ data"
    using f by (auto simp: frame_of_def frame_def split: option.splits if_splits)
  obtain n data' where read: "length data' = unat n" "parse data' (sint n) = Some m'"
    "sock_in s = prefix_bytes (rev_prefix (le_bytes n)) @ data' @ sock_in s'"
    using r unfolding readMessage_def
  proof (rule read_frame_ok)
    fix p n data'
    assume a: "decodeLengthPrefix host (m_frameCodec ch) p = Inr n" "length data' = unat n"
      "sock_in s = frame p data' @ sock_in s'" "parse data' (sint n) = Some m'"
    from a(1) have "p = rev_prefix (le_bytes n)" by (simp add: decodeLengthPrefix_ok del: rev_prefix.simps)
    with a that show thesis by (simp add: frame_def del: rev_prefix.simps)
  qed
  have "rev_prefix (le_bytes n) = rev_prefix (le_bytes (word_of_nat (length data)))"
    and same: "data' @ sock_in s' = data @ rest"
    using s read(3) unfolding data(3) by (simp_all add: prefix_bytes_append_inj)
  then have n: "n = word_of_nat (length data)" using rev_prefix_inj le_bytes_inj by blast
  then have "length data' = length data" using read(1) unat_word_of_length [OF data(2)] by simp
  with same have eq: "data' = data" "sock_in s' = rest" by simp_all
  have small: "length data < 2 ^ 31" "parse data (int (length data)) = Some m"
    using ok data(1) by (auto simp: protobuf_ok_def)
  moreover have "sint n = int (length data)"
    using small(1) n sint_u32 [of n] unat_word_of_length [OF data(2)] by simp
  ultimately show ?thesis using read(2) eq by simp
qed

lemma readMessage_torn:
  assumes f: "frame_of serialize limit m = Some f" and "strict_prefix (sock_in s) f"
  shows "isl (fst (readMessage host parse ch s))"
proof (rule ccontr)
  assume "\<not> isl (fst (readMessage host parse ch s))"
  then obtain m' ch' s' where "readMessage host parse ch s = (Inr m', ch', s')"
    by (metis prod.collapse sum.collapse(2))
  then obtain n data' where read: "length data' = unat n"
    "sock_in s = prefix_bytes (rev_prefix (le_bytes n)) @ data' @ sock_in s'"
    unfolding readMessage_def
  proof (rule read_frame_ok)
    fix p n data'
    assume a: "decodeLengthPrefix host (m_frameCodec ch) p = Inr n" "length data' = unat n"
      "sock_in s = frame p data' @ sock_in s'"
    from a(1) have "p = rev_prefix (le_bytes n)" by (simp add: decodeLengthPrefix_ok del: rev_prefix.simps)
    with a that show thesis by (simp add: frame_def del: rev_prefix.simps)
  qed
  obtain data where data: "length data \<le> unat limit"
    "f = prefix_bytes (rev_prefix (le_bytes (word_of_nat (length data)))) @ data"
    using f by (auto simp: frame_of_def frame_def split: option.splits if_splits)
  obtain zs where zs: "f = sock_in s @ zs" "zs \<noteq> []"
    using assms(2) by (auto simp: strict_prefix_def prefix_def)
  have both: "rev_prefix (le_bytes (word_of_nat (length data))) = rev_prefix (le_bytes n) \<and>
      data = data' @ sock_in s' @ zs"
    using zs(1) unfolding data(2) read(2) append_assoc prefix_bytes_append_inj .
  then have same: "data' @ sock_in s' @ zs = data" by blast
  from both have "n = word_of_nat (length data)" using rev_prefix_inj le_bytes_inj by blast
  then have "length data' = length data" using read(1) unat_word_of_length [OF data(1)] by simp
  with same have "data' = data \<and> sock_in s' @ zs = []" by (metis append_eq_append_conv append_Nil2)
  with zs(2) show False by simp
qed

section \<open>The bytes a connection sends\<close>

text \<open>The bytes of messages that have a frame.\<close>

definition enc :: "('m \<Rightarrow> bytes option) \<Rightarrow> 'm list \<Rightarrow> bytes" where
  "enc fb ms = concat (map (\<lambda>m. case fb m of None \<Rightarrow> [] | Some f \<Rightarrow> f) ms)"

lemma enc_simps [simp]:
  "enc fb [] = []" "enc fb (ms @ ns) = enc fb ms @ enc fb ns"
  "enc fb (m # ms) = (case fb m of None \<Rightarrow> [] | Some f \<Rightarrow> f) @ enc fb ms"
  by (simp_all add: enc_def)

definition frames_by :: "('o \<Rightarrow> bytes option) \<Rightarrow> ('i, 'o) conn \<Rightarrow> 'o \<Rightarrow> bytes option" where
  "frames_by serialize c = frame_of serialize (m_maxMessageBytes c)"

text \<open>
  A call of \<open>writeMessage\<close> for the message a connection is writing, after the bytes \<open>done\<close> of the
  calls before it, if the socket takes \<open>room\<close> bytes more.
\<close>

definition attempt ::
  "endian \<Rightarrow> ('o \<Rightarrow> bytes option) \<Rightarrow> ('i, 'o) conn \<Rightarrow> bytes \<Rightarrow> nat \<Rightarrow> (unit result \<times> bytes) option" where
  "attempt host serialize c before room =
     (case in_flight c of
        [] \<Rightarrow> None
      | m # _ \<Rightarrow>
          (case writeMessage host serialize (channel_of (m_maxMessageBytes c)) m
                  \<lparr>sock_in = [], sock_out = before, sock_room = room\<rparr> of
             (r, s) \<Rightarrow> Some (r, sock_out s)))"

text \<open>A call of \<open>readMessage\<close>, \<open>n\<close> bytes into what has arrived: the message and where it ends.\<close>

definition receive_from ::
  "endian \<Rightarrow> (bytes \<Rightarrow> int \<Rightarrow> 'i option) \<Rightarrow> ('i, 'o) conn \<Rightarrow> bytes \<Rightarrow> nat \<Rightarrow> ('i \<times> nat) option" where
  "receive_from host parse c arrived n =
     (case readMessage host parse (channel_of (m_maxMessageBytes c))
             \<lparr>sock_in = drop n arrived, sock_out = [], sock_room = 0\<rparr> of
        (Inl x, _, s) \<Rightarrow> None
      | (Inr m, _, s) \<Rightarrow> Some (m, length arrived - length (sock_in s)))"

lemma attempt_cases:
  assumes "attempt host serialize c before room = Some (r, outb)"
  obtains (none) m ms where "in_flight c = m # ms" and "frames_by serialize c m = None" and "isl r"
    and "outb = before"
  | (some) m ms f where "in_flight c = m # ms" and "frames_by serialize c m = Some f"
    and "outb = before @ take room f" and "isl r \<longleftrightarrow> room < length f"
proof -
  obtain m ms where m: "in_flight c = m # ms"
    using assms by (auto simp: attempt_def split: list.splits)
  obtain s where "writeMessage host serialize (channel_of (m_maxMessageBytes c)) m
      \<lparr>sock_in = [], sock_out = before, sock_room = room\<rparr> = (r, s)" and s: "outb = sock_out s"
    using assms m by (auto simp: attempt_def split: prod.splits)
  from writeMessage_frame [OF this(1)] that m s show thesis
    by (cases "frames_by serialize c m") (auto simp: frames_by_def)
qed

text \<open>
  What is on the socket: the frames of the messages written and the beginning of the one being
  written, or of the one whose write failed.
\<close>

definition sends_ok :: "('o \<Rightarrow> bytes option) \<Rightarrow> ('i, 'o) conn \<Rightarrow> bytes \<Rightarrow> bytes \<Rightarrow> bool" where
  "sends_ok serialize c before outb \<longleftrightarrow>
     (\<forall>m \<in> set (written c). frames_by serialize c m \<noteq> None) \<and>
     (\<exists>part. outb = enc (frames_by serialize c) (written c) @ part \<and>
        (case in_flight c of
           [] \<Rightarrow> part = [] \<and> before = outb \<or>
             m_closed c \<and> write_loops c = [] \<and> (\<exists>m f. frames_by serialize c m = Some f \<and> strict_prefix part f)
         | m # _ \<Rightarrow> before = enc (frames_by serialize c) (written c) \<and> prefix part (enc (frames_by serialize c) [m])))"

text \<open>Changes of a connection that do not concern what it writes.\<close>

definition same_writer :: "('i, 'o) conn \<Rightarrow> ('i, 'o) conn \<Rightarrow> bool" where
  "same_writer c c' \<longleftrightarrow>
     written c' = written c \<and> write_loops c' = write_loops c \<and>
     m_maxMessageBytes c' = m_maxMessageBytes c \<and> m_maxQueuedMessages c' = m_maxQueuedMessages c \<and>
     (m_closed c \<longrightarrow> m_closed c')"

lemma same_writer_refl [simp]: "same_writer c c"
  by (simp add: same_writer_def)

lemma same_writer_trans: "same_writer c c1 \<Longrightarrow> same_writer c1 c2 \<Longrightarrow> same_writer c c2"
  by (simp add: same_writer_def)

lemma same_writer_stopImpl: "same_writer c (stopImpl reason c)"
  by (simp add: same_writer_def stopImpl_def notifyClosed_def)

lemma same_writer_reader:
  "same_writer c (readLoop_test i c)" "same_writer c (readLoop_message i r c)"
  "same_writer c (readLoop_handler i h c)"
  using same_writer_stopImpl [of c]
  by (auto simp: readLoop_test_def readLoop_message_def readLoop_handler_def same_writer_def split: sum.split)

lemma same_writer_calls:
  "same_writer c (start c)" "same_writer c (stop c)" "same_writer c (send m c)"
  by (simp_all add: same_writer_def start_def stop_def send_def)

lemma same_writer_update:
  "same_writer (xs ! ref) c' \<Longrightarrow> q < length xs \<Longrightarrow> same_writer (xs ! q) (xs[ref := c'] ! q)"
  by (cases "ref = q") simp_all

lemma same_writer_frames: "same_writer c c' \<Longrightarrow> frames_by serialize c' = frames_by serialize c"
  by (simp add: same_writer_def frames_by_def)

lemma sends_ok_same:
  assumes ok: "sends_ok serialize c before outb" and same: "same_writer c c'"
  shows "sends_ok serialize c' before outb"
proof -
  have "in_flight c' = in_flight c" using same by (simp add: same_writer_def in_flight_def)
  then show ?thesis
    using ok same unfolding sends_ok_def same_writer_frames [OF same]
    by (cases "in_flight c") (auto simp: same_writer_def)
qed

lemma sends_ok_open:
  assumes ok: "sends_ok serialize c before outb" and "\<not> m_closed c" and "written c' = written c"
    and "m_maxMessageBytes c' = m_maxMessageBytes c" and "in_flight c' = in_flight c"
  shows "sends_ok serialize c' before outb"
proof -
  have "frames_by serialize c' = frames_by serialize c" using assms(4) by (simp add: frames_by_def fun_eq_iff)
  with assms show ?thesis unfolding sends_ok_def by (cases "in_flight c") auto
qed

lemma sends_ok_new:
  "written c = [] \<Longrightarrow> in_flight c = [] \<Longrightarrow> sends_ok serialize c [] []"
  by (simp add: sends_ok_def)

text \<open>A step that ends no write leaves the bytes as they are.\<close>

lemma sends_ok_run_post:
  assumes "sends_ok serialize c before outb" and "posts c = p # ps"
  shows "sends_ok serialize (run_post p (c\<lparr>posts := ps\<rparr>)) before outb"
proof (cases "same_writer c (run_post p (c\<lparr>posts := ps\<rparr>))")
  case True
  with assms(1) show ?thesis by (rule sends_ok_same)
next
  case False
  have stop: "same_writer c (stopImpl reason (c\<lparr>posts := ps\<rparr>))" for reason
    using same_writer_trans [OF _ same_writer_stopImpl, of c "c\<lparr>posts := ps\<rparr>"]
    by (simp add: same_writer_def)
  have "same_writer c (startImpl (c\<lparr>posts := ps\<rparr>))"
    by (simp add: same_writer_def startImpl_def)
  with False stop obtain m where p: "p = Post_send m" by (cases p) auto
  with False stop have c': "\<not> m_closed c" "run_post p (c\<lparr>posts := ps\<rparr>) =
      c\<lparr>posts := ps, m_writeQueue := m_writeQueue c @ [m], m_writing := True,
        write_loops := write_loops c @ [Write_spawned]\<rparr>"
    by (auto simp: sendImpl_def same_writer_def Let_def split: if_splits)
  show ?thesis unfolding c'(2)
    by (rule sends_ok_open [OF assms(1) c'(1)]) (simp_all add: in_flight_def)
qed

lemma sends_ok_writer:
  assumes "sends_ok serialize c before outb" and loops: "write_loops c = [l]" and "in_flight c = []"
  shows "sends_ok serialize (writeLoop_test 0 c) before outb"
proof -
  have "outb = enc (frames_by serialize c) (written c)" "before = outb"
    using assms by (auto simp: sends_ok_def)
  with assms(1) loops show ?thesis
    by (auto simp: sends_ok_def writeLoop_test_def frames_by_def in_flight_def remove_at_def)
qed

lemma sends_ok_step:
  assumes inv: "conn_inv c" and step: "conn_step c e c'" and "\<And>i r. e \<noteq> Message_written i r"
    and ok: "sends_ok serialize c before outb"
  shows "sends_ok serialize c' before outb"
  using step
proof cases
  case (run_post p ps)
  with sends_ok_run_post [OF ok] show ?thesis by simp
next
  case (run_writer i)
  with inv have "write_loops c = [Write_spawned]" "i = 0"
    using single_loop [of "write_loops c" i] by (auto simp: conn_inv_def loops_inv_def)
  with run_writer sends_ok_writer [OF ok] show ?thesis by (simp add: in_flight_def)
next
  case (message_written i m w)
  with assms(3) show ?thesis by blast
qed (auto intro: sends_ok_same [OF ok] same_writer_calls same_writer_reader)

text \<open>Bytes that go out, and the end of a write.\<close>

lemma sends_ok_flows:
  assumes ok: "sends_ok serialize c before outb" and "attempt host serialize c before room = Some (r, outb')"
  shows "sends_ok serialize c before outb'"
  using assms(2)
proof (cases rule: attempt_cases)
  case (none m ms)
  with ok show ?thesis by (auto simp: sends_ok_def)
next
  case (some m ms f)
  with ok show ?thesis by (auto simp: sends_ok_def take_is_prefix)
qed

lemma sends_ok_written:
  assumes inv: "conn_inv c" and step: "conn_step c (Message_written i r) c'"
    and ok: "sends_ok serialize c before outb"
    and att: "attempt host serialize c before room = Some (r', outb')" and "isl r' = isl r"
  shows "sends_ok serialize c' outb' outb'"
proof -
  obtain m where i: "i < length (write_loops c)" "write_loops c ! i = Write_awaits m"
    and c': "c' = writeLoop_written i m r c"
    using step by cases blast
  have loops: "write_loops c = [Write_awaits m]" and "i = 0"
    using i inv single_loop [of "write_loops c" i] by (auto simp: conn_inv_def loops_inv_def)
  then have flight: "in_flight c = [m]" by (simp add: in_flight_def)
  let ?fb = "frames_by serialize c"
  have ok': "\<forall>m \<in> set (written c). ?fb m \<noteq> None" "before = enc ?fb (written c)"
    using ok flight by (auto simp: sends_ok_def)
  show ?thesis
  proof (cases r)
    case (Inl x)
    let ?c = "(stopImpl ''write failed'' (c\<lparr>m_writing := False\<rparr>))\<lparr>write_loops := []\<rparr>"
    have c'_eq: "c' = ?c" using c' Inl loops \<open>i = 0\<close> by (simp add: writeLoop_written_def remove_at_def)
    have fb: "frames_by serialize ?c = ?fb" "written ?c = written c" "m_closed ?c" "in_flight ?c = []"
      by (simp_all add: frames_by_def stopImpl_def notifyClosed_def in_flight_def)
    from att show ?thesis
    proof (cases rule: attempt_cases)
      case none
      with ok' fb show ?thesis by (simp add: c'_eq sends_ok_def)
    next
      case (some m' ms f)
      then have "strict_prefix (take room f) f" using Inl assms(5) by (simp add: take_is_prefix strict_prefix_def)
      with some ok' fb show ?thesis unfolding c'_eq sends_ok_def by fastforce
    qed
  next
    case (Inr u)
    from att Inr assms(5) flight obtain f where f: "?fb m = Some f" "outb' = before @ f"
      by (cases rule: attempt_cases) auto
    let ?c = "c\<lparr>written := written c @ [m]\<rparr>"
    have "c' = writeLoop_test 0 ?c" using c' Inr \<open>i = 0\<close> by (simp add: writeLoop_written_def)
    moreover have "frames_by serialize ?c = ?fb" by (simp add: frames_by_def fun_eq_iff)
    ultimately show ?thesis
      using ok' f loops by (auto simp: sends_ok_def writeLoop_test_def frames_by_def in_flight_def remove_at_def)
  qed
qed

section \<open>The bytes a connection receives\<close>

text \<open>The first \<open>n\<close> bytes are the frames of the messages that were read.\<close>

definition reads_ok :: "('m \<Rightarrow> bytes option) \<Rightarrow> 'm list \<Rightarrow> bytes \<Rightarrow> nat \<Rightarrow> bool" where
  "reads_ok fb ms arrived n \<longleftrightarrow>
     n = length (enc fb ms) \<and> n \<le> length arrived \<and> (\<forall>m \<in> set ms. fb m \<noteq> None)"

lemma reads_ok_more: "reads_ok fb ms arrived n \<Longrightarrow> prefix arrived arrived' \<Longrightarrow> reads_ok fb ms arrived' n"
  using prefix_length_le by (auto simp: reads_ok_def intro: order_trans)

lemma receive_fromD:
  assumes "receive_from host parse c arrived n = Some (m, n')"
  obtains ch s' where "readMessage host parse (channel_of (m_maxMessageBytes c))
      \<lparr>sock_in = drop n arrived, sock_out = [], sock_room = 0\<rparr> = (Inr m, ch, s')"
    and "n' = length arrived - length (sock_in s')"
  using assms by (auto simp: receive_from_def split: prod.splits sum.splits)

lemma receive_frame:
  assumes "protobuf_ok serialize parse" and "receive_from host parse d arrived n = Some (m', n')"
    and "frames_by serialize c m = Some f" and "drop n arrived = f @ rest" and "n \<le> length arrived"
  shows "m' = m \<and> n' = n + length f"
proof -
  obtain ch s' where r: "readMessage host parse (channel_of (m_maxMessageBytes d))
      \<lparr>sock_in = drop n arrived, sock_out = [], sock_room = 0\<rparr> = (Inr m', ch, s')"
    and n': "n' = length arrived - length (sock_in s')"
    by (rule receive_fromD [OF assms(2)])
  have "m' = m \<and> sock_in s' = rest"
    by (rule readMessage_frame [OF assms(1) assms(3) [unfolded frames_by_def] _ r]) (simp add: assms(4))
  moreover have "length arrived = n + length f + length rest"
    using assms(4,5) by (metis add.assoc append_take_drop_id length_append length_take min_absorb2)
  ultimately show ?thesis using n' by simp
qed

lemma receive_nothing:
  assumes "drop n arrived = []"
  shows "receive_from host parse d arrived n = None"
proof (cases "receive_from host parse d arrived n")
  case (Some p)
  then obtain m n' where "receive_from host parse d arrived n = Some (m, n')" by (cases p) auto
  then obtain ch s' where "readMessage host parse (channel_of (m_maxMessageBytes d))
      \<lparr>sock_in = drop n arrived, sock_out = [], sock_room = 0\<rparr> = (Inr m, ch, s')"
    by (rule receive_fromD)
  with readMessage_nothing [of "\<lparr>sock_in = drop n arrived, sock_out = [], sock_room = 0\<rparr>" host parse] assms
  show ?thesis by (metis fst_conv socket.select_convs(1) sum.distinct(1))
qed

lemma receive_torn:
  assumes "frames_by serialize c m = Some f" and "strict_prefix (drop n arrived) f"
  shows "receive_from host parse d arrived n = None"
proof (cases "receive_from host parse d arrived n")
  case (Some p)
  then obtain m' n' where "receive_from host parse d arrived n = Some (m', n')" by (cases p) auto
  then obtain ch s' where "readMessage host parse (channel_of (m_maxMessageBytes d))
      \<lparr>sock_in = drop n arrived, sock_out = [], sock_room = 0\<rparr> = (Inr m', ch, s')"
    by (rule receive_fromD)
  with readMessage_torn [OF assms(1) [unfolded frames_by_def],
      of "\<lparr>sock_in = drop n arrived, sock_out = [], sock_room = 0\<rparr>" host parse] assms(2)
  show ?thesis by (metis fst_conv isl_def socket.select_convs(1) sum.distinct(1))
qed

text \<open>
  A message that is read is the next one of the stream of the other end; and one whose write
  fails has not been read.
\<close>

lemma in_flight_short:
  "length (write_loops c) \<le> 1 \<Longrightarrow> length (in_flight c) \<le> 1"
proof -
  assume "length (write_loops c) \<le> 1"
  then have "write_loops c = [] \<or> (\<exists>l. write_loops c = [l])" by (cases "write_loops c") auto
  then show ?thesis
  proof
    assume "\<exists>l. write_loops c = [l]"
    then obtain l where "write_loops c = [l]" by blast
    then show ?thesis by (cases l) (simp_all add: in_flight_def)
  qed (simp add: in_flight_def)
qed

lemma stream_prefix_cases:
  assumes "prefix ms (stream c)" and "length (write_loops c) \<le> 1"
  obtains (written) ns where "written c = ms @ ns"
  | (all) m where "in_flight c = [m]" and "ms = written c @ [m]"
proof (cases "prefix ms (written c)")
  case True
  then obtain ns where "written c = ms @ ns" by (auto simp: prefix_def)
  then show thesis by (rule written)
next
  case False
  then obtain zs where zs: "ms = written c @ zs" "prefix zs (in_flight c)"
    using assms(1) unfolding stream_def prefix_append by blast
  with False have "zs \<noteq> []" by auto
  with zs(2) in_flight_short [OF assms(2)] obtain m where "in_flight c = [m]" "zs = [m]"
    by (cases "in_flight c") (auto simp: prefix_Cons)
  with zs(1) show thesis by (auto intro: all)
qed

lemma unread_bytes:
  assumes ok: "sends_ok serialize c before outb" and reads: "reads_ok (frames_by serialize c) ms outb n"
    and got: "prefix ms (stream c)" and loops: "length (write_loops c) \<le> 1"
  obtains (empty) "drop n outb = []"
  | (torn) m f where "frames_by serialize c m = Some f" and "strict_prefix (drop n outb) f"
  | (whole) m f rest where "frames_by serialize c m = Some f" and "drop n outb = f @ rest"
    and "prefix (ms @ [m]) (stream c)"
proof -
  let ?fb = "frames_by serialize c"
  have n: "n = length (enc ?fb ms)" "n \<le> length outb" "\<forall>m \<in> set ms. ?fb m \<noteq> None"
    using reads by (simp_all add: reads_ok_def)
  obtain part where part: "outb = enc ?fb (written c) @ part"
    "in_flight c = [] \<Longrightarrow> part = [] \<or> (\<exists>m f. ?fb m = Some f \<and> strict_prefix part f)"
    "\<And>m ns. in_flight c = m # ns \<Longrightarrow> prefix part (enc ?fb [m])"
    using ok unfolding sends_ok_def by (cases "in_flight c") auto
  from got loops show thesis
  proof (cases rule: stream_prefix_cases)
    case (all m)
    with n(1,2) part(1) prefix_length_le [OF part(3) [OF all(1)]] have "drop n outb = []" by simp
    then show thesis by (rule empty)
  next
    case (written ns)
    have avail: "drop n outb = enc ?fb ns @ part" using n(1) part(1) written by simp
    show thesis
    proof (cases "ns @ in_flight c")
      case Nil
      then have "drop n outb = part" "part = [] \<or> (\<exists>m f. ?fb m = Some f \<and> strict_prefix part f)"
        using avail part(2) by simp_all
      then show thesis using empty torn by metis
    next
      case (Cons m ms')
      have next_one: "prefix (ms @ [m]) (stream c)" using Cons written by (simp add: stream_def)
      show thesis
      proof (cases ns)
        case (Cons m1 ns')
        with \<open>ns @ in_flight c = m # ms'\<close> ok written obtain f where "?fb m = Some f"
          by (auto simp: sends_ok_def)
        with Cons \<open>ns @ in_flight c = m # ms'\<close> avail next_one whole show thesis by simp
      next
        case Nil
        with Cons part(3) [of m ms'] avail
        have "prefix (drop n outb) (case ?fb m of None \<Rightarrow> [] | Some f \<Rightarrow> f)" by simp
        then show thesis
          using empty torn [of m] whole [of m _ "[]"] next_one
          by (cases "?fb m") (auto simp: strict_prefix_def)
      qed
    qed
  qed
qed

lemma reads_next:
  assumes proto: "protobuf_ok serialize parse" and ok: "sends_ok serialize c before outb"
    and reads: "reads_ok (frames_by serialize c) ms outb n"
    and got: "prefix ms (stream c)" and loops: "length (write_loops c) \<le> 1"
    and r: "receive_from host parse d outb n = Some (m, n')"
  shows "prefix (ms @ [m]) (stream c) \<and> reads_ok (frames_by serialize c) (ms @ [m]) outb n'"
  using ok reads got loops
proof (cases rule: unread_bytes)
  case empty
  with receive_nothing r show ?thesis by (metis option.distinct(1))
next
  case (torn m1 f)
  with receive_torn r show ?thesis by (metis option.distinct(1))
next
  case (whole m1 f rest)
  have n: "n = length (enc (frames_by serialize c) ms)" "n \<le> length outb"
    using reads by (simp_all add: reads_ok_def)
  have "length outb = n + length f + length rest"
    using whole(2) n(2) by (metis add.assoc append_take_drop_id length_append length_take min_absorb2)
  with receive_frame [OF proto r whole(1,2) n(2)] whole reads show ?thesis by (simp add: reads_ok_def)
qed

lemma fails_unread:
  assumes ok: "sends_ok serialize c before outb" and reads: "reads_ok (frames_by serialize c) ms outb n"
    and got: "prefix ms (stream c)" and loops: "length (write_loops c) \<le> 1"
    and att: "attempt host serialize c before room = Some (r, out')" and "isl r" and "prefix outb out'"
  shows "length ms \<le> length (written c)"
  using got loops
proof (cases rule: stream_prefix_cases)
  case (all m)
  let ?fb = "frames_by serialize c"
  obtain f where f: "?fb m = Some f" using reads all(2) by (auto simp: reads_ok_def)
  have "length (enc ?fb (written c)) + length f \<le> length outb"
    using reads all(2) f by (simp add: reads_ok_def)
  moreover have "length outb \<le> length out'" using assms(7) by (rule prefix_length_le)
  moreover have "length out' < length (enc ?fb (written c)) + length f"
    using att
  proof (cases rule: attempt_cases)
    case none
    with all f show ?thesis by simp
  next
    case some
    moreover have "before = enc ?fb (written c)" using ok all(1) by (auto simp: sends_ok_def)
    ultimately show ?thesis using all f \<open>isl r\<close> by simp
  qed
  ultimately show ?thesis by simp
qed simp

section \<open>What a step does to the writer of a connection\<close>

lemma conn_step_limit:
  "conn_step c e c' \<Longrightarrow> m_maxMessageBytes c' = m_maxMessageBytes c"
  "conn_step c e c' \<Longrightarrow> m_maxQueuedMessages c' = m_maxQueuedMessages c"
  using conn_step_frame by (auto simp: same_members_def)

lemma deliver_writer:
  assumes "server_inv s" and ref: "ref < length (srv_heap s)"
  shows "same_writer (srv_heap s ! ref) (srv_heap (deliver dump ref i message s) ! ref)"
proof -
  have cid: "m_id (srv_heap s ! ref) = id_at ref" using assms by (simp add: server_invD heap_invD)
  obtain r s1 where hm: "handleMessage dump (id_at ref) message s = (r, s1)" by fastforce
  obtain ps where s1: "length (srv_heap s1) = length (srv_heap s)"
    "srv_heap s1 ! ref = (srv_heap s ! ref)\<lparr>posts := ps\<rparr>"
    using handleMessage_conn [OF assms hm] by blast
  have "same_writer (srv_heap s ! ref) (srv_heap s1 ! ref)" by (simp add: s1(2) same_writer_def)
  then have "same_writer (srv_heap s ! ref) (readLoop_handler i r (srv_heap s1 ! ref))"
    using same_writer_reader(3) by (rule same_writer_trans)
  then show ?thesis using ref s1(1) by (simp add: deliver_def cid hm)
qed

lemma run_strand_writer:
  assumes inv: "server_inv s" and ref: "ref < length (srv_heap s)" and step: "conn_step (srv_heap s ! ref) e c'"
  shows "same_writer c' (srv_heap (run_strand dump ref e c' s) ! ref)"
proof (cases "\<exists>i message. e = Message_read i (Inr message) \<and> \<not> m_closed (srv_heap s ! ref)")
  case False
  then have "run_strand dump ref e c' s = settle ref c' s"
    by (cases "(dump, ref, e, c', s)" rule: run_strand.cases) auto
  with ref show ?thesis by simp
next
  case True
  then obtain i message where "run_strand dump ref e c' s = deliver dump ref i message (settle ref c' s)"
    by auto
  moreover have "server_inv (settle ref c' s)"
    using inv ref later_step [OF step] by (simp add: settle_inv server_invD heap_invD)
  ultimately show ?thesis
    using deliver_writer [of "settle ref c' s" ref dump i message] ref by simp
qed

lemma server_step_writer:
  assumes inv: "server_inv s" and step: "server_step dump s e s'" and ref: "ref < length (srv_heap s)"
  shows "(\<nexists>e'. e = Strand ref e') \<Longrightarrow> same_writer (srv_heap s ! ref) (srv_heap s' ! ref)"
    and "e = Strand ref e' \<Longrightarrow>
      \<exists>c1. conn_step (srv_heap s ! ref) e' c1 \<and> same_writer c1 (srv_heap s' ! ref)"
proof -
  have "(if \<exists>e'. e = Strand ref e'
     then \<forall>e'. e = Strand ref e' \<longrightarrow> (\<exists>c1. conn_step (srv_heap s ! ref) e' c1 \<and> same_writer c1 (srv_heap s' ! ref))
     else same_writer (srv_heap s ! ref) (srv_heap s' ! ref))"
    using step
  proof cases
    case accepted
    from inv accepted(3) show ?thesis
    proof (cases rule: accept_socket_cases)
      case (new c m)
      with accepted ref show ?thesis by (simp add: nth_append)
    qed (use accepted in simp)
  next
    case (accept_failed ec)
    then show ?thesis by (simp add: accept_error_def)
  next
    case (stopping order)
    have "same_writer (h ! ref) (for_each stop refs h ! ref)" if "ref < length h" for h refs
      using that
    proof (induction refs arbitrary: h)
      case (Cons r refs)
      have "same_writer (h ! ref) (h[r := stop (h ! r)] ! ref)"
        using Cons.prems by (cases "r = ref") (simp_all add: same_writer_calls)
      with Cons.IH [of "h[r := stop (h ! r)]"] Cons.prems show ?case
        using same_writer_trans by (simp add: for_each_def) blast
    qed (simp add: for_each_def)
    with stopping ref show ?thesis by (auto simp: stop_server_def manager_stopAll_def Let_def)
  next
    case (strand r e' c')
    show ?thesis
    proof (cases "r = ref")
      case True
      with strand run_strand_writer [OF inv ref, of e' c' dump] show ?thesis by auto
    next
      case False
      with strand run_strand_carries(2) [OF inv strand(3,5,4) strand(2), of ref] show ?thesis by auto
    qed
  qed
  then show "(\<nexists>e'. e = Strand ref e') \<Longrightarrow> same_writer (srv_heap s ! ref) (srv_heap s' ! ref)"
    and "e = Strand ref e' \<Longrightarrow>
      \<exists>c1. conn_step (srv_heap s ! ref) e' c1 \<and> same_writer c1 (srv_heap s' ! ref)"
    by (simp_all split: if_splits)
qed

lemma client_exec_writer:
  assumes exec: "client_exec e c = Some c'" and q: "q < length (cl_conns c)"
  shows "(\<nexists>e'. e = Conn_event q e') \<Longrightarrow> same_writer (cl_conns c ! q) (cl_conns c' ! q)"
    and "e = Conn_event q e' \<Longrightarrow> conn_step (cl_conns c ! q) e' (cl_conns c' ! q)"
proof -
  show "conn_step (cl_conns c ! q) e' (cl_conns c' ! q)" if "e = Conn_event q e'"
    using that exec q by (auto simp: conn_step_iff_exec split: if_splits)
  show "same_writer (cl_conns c ! q) (cl_conns c' ! q)" if other: "\<nexists>e'. e = Conn_event q e'"
  proof (cases e)
    case (Connect_done ec)
    obtain ys where "fst (snd (rq_start True (cl_conns c) (m_manager c))) = cl_conns c @ ys"
      using rq_start_conns by blast
    with connect_resume_conns [of ec c] Connect_done exec q show ?thesis
      by (auto simp: nth_append split: if_splits)
  next
    case Call_disconnect
    then consider "cl_conns c' = cl_conns c"
      | ref where "cl_conns c' = (cl_conns c)[ref := stop (cl_conns c ! ref)]"
      using exec by (auto simp: disconnect_begin_def rq_stop_def case_prod_unfold Let_def
          split: ConnectionState.splits option.splits)
    then show ?thesis using q by cases (simp_all add: same_writer_update same_writer_calls)
  next
    case (Call_request payload)
    with exec have "request_begin payload c = Some c'" by simp
    then show ?thesis
      by (cases rule: request_begin_sends) (use q in \<open>simp_all add: same_writer_update same_writer_calls\<close>)
  next
    case (Sender_resumed i)
    then obtain ec where "c' = request_resume i ec c"
      using exec by (metis sender_resumedD)
    then show ?thesis by (simp add: request_resume_def case_prod_unfold Let_def)
  next
    case (Received ref i)
    with exec have "cl_conns c' = (cl_conns c)[ref := readLoop_handler i (Inr ()) (cl_conns c ! ref)]"
      by (auto simp: client_receive_def split: if_splits read_loop.splits)
    with q show ?thesis by (simp add: same_writer_update same_writer_reader)
  next
    case (Conn_event r e')
    with exec other q show ?thesis by (auto split: if_splits)
  qed (use exec in \<open>auto simp: connect_begin_def disconnect_resume_def client_connectionClosed_def
      cm_connectionClosed_def Let_def split: if_splits waiter.splits option.splits prod.splits\<close>)
qed

section \<open>The bytes of the whole system\<close>

text \<open>
  What the two programs are built with: the serialisers and parsers of the messages, and the byte
  orders of the hosts.
\<close>

record build =
  serialize_client :: "ClientMessage \<Rightarrow> bytes option"
  parse_client :: "bytes \<Rightarrow> int \<Rightarrow> ClientMessage option"
  serialize_server :: "ServerMessage \<Rightarrow> bytes option"
  parse_server :: "bytes \<Rightarrow> int \<Rightarrow> ServerMessage option"
  server_host :: endian
  client_host :: endian

definition build_ok :: "build \<Rightarrow> bool" where
  "build_ok k \<longleftrightarrow>
     protobuf_ok (serialize_client k) (parse_client k) \<and> protobuf_ok (serialize_server k) (parse_server k)"

text \<open>
  For each end of a connection: the bytes of the writes that have ended, all the bytes that have
  gone out, and how many of the bytes of the other end it has taken for the messages delivered.
\<close>

datatype peer = Server_side conn_ref | Client_side "nat \<times> nat"

record wires =
  ended :: "peer \<Rightarrow> bytes"
  gone :: "peer \<Rightarrow> bytes"
  taken :: "peer \<Rightarrow> nat"

definition no_bytes :: wires where
  "no_bytes = \<lparr>ended = (\<lambda>_. []), gone = (\<lambda>_. []), taken = (\<lambda>_. 0)\<rparr>"

text \<open>More bytes go out, a write ends, or a message is read; a closed connection delivers nothing.\<close>

definition flows ::
  "endian \<Rightarrow> ('o \<Rightarrow> bytes option) \<Rightarrow> ('i, 'o) conn option \<Rightarrow> peer \<Rightarrow> nat \<Rightarrow> wires \<Rightarrow> wires option" where
  "flows host serialize y side room x =
     (case Option.bind y (\<lambda>c. attempt host serialize c (ended x side) room) of
        None \<Rightarrow> None
      | Some (_, bs) \<Rightarrow> if prefix (gone x side) bs then Some (x\<lparr>gone := (gone x)(side := bs)\<rparr>) else None)"

definition finishes ::
  "endian \<Rightarrow> ('o \<Rightarrow> bytes option) \<Rightarrow> ('i, 'o) conn option \<Rightarrow> peer \<Rightarrow> unit result \<Rightarrow> nat \<Rightarrow> wires \<Rightarrow>
     wires option" where
  "finishes host serialize y side r room x =
     (case Option.bind y (\<lambda>c. attempt host serialize c (ended x side) room) of
        None \<Rightarrow> None
      | Some (r', bs) \<Rightarrow>
          if isl r' = isl r \<and> prefix (gone x side) bs
          then Some (x\<lparr>ended := (ended x)(side := bs), gone := (gone x)(side := bs)\<rparr>) else None)"

definition takes ::
  "endian \<Rightarrow> (bytes \<Rightarrow> int \<Rightarrow> 'i option) \<Rightarrow> ('i, 'o) conn option \<Rightarrow> peer \<Rightarrow> peer \<Rightarrow> 'i \<Rightarrow> wires \<Rightarrow>
     wires option" where
  "takes host parse y side from_side m x =
     (case y of
        None \<Rightarrow> None
      | Some c \<Rightarrow>
          (case receive_from host parse c (gone x from_side) (taken x side) of
             None \<Rightarrow> None
           | Some (m', n) \<Rightarrow>
               if m' \<noteq> m then None
               else if m_closed c then Some x else Some (x\<lparr>taken := (taken x)(side := n)\<rparr>)))"

fun server_io :: "build \<Rightarrow> wiring \<Rightarrow> system \<Rightarrow> server_event \<Rightarrow> nat \<Rightarrow> wires \<Rightarrow> wires option" where
  "server_io k w s (Strand ref (Message_read i (Inr m))) room x =
     (case w ref of
        None \<Rightarrow> Some x
      | Some p \<Rightarrow>
          takes (server_host k) (parse_client k) (server_end s ref) (Server_side ref) (Client_side p) m x)"
| "server_io k w s (Strand ref (Message_written i r)) room x =
     finishes (server_host k) (serialize_server k) (server_end s ref) (Server_side ref) r room x"
| "server_io k w s e room x = Some x"

fun client_io :: "build \<Rightarrow> wiring \<Rightarrow> system \<Rightarrow> nat \<Rightarrow> client_event \<Rightarrow> nat \<Rightarrow> wires \<Rightarrow> wires option" where
  "client_io k w s j (Conn_event q (Message_read i (Inr m))) room x =
     (case wired_to w s (j, q) of
        [] \<Rightarrow> None
      | ref # _ \<Rightarrow>
          takes (client_host k) (parse_server k) (client_end s (j, q)) (Client_side (j, q)) (Server_side ref) m x)"
| "client_io k w s j (Conn_event q (Message_written i r)) room x =
     finishes (client_host k) (serialize_client k) (client_end s (j, q)) (Client_side (j, q)) r room x"
| "client_io k w s j e room x = Some x"

section \<open>The bytes agree with the messages\<close>

definition end_sends :: "('o \<Rightarrow> bytes option) \<Rightarrow> ('i, 'o) conn option \<Rightarrow> bytes \<Rightarrow> bytes \<Rightarrow> bool" where
  "end_sends serialize y before outb \<longleftrightarrow>
     (case y of None \<Rightarrow> before = [] \<and> outb = [] | Some c \<Rightarrow> sends_ok serialize c before outb)"

definition end_reads :: "('o \<Rightarrow> bytes option) \<Rightarrow> ('i, 'o) conn option \<Rightarrow> 'o list \<Rightarrow> bytes \<Rightarrow> nat \<Rightarrow> bool" where
  "end_reads serialize y ms outb n \<longleftrightarrow>
     (case y of None \<Rightarrow> ms = [] \<and> n = 0 | Some c \<Rightarrow> reads_ok (frames_by serialize c) ms outb n)"

text \<open>
  \<open>writes_on\<close>: of two states of an end and its bytes, the second follows the first by a step that
  leaves the writer alone, by a step of the connection, or by bytes that go out.
\<close>

definition writes_on ::
  "('o \<Rightarrow> bytes option) \<Rightarrow> ('i, 'o) conn option \<Rightarrow> ('i, 'o) conn option \<Rightarrow> bytes \<Rightarrow> bytes \<Rightarrow> bytes \<Rightarrow> bytes \<Rightarrow>
     bool" where
  "writes_on serialize y y' before outb before' outb' \<longleftrightarrow>
     (case (y, y') of
        (None, None) \<Rightarrow> before' = before \<and> outb' = outb
      | (None, Some c') \<Rightarrow> written c' = [] \<and> in_flight c' = [] \<and> before' = before \<and> outb' = outb
      | (Some c, None) \<Rightarrow> False
      | (Some c, Some c') \<Rightarrow>
          m_maxMessageBytes c' = m_maxMessageBytes c \<and> prefix outb outb' \<and>
          (sends_ok serialize c before outb \<longrightarrow> sends_ok serialize c' before' outb'))"

lemma writes_on_sends:
  "end_sends serialize y before outb \<Longrightarrow> writes_on serialize y y' before outb before' outb' \<Longrightarrow>
     end_sends serialize y' before' outb'"
  by (auto simp: end_sends_def writes_on_def sends_ok_new split: option.splits)

lemma writes_on_reads:
  assumes "end_reads serialize y ms outb n" and "writes_on serialize y y' before outb before' outb'"
  shows "end_reads serialize y' ms outb' n"
proof (cases y)
  case None
  with assms show ?thesis by (auto simp: end_reads_def writes_on_def reads_ok_def split: option.splits)
next
  case (Some c)
  with assms(2) obtain c' where c': "y' = Some c'" "m_maxMessageBytes c' = m_maxMessageBytes c" "prefix outb outb'"
    by (auto simp: writes_on_def split: option.splits)
  then have "frames_by serialize c' = frames_by serialize c" by (simp add: frames_by_def fun_eq_iff)
  with assms(1) Some c' reads_ok_more show ?thesis by (auto simp: end_reads_def)
qed

lemma writes_on_refl: "writes_on serialize y y before outb before outb"
  by (simp add: writes_on_def split: option.split)

lemma writes_on_same:
  assumes "same_writer c c'"
  shows "writes_on serialize (Some c) (Some c') before outb before outb"
proof -
  have "m_maxMessageBytes c' = m_maxMessageBytes c" using assms by (simp add: same_writer_def)
  with sends_ok_same [OF _ assms] show ?thesis by (simp add: writes_on_def)
qed

lemma writes_on_step:
  assumes "conn_inv c" and "conn_step c e c1" and "same_writer c1 c'" and "\<And>i r. e \<noteq> Message_written i r"
  shows "writes_on serialize (Some c) (Some c') before outb before outb"
  using sends_ok_step [OF assms(1,2,4)] sends_ok_same [OF _ assms(3)] conn_step_limit(1) [OF assms(2)] assms(3)
  by (auto simp: writes_on_def same_writer_def)

lemma writes_on_finished:
  assumes "conn_inv c" and "conn_step c (Message_written i r) c1" and "same_writer c1 c'"
    and "finishes host serialize (Some c) side r room x = Some x'"
  shows "writes_on serialize (Some c) (Some c') (ended x side) (gone x side) (ended x' side) (gone x' side)"
proof -
  obtain r' bs where att: "attempt host serialize c (ended x side) room = Some (r', bs)"
    "isl r' = isl r" "prefix (gone x side) bs"
    and x': "x' = x\<lparr>ended := (ended x)(side := bs), gone := (gone x)(side := bs)\<rparr>"
    using assms(4) by (auto simp: finishes_def split: option.splits prod.splits if_splits)
  have "sends_ok serialize c' bs bs" if "sends_ok serialize c (ended x side) (gone x side)"
    using sends_ok_same [OF sends_ok_written [OF assms(1,2) that att(1,2)] assms(3)] .
  with att(3) conn_step_limit(1) [OF assms(2)] assms(3) show ?thesis
    by (simp add: writes_on_def x' same_writer_def)
qed

lemma finishes_frame:
  assumes "finishes host serialize y side r room x = Some x'"
  shows "other \<noteq> side \<Longrightarrow> ended x' other = ended x other \<and> gone x' other = gone x other"
    and "taken x' = taken x"
  using assms by (auto simp: finishes_def split: option.splits prod.splits if_splits)

lemma takes_frame:
  assumes "takes host parse y side from_side m x = Some x'"
  shows "ended x' = ended x" and "gone x' = gone x" and "other \<noteq> side \<Longrightarrow> taken x' other = taken x other"
  using assms by (auto simp: takes_def split: option.splits prod.splits if_splits)

text \<open>A message that is taken is the next of the other end, and the reader keeps count.\<close>

lemma takes_next:
  assumes "protobuf_ok serialize parse" and "takes host parse (Some d) side from_side m x = Some x'"
    and sends: "end_sends serialize y (ended x from_side) (gone x from_side)"
    and reads: "end_reads serialize y (delivered d) (gone x from_side) (taken x side)"
    and got: "prefix (delivered d) (on_wire y)" and loops: "\<And>c. y = Some c \<Longrightarrow> length (write_loops c) \<le> 1"
  shows "prefix (delivered d @ [m]) (on_wire y)"
    and "end_reads serialize y (delivered d @ (if m_closed d then [] else [m])) (gone x' from_side) (taken x' side)"
proof -
  obtain n where r: "receive_from host parse d (gone x from_side) (taken x side) = Some (m, n)"
    and x': "x' = (if m_closed d then x else x\<lparr>taken := (taken x)(side := n)\<rparr>)"
    using assms(2) by (auto simp: takes_def split: option.splits prod.splits if_splits)
  obtain c where c: "y = Some c"
  proof (cases y)
    case None
    with sends receive_nothing [of "taken x side" "gone x from_side" host parse d] r show ?thesis
      by (simp add: end_sends_def)
  qed (use that in blast)
  have "prefix (delivered d @ [m]) (stream c) \<and> reads_ok (frames_by serialize c) (delivered d @ [m]) (gone x from_side) n"
    using reads_next [OF assms(1) _ _ _ loops [OF c] r] sends reads got
    by (simp add: c end_sends_def end_reads_def)
  with reads show "prefix (delivered d @ [m]) (on_wire y)"
    and "end_reads serialize y (delivered d @ (if m_closed d then [] else [m])) (gone x' from_side) (taken x' side)"
    by (simp_all add: c x' end_reads_def)
qed

lemma finishes_unread:
  assumes "finishes host serialize (Some c) side (Inl err) room x = Some x'"
    and "sends_ok serialize c (ended x side) (gone x side)"
    and "end_reads serialize (Some c) ms (gone x side) n"
    and "prefix ms (stream c)" and "length (write_loops c) \<le> 1"
  shows "length ms \<le> length (written c)"
proof -
  obtain r' bs where "attempt host serialize c (ended x side) room = Some (r', bs)" "isl r'" "prefix (gone x side) bs"
    using assms(1) by (auto simp: finishes_def split: option.splits prod.splits if_splits)
  with fails_unread [OF assms(2) _ assms(4,5)] assms(3) show ?thesis by (simp add: end_reads_def)
qed

text \<open>All the ends of a system, and all the pairs of ends the wiring joins.\<close>

definition wires_ok :: "build \<Rightarrow> wiring \<Rightarrow> system \<Rightarrow> wires \<Rightarrow> bool" where
  "wires_ok k w s x \<longleftrightarrow>
     (\<forall>ref. end_sends (serialize_server k) (server_end s ref) (ended x (Server_side ref)) (gone x (Server_side ref))) \<and>
     (\<forall>p. end_sends (serialize_client k) (client_end s p) (ended x (Client_side p)) (gone x (Client_side p))) \<and>
     (\<forall>ref p. w ref = Some p \<longrightarrow>
        end_reads (serialize_client k) (client_end s p) (got (server_end s ref))
          (gone x (Client_side p)) (taken x (Server_side ref)) \<and>
        end_reads (serialize_server k) (server_end s ref) (got (client_end s p))
          (gone x (Server_side ref)) (taken x (Client_side p)))"

lemma wires_okD:
  assumes "wires_ok k w s x"
  shows "end_sends (serialize_server k) (server_end s ref) (ended x (Server_side ref)) (gone x (Server_side ref))"
    and "end_sends (serialize_client k) (client_end s p) (ended x (Client_side p)) (gone x (Client_side p))"
    and "w ref = Some p \<Longrightarrow> end_reads (serialize_client k) (client_end s p) (got (server_end s ref))
          (gone x (Client_side p)) (taken x (Server_side ref))"
    and "w ref = Some p \<Longrightarrow> end_reads (serialize_server k) (server_end s ref) (got (client_end s p))
          (gone x (Server_side ref)) (taken x (Client_side p))"
  using assms unfolding wires_ok_def by blast+

text \<open>What the connections of a reachable system satisfy.\<close>

definition sound :: "wiring \<Rightarrow> system \<Rightarrow> bool" where
  "sound w s \<longleftrightarrow>
     server_inv (sys_server s) \<and> (\<forall>j < length (sys_clients s). link_inv (sys_clients s ! j)) \<and> linked w s"

lemma sound_run: "system_run dump w cfgs es s \<Longrightarrow> inj_on w (dom w) \<Longrightarrow> sound w s"
  using run_server_inv run_linked client_run_link [OF run_client(1)] unfolding sound_def by blast

lemma sound_server_end:
  assumes "sound w s" and "server_end s ref = Some c"
  shows "conn_inv c" and "length (write_loops c) \<le> 1"
proof -
  show "conn_inv c"
    using assms by (auto simp: sound_def server_end_def at_def server_invD heap_invD split: if_splits)
  then show "length (write_loops c) \<le> 1" by (simp add: conn_inv_def loops_inv_def)
qed

lemma sound_client_end:
  assumes "sound w s" and "client_end s p = Some c"
  shows "conn_inv c" and "length (write_loops c) \<le> 1"
proof -
  show "conn_inv c"
    using assms link_invD(1)
    by (auto simp: sound_def client_end_def at_def split: if_splits Option.bind_splits)
  then show "length (write_loops c) \<le> 1" by (simp add: conn_inv_def loops_inv_def)
qed

lemma no_reads:
  "\<nexists>i m. e = Strand ref (Message_read i (Inr m)) \<Longrightarrow> server_reads v e ref = []"
  "\<nexists>i m. e' = Conn_event q (Message_read i (Inr m)) \<Longrightarrow> client_reads c e' q = []"
proof -
  show "server_reads v e ref = []" if "\<nexists>i m. e = Strand ref (Message_read i (Inr m))"
    using that server_reads_event [of v e ref] reads_short(1) [of v e ref]
    by (cases "server_reads v e ref") auto
  show "client_reads c e' q = []" if "\<nexists>i m. e' = Conn_event q (Message_read i (Inr m))"
    using that client_reads_event [of c e' q] reads_short(2) [of c e' q]
    by (cases "client_reads c e' q") auto
qed

lemma new_writer: "outgoing c = {} \<Longrightarrow> written c = [] \<and> in_flight c = []"
  using stream_outgoing [of c] by (simp add: stream_def)

section \<open>A step of the server over bytes\<close>

lemma server_io_frame:
  assumes "server_io k w s e room x = Some x'"
  shows "\<nexists>ref i r. e = Strand ref (Message_written i r) \<and> side = Server_side ref \<Longrightarrow>
      ended x' side = ended x side \<and> gone x' side = gone x side"
    and "\<nexists>ref i m. e = Strand ref (Message_read i (Inr m)) \<and> side = Server_side ref \<Longrightarrow>
      taken x' side = taken x side"
proof -
  consider ref i m p where "e = Strand ref (Message_read i (Inr m))" "w ref = Some p"
      "takes (server_host k) (parse_client k) (server_end s ref) (Server_side ref) (Client_side p) m x = Some x'"
    | ref i r where "e = Strand ref (Message_written i r)"
      "finishes (server_host k) (serialize_server k) (server_end s ref) (Server_side ref) r room x = Some x'"
    | "x' = x"
    using assms by (cases "(k, w, s, e, room, x)" rule: server_io.cases) (auto split: option.splits)
  then show "\<nexists>ref i r. e = Strand ref (Message_written i r) \<and> side = Server_side ref \<Longrightarrow>
      ended x' side = ended x side \<and> gone x' side = gone x side"
    and "\<nexists>ref i m. e = Strand ref (Message_read i (Inr m)) \<and> side = Server_side ref \<Longrightarrow>
      taken x' side = taken x side"
    by (cases; use takes_frame finishes_frame in fastforce)+
qed

lemma server_writes_on:
  assumes sound: "sound w s" and step: "server_step dump (sys_server s) e v"
    and io: "server_io k w s e room x = Some x'"
  shows "writes_on (serialize_server k) (server_end s ref) (server_end (s\<lparr>sys_server := v\<rparr>) ref)
     (ended x (Server_side ref)) (gone x (Server_side ref)) (ended x' (Server_side ref)) (gone x' (Server_side ref))"
proof (cases "ref < length (srv_heap (sys_server s))")
  case False
  have inv: "server_inv (sys_server s)" using sound by (simp add: sound_def)
  have "\<nexists>e'. e = Strand ref e'" using step False by (blast elim: server_step_elims)
  then have "ended x' (Server_side ref) = ended x (Server_side ref) \<and>
      gone x' (Server_side ref) = gone x (Server_side ref)"
    by (intro server_io_frame(1) [OF io]) auto
  with False new_writer server_step_carries(3) [OF inv step, of ref] show ?thesis
    by (cases "ref < length (srv_heap v)") (auto simp: writes_on_def server_end_def)
next
  case True
  let ?c = "srv_heap (sys_server s) ! ref" and ?c' = "srv_heap v ! ref"
  have inv: "server_inv (sys_server s)" using sound by (simp add: sound_def)
  have "ref < length (srv_heap v)" using True server_step_carries(1) [OF inv step] by simp
  then have ends: "server_end s ref = Some ?c" "server_end (s\<lparr>sys_server := v\<rparr>) ref = Some ?c'"
    using True by (simp_all add: server_end_def)
  note c = sound_server_end(1) [OF sound ends(1)]
  show ?thesis
  proof (cases "\<exists>e'. e = Strand ref e'")
    case False
    then have "ended x' (Server_side ref) = ended x (Server_side ref) \<and>
        gone x' (Server_side ref) = gone x (Server_side ref)"
      by (intro server_io_frame(1) [OF io]) auto
    with writes_on_same server_step_writer(1) [OF inv step True False] show ?thesis by (simp add: ends)
  next
    case True
    then obtain e' where e: "e = Strand ref e'" by blast
    obtain c1 where c1: "conn_step ?c e' c1" "same_writer c1 ?c'"
      using server_step_writer(2) [OF inv step \<open>ref < length (srv_heap (sys_server s))\<close> e] by blast
    show ?thesis
    proof (cases "\<exists>i r. e' = Message_written i r")
      case True
      then obtain i r where "e' = Message_written i r" by blast
      with io e c1 writes_on_finished [OF c _ c1(2)] show ?thesis by (simp add: ends)
    next
      case False
      then have "ended x' (Server_side ref) = ended x (Server_side ref) \<and>
          gone x' (Server_side ref) = gone x (Server_side ref)"
        using e by (intro server_io_frame(1) [OF io]) auto
      with writes_on_step [OF c c1] False show ?thesis by (simp add: ends)
    qed
  qed
qed

lemma server_takes:
  assumes ok: "build_ok k" and sound: "sound w s" and wires: "wires_ok k w s x"
    and step: "server_step dump (sys_server s) e v" and io: "server_io k w s e room x = Some x'"
    and e: "e = Strand ref (Message_read i (Inr m))" and p: "w ref = Some p"
  shows "prefix (got (server_end s ref) @ [m]) (on_wire (client_end s p))"
    and "end_reads (serialize_client k) (client_end s p) (got (server_end (s\<lparr>sys_server := v\<rparr>) ref))
      (gone x' (Client_side p)) (taken x' (Server_side ref))"
proof -
  let ?s = "s\<lparr>sys_server := v\<rparr>"
  have inv: "server_inv (sys_server s)" and link: "linked w s" using sound by (simp_all add: sound_def)
  obtain d where d: "server_end s ref = Some d"
    using step e by (auto simp: server_end_def elim!: server_step_elims)
  have proto: "protobuf_ok (serialize_client k) (parse_client k)" using ok by (simp add: build_ok_def)
  have io': "takes (server_host k) (parse_client k) (Some d) (Server_side ref) (Client_side p) m x = Some x'"
    using io e p d by simp
  have got': "got (server_end ?s ref) = delivered d @ (if m_closed d then [] else [m])"
    using end_carriesD(1) [OF server_end_carries(1) [OF inv step refl], of ref] e d
    by (auto simp: server_end_def at_def split: if_splits)
  have "prefix (delivered d) (on_wire (client_end s p))"
    using linkedD(1) [OF link p] d by simp
  note next_ok = takes_next [OF proto io' wires_okD(2) [OF wires]
      wires_okD(3) [OF wires p, unfolded d ends_simps(4)] this sound_client_end(2) [OF sound]]
  show "prefix (got (server_end s ref) @ [m]) (on_wire (client_end s p))"
    and "end_reads (serialize_client k) (client_end s p) (got (server_end ?s ref))
      (gone x' (Client_side p)) (taken x' (Server_side ref))"
    using next_ok server_io_frame [OF io, of "Client_side p"] by (simp_all add: d got')
qed

lemma server_unread:
  assumes sound: "sound w s" and wires: "wires_ok k w s x"
    and step: "server_step dump (sys_server s) e v" and io: "server_io k w s e room x = Some x'"
    and e: "e = Strand ref (Message_written i (Inl err))" and p: "w ref = Some p"
  shows "length (got (client_end s p)) \<le> length (wrote (server_end s ref))"
proof -
  obtain c where c: "server_end s ref = Some c"
    using step e by (auto simp: server_end_def elim!: server_step_elims)
  have "length (got (client_end s p)) \<le> length (written c)"
  proof (rule finishes_unread)
    show "finishes (server_host k) (serialize_server k) (Some c) (Server_side ref) (Inl err) room x = Some x'"
      using io e c by simp
    show "sends_ok (serialize_server k) c (ended x (Server_side ref)) (gone x (Server_side ref))"
      using wires_okD(1) [OF wires, of ref] by (simp add: c end_sends_def)
    show "end_reads (serialize_server k) (Some c) (got (client_end s p)) (gone x (Server_side ref)) (taken x (Client_side p))"
      using wires_okD(4) [OF wires p] by (simp add: c)
    show "prefix (got (client_end s p)) (stream c)"
      using linkedD(2) [of w s ref p] sound p c by (simp add: sound_def)
    show "length (write_loops c) \<le> 1" using sound_server_end(2) [OF sound c] .
  qed
  with c show ?thesis by simp
qed

lemma wires_server:
  assumes ok: "build_ok k" and sound: "sound w s" and wires: "wires_ok k w s x"
    and step: "server_step dump (sys_server s) e v" and io: "server_io k w s e room x = Some x'"
  shows "server_network w s e" and "wires_ok k w (s\<lparr>sys_server := v\<rparr>) x'"
proof -
  let ?s = "s\<lparr>sys_server := v\<rparr>"
  have inv: "server_inv (sys_server s)" using sound by (simp add: sound_def)
  note sends = wires_okD(1,2) [OF wires] and reads = wires_okD(3,4) [OF wires]
  note carry = server_end_carries [OF inv step refl]
  note writes = server_writes_on [OF sound step io]
  note takes = server_takes [OF ok sound wires step io]
  have client: "ended x' (Client_side p) = ended x (Client_side p)" "gone x' (Client_side p) = gone x (Client_side p)"
    "taken x' (Client_side p) = taken x (Client_side p)" for p
    using server_io_frame [OF io, of "Client_side p"] by simp_all
  show "server_network w s e"
    using takes(1) server_unread [OF sound wires step io]
    by (cases "(w, s, e)" rule: server_network.cases) (simp_all split: option.split)
  have "end_reads (serialize_client k) (client_end s p) (got (server_end ?s ref))
        (gone x' (Client_side p)) (taken x' (Server_side ref))" if p: "w ref = Some p" for ref p
  proof (cases "\<exists>i m. e = Strand ref (Message_read i (Inr m))")
    case True
    with takes(2) p show ?thesis by blast
  next
    case False
    then have "server_reads (sys_server s) e ref = []" by (rule no_reads(1))
    then have "got (server_end ?s ref) = got (server_end s ref)"
      using end_carriesD(1) [OF carry(1), of ref] by simp
    moreover have "taken x' (Server_side ref) = taken x (Server_side ref)"
      using False by (intro server_io_frame(2) [OF io]) auto
    ultimately show ?thesis using reads(1) [OF p] client by simp
  qed
  moreover have "end_reads (serialize_server k) (server_end ?s ref) (got (client_end s p))
        (gone x' (Server_side ref)) (taken x' (Client_side p))" if p: "w ref = Some p" for ref p
    using writes_on_reads [OF reads(2) [OF p] writes] client by simp
  ultimately show "wires_ok k w ?s x'"
    using writes_on_sends [OF sends(1) writes] sends(2) client by (simp add: wires_ok_def carry(2))
qed

section \<open>A step of a client over bytes\<close>

lemma client_io_frame:
  assumes "client_io k w s j e room x = Some x'"
  shows "\<nexists>q i r. e = Conn_event q (Message_written i r) \<and> side = Client_side (j, q) \<Longrightarrow>
      ended x' side = ended x side \<and> gone x' side = gone x side"
    and "\<nexists>q i m. e = Conn_event q (Message_read i (Inr m)) \<and> side = Client_side (j, q) \<Longrightarrow>
      taken x' side = taken x side"
proof -
  consider q i m ref where "e = Conn_event q (Message_read i (Inr m))"
      "takes (client_host k) (parse_server k) (client_end s (j, q)) (Client_side (j, q)) (Server_side ref) m x = Some x'"
    | q i r where "e = Conn_event q (Message_written i r)"
      "finishes (client_host k) (serialize_client k) (client_end s (j, q)) (Client_side (j, q)) r room x = Some x'"
    | "x' = x"
    using assms by (cases "(k, w, s, j, e, room, x)" rule: client_io.cases) (auto split: list.splits)
  then show "\<nexists>q i r. e = Conn_event q (Message_written i r) \<and> side = Client_side (j, q) \<Longrightarrow>
      ended x' side = ended x side \<and> gone x' side = gone x side"
    and "\<nexists>q i m. e = Conn_event q (Message_read i (Inr m)) \<and> side = Client_side (j, q) \<Longrightarrow>
      taken x' side = taken x side"
    by (cases; use takes_frame finishes_frame in fastforce)+
qed

lemma client_writes_on:
  assumes sound: "sound w s" and j: "j < length (sys_clients s)"
    and exec: "client_exec e (sys_clients s ! j) = Some c" and io: "client_io k w s j e room x = Some x'"
  shows "writes_on (serialize_client k) (client_end s (j, q))
     (client_end (s\<lparr>sys_clients := (sys_clients s)[j := c]\<rparr>) (j, q))
     (ended x (Client_side (j, q))) (gone x (Client_side (j, q)))
     (ended x' (Client_side (j, q))) (gone x' (Client_side (j, q)))"
proof -
  let ?cl = "sys_clients s ! j"
  have link: "link_inv ?cl" using sound j by (simp add: sound_def)
  have carry: "conns_carry ?cl e c" by (rule client_exec_carries [OF link exec])
  have idle: "ended x' (Client_side (j, q)) = ended x (Client_side (j, q)) \<and>
      gone x' (Client_side (j, q)) = gone x (Client_side (j, q))"
    if "\<nexists>i r. e = Conn_event q (Message_written i r)"
    using that by (intro client_io_frame(1) [OF io]) auto
  show ?thesis
  proof (cases "q < length (cl_conns ?cl)")
    case False
    have "\<nexists>e'. e = Conn_event q e'" using exec False by auto
    with idle have "ended x' (Client_side (j, q)) = ended x (Client_side (j, q)) \<and>
        gone x' (Client_side (j, q)) = gone x (Client_side (j, q))" by blast
    with False new_writer [of "cl_conns c ! q"] carry j show ?thesis
      by (cases "q < length (cl_conns c)") (auto simp: writes_on_def client_end_def conns_carry_def)
  next
    case True
    let ?c = "cl_conns ?cl ! q" and ?c' = "cl_conns c ! q"
    have "q < length (cl_conns c)" using True carry by (simp add: conns_carry_def)
    then have ends: "client_end s (j, q) = Some ?c"
      "client_end (s\<lparr>sys_clients := (sys_clients s)[j := c]\<rparr>) (j, q) = Some ?c'"
      using True j by (simp_all add: client_end_def)
    note inv = sound_client_end(1) [OF sound ends(1)]
    show ?thesis
    proof (cases "\<exists>e'. e = Conn_event q e'")
      case False
      with idle writes_on_same client_exec_writer(1) [OF exec True False] show ?thesis by (simp add: ends)
    next
      case True
      then obtain e' where e: "e = Conn_event q e'" by blast
      note step = client_exec_writer(2) [OF exec \<open>q < length (cl_conns ?cl)\<close> e]
      show ?thesis
      proof (cases "\<exists>i r. e' = Message_written i r")
        case True
        then obtain i r where "e' = Message_written i r" by blast
        with io e step writes_on_finished [OF inv _ same_writer_refl] show ?thesis by (simp add: ends)
      next
        case False
        with idle e writes_on_step [OF inv step same_writer_refl] show ?thesis by (simp add: ends)
      qed
    qed
  qed
qed

lemma wired_to_head: "wired_to w s p = ref # refs \<Longrightarrow> w ref = Some p \<and> server_end s ref \<noteq> None"
  using wired_to_set [of ref w s p] by simp

lemma client_takes:
  assumes ok: "build_ok k" and sound: "sound w s" and wires: "wires_ok k w s x"
    and j: "j < length (sys_clients s)" and exec: "client_exec e (sys_clients s ! j) = Some c"
    and io: "client_io k w s j e room x = Some x'" and e: "e = Conn_event q (Message_read i (Inr m))"
  shows "\<exists>ref \<in> set (wired_to w s (j, q)).
      prefix (got (client_end s (j, q)) @ [m]) (on_wire (server_end s ref)) \<and>
      end_reads (serialize_server k) (server_end s ref)
        (got (client_end (s\<lparr>sys_clients := (sys_clients s)[j := c]\<rparr>) (j, q)))
        (gone x' (Server_side ref)) (taken x' (Client_side (j, q)))"
proof -
  let ?s = "s\<lparr>sys_clients := (sys_clients s)[j := c]\<rparr>"
  have link: "linked w s" and inv: "link_inv (sys_clients s ! j)" using sound j by (simp_all add: sound_def)
  obtain d where d: "client_end s (j, q) = Some d"
    using exec e j by (auto simp: client_end_def split: if_splits)
  obtain ref refs where refs: "wired_to w s (j, q) = ref # refs"
    using io e by (auto split: list.splits)
  then have p: "w ref = Some (j, q)" using wired_to_head by blast
  have proto: "protobuf_ok (serialize_server k) (parse_server k)" using ok by (simp add: build_ok_def)
  have io': "takes (client_host k) (parse_server k) (Some d) (Client_side (j, q)) (Server_side ref) m x = Some x'"
    using io e refs d by simp
  have "cl_conns (sys_clients s ! j) ! q = d"
    using d j by (auto simp: client_end_def at_def split: if_splits)
  then have got': "got (client_end ?s (j, q)) = delivered d @ (if m_closed d then [] else [m])"
    using end_carriesD(1) [OF client_end_carries(1) [OF inv j exec refl], of q] e d by simp
  have "prefix (delivered d) (on_wire (server_end s ref))"
    using linkedD(2) [OF link p] d by simp
  note next_ok = takes_next [OF proto io' wires_okD(1) [OF wires]
      wires_okD(4) [OF wires p, unfolded d ends_simps(4)] this sound_server_end(2) [OF sound]]
  show ?thesis using next_ok client_io_frame [OF io, of "Server_side ref"] refs by (simp add: d got')
qed

lemma client_unread:
  assumes sound: "sound w s" and wires: "wires_ok k w s x"
    and j: "j < length (sys_clients s)" and exec: "client_exec e (sys_clients s ! j) = Some c"
    and io: "client_io k w s j e room x = Some x'" and e: "e = Conn_event q (Message_written i (Inl err))"
    and p: "w ref = Some (j, q)"
  shows "length (got (server_end s ref)) \<le> length (wrote (client_end s (j, q)))"
proof -
  obtain d where d: "client_end s (j, q) = Some d"
    using exec e j by (auto simp: client_end_def split: if_splits)
  have "length (got (server_end s ref)) \<le> length (written d)"
  proof (rule finishes_unread)
    show "finishes (client_host k) (serialize_client k) (Some d) (Client_side (j, q)) (Inl err) room x = Some x'"
      using io e d by simp
    show "sends_ok (serialize_client k) d (ended x (Client_side (j, q))) (gone x (Client_side (j, q)))"
      using wires_okD(2) [OF wires, of "(j, q)"] by (simp add: d end_sends_def)
    show "end_reads (serialize_client k) (Some d) (got (server_end s ref)) (gone x (Client_side (j, q)))
        (taken x (Server_side ref))"
      using wires_okD(3) [OF wires p] by (simp add: d)
    show "prefix (got (server_end s ref)) (stream d)"
      using linkedD(1) [of w s ref "(j, q)"] sound p d by (simp add: sound_def)
    show "length (write_loops d) \<le> 1" using sound_client_end(2) [OF sound d] .
  qed
  with d show ?thesis by simp
qed

text \<open>The bytes of the connections of the other clients stay as they are.\<close>

lemma client_io_others:
  assumes "client_io k w s j e room x = Some x'" and "fst p \<noteq> j"
  shows "ended x' (Client_side p) = ended x (Client_side p)" and "gone x' (Client_side p) = gone x (Client_side p)"
    and "taken x' (Client_side p) = taken x (Client_side p)"
proof -
  have "p \<noteq> (j, q)" for q using assms(2) by auto
  then show "ended x' (Client_side p) = ended x (Client_side p)" "gone x' (Client_side p) = gone x (Client_side p)"
    "taken x' (Client_side p) = taken x (Client_side p)"
    using client_io_frame [OF assms(1), of "Client_side p"] by simp_all
qed

lemma client_still_reads:
  assumes ok: "build_ok k" and wire: "inj_on w (dom w)" and sound: "sound w s" and wires: "wires_ok k w s x"
    and j: "j < length (sys_clients s)" and exec: "client_exec e (sys_clients s ! j) = Some c"
    and io: "client_io k w s j e room x = Some x'" and p: "w ref = Some p"
  shows "end_reads (serialize_server k) (server_end s ref)
     (got (client_end (s\<lparr>sys_clients := (sys_clients s)[j := c]\<rparr>) p)) (gone x' (Server_side ref)) (taken x' (Client_side p))"
proof -
  have inv: "link_inv (sys_clients s ! j)" using sound j by (simp add: sound_def)
  note carry = client_end_carries [OF inv j exec refl]
  have server: "gone x' (Server_side ref) = gone x (Server_side ref)"
    using client_io_frame [OF io, of "Server_side ref"] by simp
  consider (other) "fst p \<noteq> j" | (takes) q i m where "p = (j, q)" "e = Conn_event q (Message_read i (Inr m))"
    | (same) q where "p = (j, q)" "\<nexists>i m. e = Conn_event q (Message_read i (Inr m))"
    by (metis prod.collapse)
  then show ?thesis
  proof cases
    case other
    with wires_okD(4) [OF wires p] server client_io_others [OF io] carry(2) [of p] show ?thesis by simp
  next
    case (takes q i m)
    obtain ref' where "w ref' = Some (j, q)" "end_reads (serialize_server k) (server_end s ref')
        (got (client_end (s\<lparr>sys_clients := (sys_clients s)[j := c]\<rparr>) (j, q)))
        (gone x' (Server_side ref')) (taken x' (Client_side (j, q)))"
      using client_takes [OF ok sound wires j exec io takes(2)] by (auto simp: wired_to_set)
    moreover from this(1) have "ref' = ref" using wire p takes(1) by (metis domI inj_onD)
    ultimately show ?thesis using takes(1) by simp
  next
    case (same q)
    then have "client_reads (sys_clients s ! j) e q = []" by (intro no_reads(2))
    then have "got (client_end (s\<lparr>sys_clients := (sys_clients s)[j := c]\<rparr>) (j, q)) = got (client_end s (j, q))"
      using end_carriesD(1) [OF carry(1), of q] by simp
    moreover have "taken x' (Client_side (j, q)) = taken x (Client_side (j, q))"
      using same(2) by (intro client_io_frame(2) [OF io]) auto
    ultimately show ?thesis using wires_okD(4) [OF wires p] server same(1) by simp
  qed
qed

lemma wires_client:
  assumes ok: "build_ok k" and wire: "inj_on w (dom w)" and sound: "sound w s" and wires: "wires_ok k w s x"
    and j: "j < length (sys_clients s)" and exec: "client_exec e (sys_clients s ! j) = Some c"
    and io: "client_io k w s j e room x = Some x'"
  shows "client_network w s j e" and "wires_ok k w (s\<lparr>sys_clients := (sys_clients s)[j := c]\<rparr>) x'"
proof -
  let ?s = "s\<lparr>sys_clients := (sys_clients s)[j := c]\<rparr>"
  have inv: "link_inv (sys_clients s ! j)" using sound j by (simp add: sound_def)
  note sends = wires_okD(1,2) [OF wires] and carry = client_end_carries [OF inv j exec refl]
  have server: "ended x' (Server_side ref) = ended x (Server_side ref)"
    "gone x' (Server_side ref) = gone x (Server_side ref)" "taken x' (Server_side ref) = taken x (Server_side ref)"
    for ref using client_io_frame [OF io, of "Server_side ref"] by simp_all
  show "client_network w s j e"
    using client_takes [OF ok sound wires j exec io] client_unread [OF sound wires j exec io]
    by (cases "(w, s, j, e)" rule: client_network.cases) (auto simp: wired_to_set)
  have on: "writes_on (serialize_client k) (client_end s p) (client_end ?s p)
     (ended x (Client_side p)) (gone x (Client_side p)) (ended x' (Client_side p)) (gone x' (Client_side p))" for p
  proof (cases "fst p = j")
    case True
    with client_writes_on [OF sound j exec io] show ?thesis by (cases p) simp
  next
    case False
    with client_io_others [OF io] carry(2) [of p] show ?thesis by (simp add: writes_on_refl)
  qed
  have "end_reads (serialize_client k) (client_end ?s p) (got (server_end s ref))
        (gone x' (Client_side p)) (taken x' (Server_side ref))" if p: "w ref = Some p" for ref p
    using writes_on_reads [OF wires_okD(3) [OF wires p] on] server by simp
  then show "wires_ok k w ?s x'"
    using client_still_reads [OF ok wire sound wires j exec io] writes_on_sends [OF sends(2) on] sends(1) server
    by (simp add: wires_ok_def carry(3))
qed

section \<open>Bytes that go out\<close>

fun flow :: "build \<Rightarrow> system \<Rightarrow> peer \<Rightarrow> nat \<Rightarrow> wires \<Rightarrow> wires option" where
  "flow k s (Server_side ref) room x =
     flows (server_host k) (serialize_server k) (server_end s ref) (Server_side ref) room x"
| "flow k s (Client_side p) room x =
     flows (client_host k) (serialize_client k) (client_end s p) (Client_side p) room x"

lemma flows_writes_on:
  assumes "flows host serialize y side room x = Some x'"
  shows "writes_on serialize y y (ended x side) (gone x side) (ended x' side) (gone x' side)"
    and "other \<noteq> side \<Longrightarrow> gone x' other = gone x other" and "ended x' = ended x" and "taken x' = taken x"
proof -
  obtain c r bs where c: "y = Some c" "attempt host serialize c (ended x side) room = Some (r, bs)"
    "prefix (gone x side) bs" and x': "x' = x\<lparr>gone := (gone x)(side := bs)\<rparr>"
    using assms by (auto simp: flows_def split: option.splits prod.splits if_splits Option.bind_splits)
  show "writes_on serialize y y (ended x side) (gone x side) (ended x' side) (gone x' side)"
    using c sends_ok_flows [OF _ c(2)] by (simp add: writes_on_def x')
  show "other \<noteq> side \<Longrightarrow> gone x' other = gone x other" "ended x' = ended x" "taken x' = taken x"
    by (simp_all add: x')
qed

lemma flow_frame:
  assumes "flow k s side room x = Some x'"
  shows "other \<noteq> side \<Longrightarrow> gone x' other = gone x other" and "ended x' = ended x" and "taken x' = taken x"
  using assms by (cases side; simp add: flows_writes_on(2-4))+

lemma wires_flow:
  assumes wires: "wires_ok k w s x" and flow: "flow k s side room x = Some x'"
  shows "wires_ok k w s x'"
proof -
  have server: "writes_on (serialize_server k) (server_end s ref) (server_end s ref) (ended x (Server_side ref))
      (gone x (Server_side ref)) (ended x' (Server_side ref)) (gone x' (Server_side ref))" for ref
  proof (cases "side = Server_side ref")
    case True
    with flow show ?thesis by (intro flows_writes_on(1)) simp
  next
    case False
    then show ?thesis using flow_frame [OF flow] by (simp add: writes_on_refl)
  qed
  have client: "writes_on (serialize_client k) (client_end s p) (client_end s p) (ended x (Client_side p))
      (gone x (Client_side p)) (ended x' (Client_side p)) (gone x' (Client_side p))" for p
  proof (cases "side = Client_side p")
    case True
    with flow show ?thesis by (intro flows_writes_on(1)) simp
  next
    case False
    then show ?thesis using flow_frame [OF flow] by (simp add: writes_on_refl)
  qed
  show ?thesis
    unfolding wires_ok_def flow_frame(3) [OF flow]
    using writes_on_sends [OF wires_okD(1) [OF wires] server] writes_on_sends [OF wires_okD(2) [OF wires] client]
      writes_on_reads [OF wires_okD(3) [OF wires] client] writes_on_reads [OF wires_okD(4) [OF wires] server]
    by simp
qed

section \<open>What the bytes are\<close>

text \<open>The bytes a reader has taken are exactly the frames of the messages it delivered.\<close>

lemma bytes_taken:
  assumes ok: "sends_ok serialize c before outb" and reads: "reads_ok (frames_by serialize c) ms outb n"
    and got: "prefix ms (stream c)" and loops: "length (write_loops c) \<le> 1"
  shows "take n outb = enc (frames_by serialize c) ms"
  using got loops
proof (cases rule: stream_prefix_cases)
  case (written ns)
  with ok reads show ?thesis by (auto simp: sends_ok_def reads_ok_def)
next
  case (all m)
  let ?fb = "frames_by serialize c"
  obtain part where part: "outb = enc ?fb (written c) @ part" "prefix part (enc ?fb [m])"
    using ok all(1) by (auto simp: sends_ok_def)
  moreover have "length (enc ?fb [m]) \<le> length part" using reads part(1) all(2) by (simp add: reads_ok_def)
  ultimately have "part = enc ?fb [m]"
    by (metis append_eq_conv_conj prefixE take_all)
  with part(1) reads all(2) show ?thesis by (simp add: reads_ok_def)
qed

lemma bytes_gone:
  "sends_ok serialize c before outb \<Longrightarrow> \<exists>part. outb = enc (frames_by serialize c) (written c) @ part"
  by (auto simp: sends_ok_def)

text \<open>A reader with no smaller limit can read a message whose frame has arrived.\<close>

lemma readMessage_whole:
  assumes ok: "protobuf_ok serialize parse" and f: "frame_of serialize limit m = Some f"
    and "limit \<le> limit'" and s: "sock_in s = f @ rest"
  shows "\<exists>ch' s'. readMessage host parse (channel_of limit') s = (Inr m, ch', s')"
proof -
  obtain data where data: "serialize m = Some data" "length data \<le> unat limit" "data \<noteq> []"
    and f': "f = frame (rev_prefix (le_bytes (word_of_nat (length data)))) data"
    using f by (auto simp: frame_of_def split: option.splits if_splits)
  let ?n = "word_of_nat (length data) :: u32" and ?c = "m_frameCodec (channel_of limit')"
  have n: "unat ?n = length data" using unat_word_of_length [OF data(2)] .
  have "unat limit \<le> unat limit'" using assms(3) by (simp add: word_le_nat_alt)
  with n data have "valid_payload_size ?c ?n"
    by (auto simp: valid_payload_size_def channel_of_def word_le_nat_alt)
  then have "decodeLengthPrefix host ?c (rev_prefix (le_bytes ?n)) = Inr ?n"
    by (simp add: decodeLengthPrefix_ok del: rev_prefix.simps)
  moreover have "parse data (sint ?n) = Some m"
  proof -
    have "length data < 2 ^ 31" "parse data (int (length data)) = Some m"
      using ok data(1) by (auto simp: protobuf_ok_def)
    with n sint_u32 [of ?n] show ?thesis by simp
  qed
  ultimately have "read_frame (decodeLengthPrefix host ?c) parse (channel_of limit') s =
      (Inr m, (channel_of limit')\<lparr>m_readBuffer := data\<rparr>, s\<lparr>sock_in := rest\<rparr>)"
    using n s f' by (intro read_frame_frame) simp_all
  then show ?thesis by (simp add: readMessage_def)
qed

lemma receive_written:
  assumes proto: "protobuf_ok serialize parse" and ok: "sends_ok serialize c before outb"
    and reads: "reads_ok (frames_by serialize c) ms outb n"
    and got: "prefix ms (stream c)" and more: "length ms < length (written c)"
    and limit: "m_maxMessageBytes c \<le> m_maxMessageBytes d"
  shows "\<exists>n'. receive_from host parse d outb n = Some (written c ! length ms, n')"
proof -
  let ?fb = "frames_by serialize c"
  have "prefix ms (written c)"
    using got more prefix_length_prefix [of ms "stream c" "written c"] by (simp add: stream_def)
  then obtain m ns where w: "written c = ms @ m # ns"
    using more by (metis append_Nil2 neq_Nil_conv order_less_irrefl prefixE)
  obtain part where part: "outb = enc ?fb (written c) @ part" using bytes_gone [OF ok] by blast
  obtain f where f: "?fb m = Some f" using ok w by (auto simp: sends_ok_def)
  have "drop n outb = f @ enc ?fb ns @ part" using reads w f part by (simp add: reads_ok_def)
  then have "\<exists>ch' s'. readMessage host parse (channel_of (m_maxMessageBytes d))
      \<lparr>sock_in = drop n outb, sock_out = [], sock_room = 0\<rparr> = (Inr m, ch', s')"
    by (intro readMessage_whole [OF proto f [unfolded frames_by_def] limit]) simp
  with w show ?thesis by (auto simp: receive_from_def)
qed

end
