(* ===== verification/Wire_Program.thy ===== *)
theory Wire_Program
  imports Program Wire
begin

text \<open>
  The programs of \<open>Program\<close>, joined by bytes: a step of the server or of a worker that reads a
  message calls \<open>readMessage\<close> on the bytes that have arrived, one that ends a write calls
  \<open>writeMessage\<close>, and between the steps of the programs the sockets take bytes of the messages
  being written, as many at a time as they like. Nothing else is assumed of the network, and of
  protobuf only what \<open>build_ok\<close> says; that messages arrive whole, unchanged and in order is proved.
\<close>

section \<open>The programs and the bytes between them\<close>

datatype wire_event =
    Server_wire server_event nat
  | App_wire nat app_event nat
  | Bytes_out peer nat

definition app_io :: "build \<Rightarrow> wiring \<Rightarrow> program \<Rightarrow> nat \<Rightarrow> app_event \<Rightarrow> nat \<Rightarrow> wires \<Rightarrow> wires option" where
  "app_io k w p j e room x =
     (case client_move (pr_apps p ! j) e of
        None \<Rightarrow> Some x
      | Some ce \<Rightarrow> client_io k w (system_of p) j ce room x)"

inductive wire_step ::
  "(json \<Rightarrow> string result) \<Rightarrow> (error_code \<Rightarrow> string) \<Rightarrow> build \<Rightarrow> wiring \<Rightarrow>
     program \<times> wires \<Rightarrow> wire_event \<Rightarrow> program \<times> wires \<Rightarrow> bool"
  for dump ec_text k w where
  server_wire: "server_step dump (pr_server p) e v \<Longrightarrow> server_io k w (system_of p) e room x = Some x' \<Longrightarrow>
     wire_step dump ec_text k w (p, x) (Server_wire e room) (p\<lparr>pr_server := v\<rparr>, x')"
| app_wire: "j < length (pr_apps p) \<Longrightarrow> app_exec ec_text e (pr_apps p ! j) = Some a \<Longrightarrow>
     app_io k w p j e room x = Some x' \<Longrightarrow>
     wire_step dump ec_text k w (p, x) (App_wire j e room) (p\<lparr>pr_apps := (pr_apps p)[j := a]\<rparr>, x')"
| bytes_out: "flow k (system_of p) side room x = Some x' \<Longrightarrow>
     wire_step dump ec_text k w (p, x) (Bytes_out side room) (p, x')"

inductive wire_run ::
  "(json \<Rightarrow> string result) \<Rightarrow> (error_code \<Rightarrow> string) \<Rightarrow> build \<Rightarrow> wiring \<Rightarrow> string list \<Rightarrow>
     wire_event list \<Rightarrow> program \<times> wires \<Rightarrow> bool"
  for dump ec_text k w nows where
  wires_start: "list_all2 (\<lambda>now a. Application now = Inr a) nows as \<Longrightarrow>
     wire_run dump ec_text k w nows [] (\<lparr>pr_server = initial_server, pr_apps = as\<rparr>, no_bytes)"
| wires_next: "wire_run dump ec_text k w nows es px \<Longrightarrow> wire_step dump ec_text k w px e px' \<Longrightarrow>
     wire_run dump ec_text k w nows (es @ [e]) px'"

text \<open>The steps of the programs in a run over bytes.\<close>

fun program_part :: "wire_event \<Rightarrow> program_event option" where
  "program_part (Server_wire e room) = Some (Server_does e)"
| "program_part (App_wire j e room) = Some (App_does j e)"
| "program_part (Bytes_out side room) = None"

definition program_events :: "wire_event list \<Rightarrow> program_event list" where
  "program_events es = List.map_filter program_part es"

lemma program_events_simps [simp]:
  "program_events [] = []"
  "program_events (es @ [e]) =
     program_events es @ (case program_part e of None \<Rightarrow> [] | Some e' \<Rightarrow> [e'])"
  by (simp_all add: program_events_def map_filter_append map_filter_single List.map_filter_def
      split: option.split)

section \<open>A run over bytes is a run of the programs\<close>

lemma client_create_conns: "client_create cfg = Inr c \<Longrightarrow> cl_conns c = []"
  by (auto simp: client_create_def split: sum.splits)

lemma wires_ok_start:
  assumes "list_all2 (\<lambda>now a. Application now = Inr a) nows as"
  shows "wires_ok k w (system_of \<lparr>pr_server = initial_server, pr_apps = as\<rparr>) no_bytes"
proof -
  let ?s = "system_of \<lparr>pr_server = initial_server, pr_apps = as\<rparr>"
  have "cl_conns (client_of a) = []" if member: "a \<in> set as" for a
  proof -
    obtain now where "Application now = Inr a"
      using assms member by (auto simp: list_all2_conv_all_nth in_set_conv_nth)
    then have "client_create default_client_config = Inr (client_of a)" by (rule Application_client)
    then show ?thesis by (rule client_create_conns)
  qed
  then have "client_end ?s p = None" for p
    by (cases "fst p < length as") (simp_all add: client_end_def system_of_def)
  moreover have "server_end ?s ref = None" for ref
    by (simp add: server_end_def system_of_def initial_server_def new_server_def)
  ultimately show ?thesis
    by (simp add: wires_ok_def end_sends_def end_reads_def no_bytes_def got_def)
qed

lemma sound_program:
  assumes "program_run dump ec_text w nows es p" and "inj_on w (dom w)"
  shows "sound w (system_of p)"
  using program_simulation [OF assms(1)] sound_run assms(2) by blast

text \<open>One step: the network of the programs allows it, and the bytes stay right.\<close>

lemma wire_step_ok:
  assumes ok: "build_ok k" and wire: "inj_on w (dom w)" and sound: "sound w (system_of p)"
    and wires: "wires_ok k w (system_of p) x" and step: "wire_step dump ec_text k w (p, x) e (p', x')"
  shows "case program_part e of
      None \<Rightarrow> p' = p
    | Some e' \<Rightarrow> program_step dump ec_text w p e' p'"
    and "wires_ok k w (system_of p') x'"
proof -
  have "(case program_part e of None \<Rightarrow> p' = p | Some e' \<Rightarrow> program_step dump ec_text w p e' p') \<and>
     wires_ok k w (system_of p') x'"
    using step
  proof cases
    case (server_wire e' v room)
    have p': "system_of p' = (system_of p)\<lparr>sys_server := v\<rparr>" using server_wire(2) by (simp add: system_of_def)
    have "server_step dump (sys_server (system_of p)) e' v" using server_wire(3) by simp
    note step_ok = wires_server [OF ok sound wires this server_wire(4)]
    with server_wire(1-3) p' show ?thesis by (simp add: server_does)
  next
    case (app_wire j e' a room)
    let ?c = "sys_clients (system_of p) ! j"
    have c: "?c = client_of (pr_apps p ! j)" "j < length (sys_clients (system_of p))"
      using app_wire(3) by simp_all
    have p': "system_of p' = (system_of p)\<lparr>sys_clients := (sys_clients (system_of p))[j := client_of a]\<rparr>"
      using app_wire(2) by (simp add: system_of_def map_update)
    show ?thesis
    proof (cases "client_move (pr_apps p ! j) e'")
      case None
      with app_exec_client [OF app_wire(4)] app_wire(5) c(1) have "client_of a = ?c" "x' = x"
        by (simp_all add: app_io_def)
      with p' wires have "wires_ok k w (system_of p') x'" by simp
      with None app_wire show ?thesis by (simp add: app_does)
    next
      case (Some ce)
      with app_exec_client [OF app_wire(4)] app_wire(5) c(1)
      have "client_exec ce ?c = Some (client_of a)" "client_io k w (system_of p) j ce room x = Some x'"
        by (simp_all add: app_io_def)
      note step_ok = wires_client [OF ok wire sound wires c(2) this]
      with Some app_wire p' show ?thesis by (simp add: app_does)
    qed
  next
    case (bytes_out side room)
    with wires_flow [OF wires] show ?thesis by simp
  qed
  then show "case program_part e of None \<Rightarrow> p' = p | Some e' \<Rightarrow> program_step dump ec_text w p e' p'"
    and "wires_ok k w (system_of p') x'" by blast+
qed

lemma wire_run_ok:
  assumes ok: "build_ok k" and wire: "inj_on w (dom w)"
  shows "wire_run dump ec_text k w nows es px \<Longrightarrow>
     program_run dump ec_text w nows (program_events es) (fst px) \<and>
     wires_ok k w (system_of (fst px)) (snd px)"
proof (induction rule: wire_run.induct)
  case (wires_start as)
  then show ?case by (simp add: programs_start wires_ok_start)
next
  case (wires_next es px e px')
  obtain p x p' x' where px: "px = (p, x)" "px' = (p', x')" by fastforce
  with wires_next have run: "program_run dump ec_text w nows (program_events es) p"
    and x: "wires_ok k w (system_of p) x" and step: "wire_step dump ec_text k w (p, x) e (p', x')"
    by simp_all
  note next_ok = wire_step_ok [OF ok wire sound_program [OF run wire] x step]
  have "program_run dump ec_text w nows (program_events (es @ [e])) p'"
    using next_ok(1) run by (cases "program_part e") (simp_all add: programs_next)
  with next_ok(2) px show ?case by simp
qed

section \<open>The limits of the two ends\<close>

definition conn_limits :: "('i, 'o) conn \<Rightarrow> u32 \<times> nat" where
  "conn_limits c = (m_maxMessageBytes c, m_maxQueuedMessages c)"

lemma conn_limits_same: "same_writer c c' \<Longrightarrow> conn_limits c' = conn_limits c"
  by (simp add: same_writer_def conn_limits_def)

lemma conn_limits_step: "conn_step c e c' \<Longrightarrow> conn_limits c' = conn_limits c"
  by (simp add: conn_limits_def conn_step_limit)

lemma created_limit:
  "connection_create cid cfg om oc = Inr c \<Longrightarrow>
     conn_limits (start c) = (maxMessageBytes cfg, maxQueuedMessages cfg)"
  by (auto simp: connection_create_def start_def conn_limits_def split: if_splits)

lemma rq_start_limit:
  "\<exists>ys. fst (snd (rq_start b xs m)) = xs @ ys \<and>
     (\<forall>y \<in> set ys. conn_limits y = (rq_maxMessageBytes m, rq_maxQueuedMessages m))"
  by (auto simp: rq_start_def created_limit split: sum.splits)

text \<open>A new connection of a client has the limit of the request manager.\<close>

lemma client_exec_new:
  assumes exec: "client_exec e c = Some c'" and q: "q < length (cl_conns c')" "length (cl_conns c) \<le> q"
  shows "conn_limits (cl_conns c' ! q) = (rq_maxMessageBytes (m_manager c), rq_maxQueuedMessages (m_manager c))"
proof (cases e)
  case (Connect_done ec)
  let ?c = "c\<lparr>cl_connects := cl_connects c - 1\<rparr>"
  obtain ys where "fst (snd (rq_start True (cl_conns c) (m_manager c))) = cl_conns c @ ys"
    "\<forall>y \<in> set ys. conn_limits y = (rq_maxMessageBytes (m_manager c), rq_maxQueuedMessages (m_manager c))"
    using rq_start_limit by blast
  with connect_resume_conns [of ec c] Connect_done exec q show ?thesis
    by (auto simp: nth_append split: if_splits)
next
  case Call_disconnect
  with exec q show ?thesis
    by (auto simp: disconnect_begin_def rq_stop_def case_prod_unfold Let_def
        split: ConnectionState.splits option.splits)
next
  case (Call_request payload)
  with exec have "request_begin payload c = Some c'" by simp
  then show ?thesis by (cases rule: request_begin_sends) (use q in simp_all)
next
  case (Sender_resumed i)
  then obtain ec where "c' = request_resume i ec c" using exec by (metis sender_resumedD)
  with q show ?thesis by (simp add: request_resume_def case_prod_unfold Let_def)
next
  case (Received ref i)
  with exec have "cl_conns c' = (cl_conns c)[ref := readLoop_handler i (Inr ()) (cl_conns c ! ref)]"
    by (auto simp: client_receive_def split: if_splits read_loop.splits)
  with q show ?thesis by simp
qed (use exec q in \<open>auto simp: connect_begin_def disconnect_resume_def client_connectionClosed_def
      cm_connectionClosed_def Let_def split: if_splits waiter.splits option.splits prod.splits\<close>)

lemma client_run_conn_limit:
  "client_run cfg es c \<Longrightarrow> q < length (cl_conns c) \<Longrightarrow>
     conn_limits (cl_conns c ! q) = (cfg_maxMessageBytes cfg, cfg_maxQueuedMessages cfg)"
proof (induction rule: client_run.induct)
  case (client_start c)
  then show ?case by (simp add: client_create_conns)
next
  case (client_next es c e c')
  show ?case
  proof (cases "q < length (cl_conns c)")
    case True
    then have "conn_limits (cl_conns c' ! q) = conn_limits (cl_conns c ! q)"
      using client_exec_writer [OF client_next(2) True] conn_limits_step conn_limits_same
      by (cases "\<exists>e'. e = Conn_event q e'") blast+
    with client_next.IH [OF True] show ?thesis by simp
  next
    case False
    then have "conn_limits (cl_conns c' ! q) =
        (rq_maxMessageBytes (m_manager c), rq_maxQueuedMessages (m_manager c))"
      using client_exec_new [OF client_next(2,4)] by simp
    with client_run_limits [OF client_next(1)] show ?thesis by (simp add: limits_def)
  qed
qed

lemma server_run_conn_limit:
  "server_run dump es s \<Longrightarrow> ref < length (srv_heap s) \<Longrightarrow>
     conn_limits (srv_heap s ! ref) = (max_message_bytes default_tcp_server_config, 1024)"
proof (induction rule: server_run.induct)
  case server_start
  then show ?case by (simp add: initial_server_def new_server_def)
next
  case (server_next es s e s')
  have inv: "server_inv s" using server_run_inv [OF server_next(1)] .
  show ?case
  proof (cases "ref < length (srv_heap s)")
    case True
    have "conn_limits (srv_heap s' ! ref) = conn_limits (srv_heap s ! ref)"
      using server_step_writer [OF inv server_next(2) True] conn_limits_step conn_limits_same
      by (cases "\<exists>e'. e = Strand ref e'") (fastforce, blast)
    with server_next.IH [OF True] show ?thesis by simp
  next
    case False
    from server_next(2) show ?thesis
    proof cases
      case accepted
      from inv accepted(3) show ?thesis
      proof (cases rule: accept_socket_cases)
        case (new c m)
        with False accepted server_next(4) created_limit [OF new(2)] server_run_config [OF server_next(1)]
        show ?thesis by (auto simp: server_conn_config_def nth_append less_Suc_eq)
      qed (use accepted False server_next(4) in simp)
    next
      case (strand r e' c')
      have "length (srv_heap s') = length (srv_heap s)"
        using run_strand_carries(3) [OF inv strand(3,5,4,2)] .
      with False server_next(4) show ?thesis by simp
    qed (use False server_next(4) conjunct1 [OF for_each_stop] in
      \<open>auto simp: accept_error_def stop_server_def manager_stopAll_def Let_def split: if_splits\<close>)
  qed
qed

section \<open>A pair of ends in a run over bytes\<close>

lemma run_pair:
  assumes run: "wire_run dump ec_text k w nows es (p, x)" and wire: "inj_on w (dom w)" and ok: "build_ok k"
    and pair: "w ref = Some (j, q)" and ref: "ref < length (srv_heap (pr_server p))"
    and j: "j < length (pr_apps p)" and q: "q < length (cl_conns (client_of (pr_apps p ! j)))"
  shows "linked w (system_of p)" and "wires_ok k w (system_of p) x" and "sound w (system_of p)"
    and "server_end (system_of p) ref = Some (srv_heap (pr_server p) ! ref)"
    and "client_end (system_of p) (j, q) = Some (cl_conns (client_of (pr_apps p ! j)) ! q)"
    and "m_maxMessageBytes (srv_heap (pr_server p) ! ref) =
      m_maxMessageBytes (cl_conns (client_of (pr_apps p ! j)) ! q)"
proof -
  have prog: "program_run dump ec_text w nows (program_events es) p" "wires_ok k w (system_of p) x"
    using wire_run_ok [OF ok wire run] by simp_all
  then show "wires_ok k w (system_of p) x" "sound w (system_of p)" using sound_program wire by blast+
  then show "linked w (system_of p)" by (simp add: sound_def)
  show "server_end (system_of p) ref = Some (srv_heap (pr_server p) ! ref)"
    using ref by (simp add: server_end_def)
  show "client_end (system_of p) (j, q) = Some (cl_conns (client_of (pr_apps p ! j)) ! q)"
    using j q by (simp add: client_end_def)
  obtain ses where ses: "system_run dump w (replicate (length nows) default_client_config) ses (system_of p)"
    using program_simulation [OF prog(1)] by blast
  have j': "j < length (sys_clients (system_of p))" using j by simp
  have "replicate (length nows) default_client_config ! j = default_client_config"
    using run_clients [OF ses] j' by simp
  with run_client(1) [OF ses j'] j obtain ces where "client_run default_client_config ces (client_of (pr_apps p ! j))"
    by simp
  with q have "conn_limits (cl_conns (client_of (pr_apps p ! j)) ! q) =
      (cfg_maxMessageBytes default_client_config, cfg_maxQueuedMessages default_client_config)"
    by (intro client_run_conn_limit)
  moreover obtain vs where "server_run dump vs (pr_server p)" using run_server [OF ses] by auto
  with ref have "conn_limits (srv_heap (pr_server p) ! ref) = (max_message_bytes default_tcp_server_config, 1024)"
    by (intro server_run_conn_limit)
  ultimately show "m_maxMessageBytes (srv_heap (pr_server p) ! ref) =
      m_maxMessageBytes (cl_conns (client_of (pr_apps p ! j)) ! q)"
    by (simp add: default_client_config_def default_tcp_server_config_def conn_limits_def)
qed

lemma takes_possible:
  "receive_from host parse d (gone x from_side) (taken x side) = Some (m, n) \<Longrightarrow>
     \<exists>x'. takes host parse (Some d) side from_side m x = Some x'"
  by (simp add: takes_def)

lemma wired_first:
  assumes "inj_on w (dom w)" and "w ref = Some p" and "server_end s ref \<noteq> None"
  shows "\<exists>rest. wired_to w s p = ref # rest"
proof -
  have member: "ref \<in> set (wired_to w s p)" using assms(2,3) by (simp add: wired_to_set)
  then obtain r rest where r: "wired_to w s p = r # rest" by (cases "wired_to w s p") auto
  then have "w r = Some p" using wired_to_set [of r w s p] by simp
  with assms(1,2) have "r = ref" by (metis domI inj_onD)
  with r show ?thesis by simp
qed

lemma server_read_possible:
  assumes run: "wire_run dump ec_text k w nows es (p, x)" and wire: "inj_on w (dom w)" and ok: "build_ok k"
    and "w ref = Some (j, q)" and "ref < length (srv_heap (pr_server p))"
    and "j < length (pr_apps p)" and "q < length (cl_conns (client_of (pr_apps p ! j)))"
    and d: "d = srv_heap (pr_server p) ! ref" and c: "c = cl_conns (client_of (pr_apps p ! j)) ! q"
    and more: "length (delivered d) < length (written c)"
    and i: "i < length (read_loops d)" "read_loops d ! i = Read_awaits_message"
  shows "\<exists>px. wire_step dump ec_text k w (p, x)
     (Server_wire (Strand ref (Message_read i (Inr (written c ! length (delivered d))))) room) px"
proof -
  note pair = run_pair [OF assms(1-7), folded c d]
  have "sends_ok (serialize_client k) c (ended x (Client_side (j, q))) (gone x (Client_side (j, q)))"
    using wires_okD(2) [OF pair(2), of "(j, q)"] by (simp add: pair(5) end_sends_def)
  moreover have "reads_ok (frames_by (serialize_client k) c) (delivered d) (gone x (Client_side (j, q)))
      (taken x (Server_side ref))"
    using wires_okD(3) [OF pair(2) assms(4)] by (simp add: pair(4,5) end_reads_def)
  moreover have "prefix (delivered d) (stream c)" using linkedD(1) [OF pair(1) assms(4)] by (simp add: pair(4,5))
  moreover have "protobuf_ok (serialize_client k) (parse_client k)" using ok by (simp add: build_ok_def)
  moreover have "m_maxMessageBytes c \<le> m_maxMessageBytes d" using pair(6) by simp
  ultimately obtain n where "receive_from (server_host k) (parse_client k) d (gone x (Client_side (j, q)))
      (taken x (Server_side ref)) = Some (written c ! length (delivered d), n)"
    using receive_written more by blast
  from takes_possible [where side = "Server_side ref", OF this] obtain x' where
    "takes (server_host k) (parse_client k) (Some d) (Server_side ref) (Client_side (j, q))
       (written c ! length (delivered d)) x = Some x'"
    by blast
  then have "server_io k w (system_of p) (Strand ref (Message_read i (Inr (written c ! length (delivered d))))) room x = Some x'"
    using assms(4) by (simp add: pair(4))
  moreover obtain v where "server_step dump (pr_server p) (Strand ref (Message_read i (Inr (written c ! length (delivered d))))) v"
    using strand [OF assms(5) _ message_read] i d by fastforce
  ultimately show ?thesis by (blast intro: server_wire)
qed

lemma client_read_possible:
  assumes run: "wire_run dump ec_text k w nows es (p, x)" and wire: "inj_on w (dom w)" and ok: "build_ok k"
    and "w ref = Some (j, q)" and "ref < length (srv_heap (pr_server p))"
    and "j < length (pr_apps p)" and "q < length (cl_conns (client_of (pr_apps p ! j)))"
    and d: "d = srv_heap (pr_server p) ! ref" and c: "c = cl_conns (client_of (pr_apps p ! j)) ! q"
    and more: "length (delivered c) < length (written d)"
    and i: "i < length (read_loops c)" "read_loops c ! i = Read_awaits_message"
  shows "\<exists>px. wire_step dump ec_text k w (p, x)
     (App_wire j (Work (Client_step (Conn_event q (Message_read i (Inr (written d ! length (delivered c))))))) room) px"
proof -
  let ?e = "Conn_event q (Message_read i (Inr (written d ! length (delivered c))))"
  note pair = run_pair [OF assms(1-7), folded c d]
  have "sends_ok (serialize_server k) d (ended x (Server_side ref)) (gone x (Server_side ref))"
    using wires_okD(1) [OF pair(2), of ref] by (simp add: pair(4) end_sends_def)
  moreover have "reads_ok (frames_by (serialize_server k) d) (delivered c) (gone x (Server_side ref))
      (taken x (Client_side (j, q)))"
    using wires_okD(4) [OF pair(2) assms(4)] by (simp add: pair(4,5) end_reads_def)
  moreover have "prefix (delivered c) (stream d)" using linkedD(2) [OF pair(1) assms(4)] by (simp add: pair(4,5))
  moreover have "protobuf_ok (serialize_server k) (parse_server k)" using ok by (simp add: build_ok_def)
  moreover have "m_maxMessageBytes d \<le> m_maxMessageBytes c" using pair(6) by simp
  ultimately obtain n where "receive_from (client_host k) (parse_server k) c (gone x (Server_side ref))
      (taken x (Client_side (j, q))) = Some (written d ! length (delivered c), n)"
    using receive_written more by blast
  from takes_possible [where side = "Client_side (j, q)", OF this] obtain x' where
    x': "takes (client_host k) (parse_server k) (Some c) (Client_side (j, q)) (Server_side ref)
       (written d ! length (delivered c)) x = Some x'"
    by blast
  obtain rest where "wired_to w (system_of p) (j, q) = ref # rest"
    using wired_first [OF wire assms(4)] pair(4) by blast
  with x' have io: "client_io k w (system_of p) j ?e room x = Some x'" by (simp add: pair(5))
  obtain c' where "conn_exec (Message_read i (Inr (written d ! length (delivered c)))) c = Some c'"
    using i by simp
  then have "client_exec ?e (client_of (pr_apps p ! j)) = Some (client_settle q c' (client_of (pr_apps p ! j)))"
    using assms(7) c by simp
  then obtain a where "app_exec ec_text (Work (Client_step ?e)) (pr_apps p ! j) = Some a"
    by (simp add: worker_step_def client_of_def)
  moreover have "app_io k w p j (Work (Client_step ?e)) room x = Some x'" using io by (simp add: app_io_def)
  ultimately show ?thesis using assms(6) by (blast intro: app_wire)
qed

section \<open>Running the programs over bytes\<close>

fun wire_exec ::
  "(json \<Rightarrow> string result) \<Rightarrow> (error_code \<Rightarrow> string) \<Rightarrow> build \<Rightarrow> wiring \<Rightarrow> wire_event \<Rightarrow>
     program \<times> wires \<Rightarrow> (program \<times> wires) option" where
  "wire_exec dump ec_text k w (Server_wire e room) (p, x) =
     (case server_exec dump e (pr_server p) of
        None \<Rightarrow> None
      | Some v \<Rightarrow> map_option (\<lambda>x'. (p\<lparr>pr_server := v\<rparr>, x')) (server_io k w (system_of p) e room x))"
| "wire_exec dump ec_text k w (App_wire j e room) (p, x) =
     (if j < length (pr_apps p)
      then (case app_exec ec_text e (pr_apps p ! j) of
              None \<Rightarrow> None
            | Some a \<Rightarrow> map_option (\<lambda>x'. (p\<lparr>pr_apps := (pr_apps p)[j := a]\<rparr>, x')) (app_io k w p j e room x))
      else None)"
| "wire_exec dump ec_text k w (Bytes_out side room) (p, x) =
     map_option (\<lambda>x'. (p, x')) (flow k (system_of p) side room x)"

lemma wire_exec_step:
  "wire_exec dump ec_text k w e px = Some px' \<Longrightarrow> wire_step dump ec_text k w px e px'"
  by (cases "(dump, ec_text, k, w, e, px)" rule: wire_exec.cases)
    (auto simp del: server_exec.simps app_exec.simps server_io.simps flow.simps split: if_splits option.splits
      intro: wire_step.intros server_exec_step)

interpretation wire_trace:
  traced_machine "wire_exec dump ec_text k w" "wire_run dump ec_text k w nows" for dump ec_text k w nows
  by unfold_locales (rule wires_next [OF _ wire_exec_step])

text \<open>The limit is compared as an integer, which evaluates in binary.\<close>

lemma write_frame_code [code]:
  "write_frame encode max_size data s =
     (if uint max_size < int (length data)
      then (Inl (Runtime_error ''Serialized server message is bigger than max_message_size''), s)
      else case encode (word_of_nat (length data)) of
             Inl x \<Rightarrow> (Inl x, s)
           | Inr p \<Rightarrow>
               (case async_write (prefix_bytes p) s of
                  (Inl x, s1) \<Rightarrow> (Inl x, s1)
                | (Inr _, s1) \<Rightarrow> async_write data s1))"
proof -
  have "unat max_size < length data \<longleftrightarrow> uint max_size < int (length data)"
    by (metis of_nat_less_iff of_nat_unat)
  then show ?thesis by (simp add: write_frame_def)
qed

text \<open>
  The run of \<open>Program\<close>, the server on a big endian and the client on a little endian host, over
  messages that serialise to one byte. Every message goes out in two pieces, the first of which
  ends within the length prefix.
\<close>

definition sample_serialize :: "'m \<Rightarrow> 'm \<Rightarrow> 'm \<Rightarrow> bytes option" where
  "sample_serialize a b m = (if m = a then Some [1] else if m = b then Some [2] else None)"

definition sample_parse :: "'m \<Rightarrow> 'm \<Rightarrow> bytes \<Rightarrow> int \<Rightarrow> 'm option" where
  "sample_parse a b data n =
     (if take (nat n) data = [1] then Some a else if take (nat n) data = [2] then Some b else None)"

lemma sample_protobuf: "protobuf_ok (sample_serialize a b) (sample_parse a b)"
  by (auto simp: protobuf_ok_def sample_serialize_def sample_parse_def split: if_splits)

definition sample_build :: build where
  "sample_build =
     (let a = (request_message (Ping \<lparr>ping_timestamp = 42\<rparr>))\<lparr>client_request_id := 1\<rparr>;
          b = (request_message StateSnapshot)\<lparr>client_request_id := 2\<rparr>
      in \<lparr>serialize_client = sample_serialize a b, parse_client = sample_parse a b,
          serialize_server = sample_serialize sample_pong sample_snapshot,
          parse_server = sample_parse sample_pong sample_snapshot,
          server_host = Big_endian, client_host = Little_endian\<rparr>)"

lemma sample_build_ok: "build_ok sample_build"
  by (simp add: build_ok_def sample_build_def sample_protobuf Let_def)

fun sample_wire :: "program_event \<Rightarrow> wire_event list" where
  "sample_wire (Server_does (Strand ref (Message_read i (Inr m)))) =
     [Bytes_out (Client_side (0, 0)) 3, Bytes_out (Client_side (0, 0)) 5,
      Server_wire (Strand ref (Message_read i (Inr m))) 0]"
| "sample_wire (App_does j (Work (Client_step (Conn_event q (Message_read i (Inr m)))))) =
     [Bytes_out (Server_side 0) 3, Bytes_out (Server_side 0) 5,
      App_wire j (Work (Client_step (Conn_event q (Message_read i (Inr m))))) 0]"
| "sample_wire (Server_does e) = [Server_wire e 5]"
| "sample_wire (App_does j e) = [App_wire j e 5]"

definition sample_wire_events :: "wire_event list" where
  "sample_wire_events = concat (map sample_wire sample_program_events)"

definition sample_start :: "program \<times> wires" where
  "sample_start = (\<lparr>pr_server = initial_server, pr_apps = [sample_app]\<rparr>, no_bytes)"

abbreviation sample_runs :: "wire_event list \<Rightarrow> (program \<times> wires) option" where
  "sample_runs es \<equiv> runs (wire_exec sample_dump (\<lambda>_. []) sample_build sample_wiring) es sample_start"

definition sample_wires :: "program \<times> wires" where
  "sample_wires = the (sample_runs sample_wire_events)"

text \<open>The state in which the ping has been written and the server waits for it.\<close>

definition sample_written_events :: "wire_event list" where
  "sample_written_events =
     concat (map sample_wire (take 15 sample_program_events)) @
     [App_wire 0 (Work (Client_step (Conn_event 0 (Message_written 0 (Inr ()))))) 5]"

definition sample_written :: "program \<times> wires" where
  "sample_written = the (sample_runs sample_written_events)"

lemma sample_start_run:
  "sample_runs es = Some px \<Longrightarrow>
     wire_run sample_dump (\<lambda>_. []) sample_build sample_wiring [''12:00:00''] es px"
proof -
  have "wire_run sample_dump (\<lambda>_. []) sample_build sample_wiring [''12:00:00''] [] sample_start"
    unfolding sample_start_def by (intro wires_start) (simp add: sample_app_create)
  then show "sample_runs es = Some px \<Longrightarrow> ?thesis" using wire_trace.runs_reached by fastforce
qed

lemma sample_wires_bytes:
  "map_option (\<lambda>(p, x). (map (\<lambda>a. el_added (m_eventLog (app_console a))) (pr_apps p),
       length (srv_heap (pr_server p)), map (\<lambda>a. length (cl_conns (client_of a))) (pr_apps p),
       gone x (Client_side (0, 0)), gone x (Server_side 0), taken x (Server_side 0), taken x (Client_side (0, 0))))
     (sample_runs sample_wire_events) =
   Some ([[(''12:00:00'', ''Ready''), (''12:00:01'', ''Connecting to 127.0.0.1:1234''),
     (''12:00:02'', ''Connected''), (''12:00:03'', ''Sending ping''), (''12:00:04'', ''Pong: 42''),
     (''12:00:05'', ''Sending state snapshot''), (''12:00:06'', ''State snapshot: {}'')]],
     1, [1], [0, 0, 0, 1, 1, 0, 0, 0, 1, 2], [0, 0, 0, 1, 1, 0, 0, 0, 1, 2], 10, 10)"
  by code_simp

lemma sample_written_loops:
  "map_option (\<lambda>(p, x). (map (\<lambda>c. (length (delivered c), length (read_loops c), read_loops c ! 0 = Read_awaits_message))
        (srv_heap (pr_server p)),
       map (\<lambda>a. map (\<lambda>c. length (written c)) (cl_conns (client_of a))) (pr_apps p)))
     (sample_runs sample_written_events) = Some ([(0, 1, True)], [[1]])"
  by code_simp

lemma sample_wires_run:
  "wire_run sample_dump (\<lambda>_. []) sample_build sample_wiring [''12:00:00''] sample_wire_events sample_wires"
  using sample_wires_bytes by (intro sample_start_run) (auto simp: sample_wires_def)

lemma sample_written_run:
  "wire_run sample_dump (\<lambda>_. []) sample_build sample_wiring [''12:00:00''] sample_written_events sample_written"
  using sample_written_loops by (intro sample_start_run) (auto simp: sample_written_def)

lemma sample_wires_ends:
  "length (srv_heap (pr_server (fst sample_wires))) = 1" "length (pr_apps (fst sample_wires)) = 1"
  "length (cl_conns (m_client (app_network (pr_apps (fst sample_wires) ! 0)))) = 1"
  "gone (snd sample_wires) (Client_side (0, 0)) = [0, 0, 0, 1, 1, 0, 0, 0, 1, 2]"
  "taken (snd sample_wires) (Server_side 0) = 10"
  using sample_wires_bytes by (auto simp: sample_wires_def client_of_def map_eq_Cons_conv)

lemma sample_wired: "sample_wiring 0 = Some (0, 0)"
  by (simp add: sample_wiring_def)

lemma sample_written_ends:
  "length (srv_heap (pr_server (fst sample_written))) = 1" "length (pr_apps (fst sample_written)) = 1"
  "length (cl_conns (m_client (app_network (pr_apps (fst sample_written) ! 0)))) = 1"
  "delivered (srv_heap (pr_server (fst sample_written)) ! 0) = []"
  "length (written (cl_conns (m_client (app_network (pr_apps (fst sample_written) ! 0))) ! 0)) = 1"
  "length (read_loops (srv_heap (pr_server (fst sample_written)) ! 0)) = 1"
  "read_loops (srv_heap (pr_server (fst sample_written)) ! 0) ! 0 = Read_awaits_message"
  using sample_written_loops by (auto simp: sample_written_def client_of_def map_eq_Cons_conv)

section \<open>Properties\<close>

text \<open>
  C1: the programs work over bytes. If protobuf parses what it serialised and no two server
  connections are joined to the same client connection, every run of the programs over bytes,
  whatever pieces the sockets take and wherever a write breaks off, is a run of the programs over
  the network of messages, with the same state of the programs: a message is read only whole,
  unchanged, after those written before it, and once.
\<close>

theorem program_over_bytes:
  assumes "wire_run dump ec_text k w nows es (p, x)" and "inj_on w (dom w)" and "build_ok k"
  shows "program_run dump ec_text w nows (program_events es) p"
  using wire_run_ok [OF assms(3,2,1)] by simp

theorem program_over_bytes_witness:
  "gone (snd sample_wires) (Client_side (0, 0)) = [0, 0, 0, 1, 1, 0, 0, 0, 1, 2] \<and>
   program_run sample_dump (\<lambda>_. []) sample_wiring [''12:00:00''] (program_events sample_wire_events) (fst sample_wires)"
  using program_over_bytes [OF _ sample_wiring_inj sample_build_ok] sample_wires_run sample_wires_ends(4)
  by (metis prod.collapse)

text \<open>
  C8: the bytes are the frames. In every run of the programs over bytes, what a connection has
  put on its socket begins with the frames of the messages it has written, in order, and what
  the other end has taken of it are exactly the frames of the messages it delivered: no reader
  gets out of step with the frames, in either direction.
\<close>

theorem bytes_are_frames:
  assumes "wire_run dump ec_text k w nows es (p, x)" and "inj_on w (dom w)" and "build_ok k"
    and "w ref = Some (j, q)" and "ref < length (srv_heap (pr_server p))" and "j < length (pr_apps p)"
    and "q < length (cl_conns (m_client (app_network (pr_apps p ! j))))"
  shows "let d = srv_heap (pr_server p) ! ref; c = cl_conns (m_client (app_network (pr_apps p ! j))) ! q;
      up = gone x (Client_side (j, q)); down = gone x (Server_side ref);
      requests = enc (frames_by (serialize_client k) c); responses = enc (frames_by (serialize_server k) d)
    in prefix (requests (written c)) up \<and> take (taken x (Server_side ref)) up = requests (delivered d) \<and>
       prefix (responses (written d)) down \<and> take (taken x (Client_side (j, q))) down = responses (delivered c)"
proof -
  note pair = run_pair [OF assms(1-6) assms(7) [folded client_of_def]]
  note ends = pair(4,5)
  note ok = wires_okD(1,2) [OF pair(2)] wires_okD(3,4) [OF pair(2) assms(4)]
  note link = linkedD(1,2) [OF pair(1) assms(4)]
  note loops = sound_server_end(2) [OF pair(3) ends(1)] sound_client_end(2) [OF pair(3) ends(2)]
  have up: "sends_ok (serialize_client k) (cl_conns (client_of (pr_apps p ! j)) ! q)
      (ended x (Client_side (j, q))) (gone x (Client_side (j, q)))"
    using ok(2) [of "(j, q)"] by (simp add: ends end_sends_def)
  have down: "sends_ok (serialize_server k) (srv_heap (pr_server p) ! ref)
      (ended x (Server_side ref)) (gone x (Server_side ref))"
    using ok(1) [of ref] by (simp add: ends end_sends_def)
  show ?thesis
    using bytes_taken [OF up _ _ loops(2)] bytes_taken [OF down _ _ loops(1)] bytes_gone [OF up] bytes_gone [OF down]
      ok(3,4) link
    by (auto simp: ends end_reads_def Let_def client_of_def [symmetric])
qed

theorem bytes_are_frames_witness:
  "let p = fst sample_wires; d = srv_heap (pr_server p) ! 0; c = cl_conns (m_client (app_network (pr_apps p ! 0))) ! 0
   in [0, 0, 0, 1, 1, 0, 0, 0, 1, 2] = enc (frames_by (serialize_client sample_build) c) (delivered d)"
proof -
  have "wire_run sample_dump (\<lambda>_. []) sample_build sample_wiring [''12:00:00''] sample_wire_events
      (fst sample_wires, snd sample_wires)"
    using sample_wires_run by simp
  from bytes_are_frames [OF this sample_wiring_inj sample_build_ok sample_wired] show ?thesis
    by (simp add: sample_wires_ends Let_def)
qed

text \<open>
  C9: what has been written can be read. In every run of the programs over bytes, if one end of a
  connection has written more messages than the other has delivered, and the other waits for a
  message, then the step that reads the next of them is possible: its whole frame has arrived, its
  length is within the reader's limit, and \<open>readMessage\<close> makes the message of it.
\<close>

theorem whole_frames_are_read:
  assumes "wire_run dump ec_text k w nows es (p, x)" and "inj_on w (dom w)" and "build_ok k"
    and "w ref = Some (j, q)" and "ref < length (srv_heap (pr_server p))" and "j < length (pr_apps p)"
    and "q < length (cl_conns (m_client (app_network (pr_apps p ! j))))"
  shows "let d = srv_heap (pr_server p) ! ref; c = cl_conns (m_client (app_network (pr_apps p ! j))) ! q
    in (length (delivered d) < length (written c) \<and> i < length (read_loops d) \<and>
          read_loops d ! i = Read_awaits_message \<longrightarrow>
        (\<exists>px. wire_step dump ec_text k w (p, x)
           (Server_wire (Strand ref (Message_read i (Inr (written c ! length (delivered d))))) room) px)) \<and>
       (length (delivered c) < length (written d) \<and> i < length (read_loops c) \<and>
          read_loops c ! i = Read_awaits_message \<longrightarrow>
        (\<exists>px. wire_step dump ec_text k w (p, x)
           (App_wire j (Work (Client_step (Conn_event q (Message_read i (Inr (written d ! length (delivered c))))))) room)
           px))"
  using server_read_possible [OF assms(1-6) assms(7) [folded client_of_def]]
    client_read_possible [OF assms(1-6) assms(7) [folded client_of_def]]
  by (simp add: Let_def client_of_def)

theorem whole_frames_are_read_witness:
  "let p = fst sample_written; c = cl_conns (m_client (app_network (pr_apps p ! 0))) ! 0
   in \<exists>px. wire_step sample_dump (\<lambda>_. []) sample_build sample_wiring sample_written
       (Server_wire (Strand 0 (Message_read 0 (Inr (written c ! 0)))) 0) px"
proof -
  have "wire_run sample_dump (\<lambda>_. []) sample_build sample_wiring [''12:00:00''] sample_written_events
      (fst sample_written, snd sample_written)"
    using sample_written_run by simp
  from whole_frames_are_read [OF this sample_wiring_inj sample_build_ok sample_wired, of 0 0] show ?thesis
    by (simp add: sample_written_ends Let_def del: length_greater_0_conv)
qed

end
