(* ===== verification/Progress.thy ===== *)
theory Progress
  imports Wire_Program
begin

text \<open>
  What can still happen: from any state of the programs in which the two ends of a connection are
  open and not told to stop, a schedule of the two connections alone, with a network that takes
  and delivers what is written, brings every request that has been sent to the server, and every
  response to it back to the client.
\<close>

section \<open>A connection sends what it has been given\<close>

text \<open>The events of a schedule that runs what was posted and writes the queue, all writes succeeding.\<close>

definition flushing :: "('i, 'o) conn_event \<Rightarrow> bool" where
  "flushing e \<longleftrightarrow> e = Run_post \<or> e = Run_writer 0 \<or> e = Message_written 0 (Inr ())"

definition outstanding :: "('i, 'o) conn \<Rightarrow> 'o list" where
  "outstanding c = written c @ in_flight c @ m_writeQueue c @ pending_sends c"

text \<open>A connection with nothing left to send.\<close>

definition flushed :: "('i, 'o) conn \<Rightarrow> ('i, 'o) conn \<Rightarrow> bool" where
  "flushed c c' \<longleftrightarrow>
     \<not> m_closed c' \<and> posts c' = [] \<and> write_loops c' = [] \<and> m_writeQueue c' = [] \<and>
     written c' = outstanding c \<and> delivered c' = delivered c \<and>
     (m_started c \<longrightarrow> m_started c' \<and> read_loops c' = read_loops c)"

lemma flush_open:
  "conn_inv c \<Longrightarrow> \<not> m_closed c \<Longrightarrow> Post_stop \<notin> set (posts c) \<Longrightarrow> 0 < m_maxQueuedMessages c \<Longrightarrow>
     \<exists>es c'. list_all flushing es \<and> conn_execs es c = Some c' \<and> flushed c c'"
proof (induction "posts c" arbitrary: c)
  case Nil
  from drain_open [OF Nil(2,3)] obtain es where "set es \<subseteq> {Run_writer 0, Message_written 0 (Inr ())}"
    "conn_execs es c = Some (c\<lparr>m_writeQueue := [], m_writing := False, write_loops := [],
       written := written c @ in_flight c @ m_writeQueue c\<rparr>)"
    by blast
  with Nil show ?case
    by (intro exI [of _ es] exI) (auto simp: flushed_def outstanding_def pending_sends_def flushing_def list_all_iff)
next
  case (Cons p ps)
  let ?c = "c\<lparr>m_writeQueue := [], m_writing := False, write_loops := [],
       written := written c @ in_flight c @ m_writeQueue c\<rparr>"
  let ?c2 = "run_post p (?c\<lparr>posts := ps\<rparr>)"
  from drain_open [OF Cons(3,4)] obtain es where es: "set es \<subseteq> {Run_writer 0, Message_written 0 (Inr ())}"
    "conn_execs es c = Some ?c"
    by blast
  have run: "conn_execs (es @ [Run_post]) c = Some ?c2"
    using es(2) Cons(2) [symmetric] by (simp add: runs_append)
  have inv: "conn_inv ?c2"
    using conn_run_inv [of c "es @ [Run_post]" ?c2] run Cons(3) by (simp add: conn_run_iff_execs)
  have p: "p \<noteq> Post_stop" "Post_stop \<notin> set ps" using Cons(2) [symmetric] Cons(5) by auto
  have c2: "\<not> m_closed ?c2" "posts ?c2 = ps" "0 < m_maxQueuedMessages ?c2"
      "outstanding ?c2 = outstanding c" "delivered ?c2 = delivered c"
      "m_started c \<Longrightarrow> m_started ?c2 \<and> read_loops ?c2 = read_loops c"
    using p Cons(2) [symmetric] Cons(4,6)
    by (cases p; simp add: startImpl_def sendImpl_def outstanding_def pending_sends_def in_flight_def Let_def)+
  obtain fs c' where fs: "list_all flushing fs" "conn_execs fs ?c2 = Some c'" "flushed ?c2 c'"
    using Cons(1) [of ?c2] inv c2 p(2) by auto
  have "conn_execs (es @ Run_post # fs) c = Some c'"
    using es(2) fs(2) Cons(2) [symmetric] by (simp add: runs_append)
  moreover have "list_all flushing (es @ Run_post # fs)"
    using es(1) fs(1) by (auto simp: flushing_def list_all_iff)
  moreover have "flushed c c'" using fs(3) c2 by (auto simp: flushed_def)
  ultimately show ?case by blast
qed

section \<open>Schedules of one pair of connections\<close>

definition pair_event :: "conn_ref \<Rightarrow> nat \<Rightarrow> nat \<Rightarrow> system_event \<Rightarrow> bool" where
  "pair_event ref j q e \<longleftrightarrow>
     (\<exists>e'. e = At_server (Strand ref e')) \<or> (\<exists>e'. e = At_client j (Conn_event q e')) \<or>
     (\<exists>i. e = At_client j (Received q i))"

text \<open>\<open>leads\<close>: a schedule of the pair takes a reachable state to another.\<close>

definition leads ::
  "(json \<Rightarrow> string result) \<Rightarrow> wiring \<Rightarrow> client_config list \<Rightarrow> conn_ref \<Rightarrow> nat \<Rightarrow> nat \<Rightarrow> system \<Rightarrow> system \<Rightarrow>
     bool" where
  "leads dump w cfgs ref j q s s' \<longleftrightarrow>
     (\<exists>es. system_run dump w cfgs es s) \<and>
     (\<exists>fs. list_all (pair_event ref j q) fs \<and> system_path dump w s fs s')"

lemma system_path_trans:
  "system_path dump w s1 fs s2 \<Longrightarrow> system_path dump w s es s1 \<Longrightarrow> system_path dump w s (es @ fs) s2"
proof (induction rule: system_path.induct)
  case (path_next fs s2 e s')
  from system_path.path_next [OF path_next.IH [OF path_next.prems] path_next(2)] show ?case by simp
qed simp

lemma system_run_path:
  "system_run dump w cfgs es s \<Longrightarrow> system_path dump w s fs s' \<Longrightarrow> system_run dump w cfgs (es @ fs) s'"
  by (auto elim!: system_run.cases intro: run_from system_path_trans)

lemma leads_refl: "system_run dump w cfgs es s \<Longrightarrow> leads dump w cfgs ref j q s s"
  unfolding leads_def by (metis list.pred_inject(1) path_here)

lemma leads_run: "leads dump w cfgs ref j q s s' \<Longrightarrow> \<exists>es. system_run dump w cfgs es s'"
  unfolding leads_def using system_run_path by blast

lemma leads_trans:
  "leads dump w cfgs ref j q s s1 \<Longrightarrow> leads dump w cfgs ref j q s1 s2 \<Longrightarrow> leads dump w cfgs ref j q s s2"
  unfolding leads_def using system_path_trans by (metis list_all_append)

lemma leads_next:
  assumes "leads dump w cfgs ref j q s s1" and "system_step dump w s1 e s2" and "pair_event ref j q e"
  shows "leads dump w cfgs ref j q s s2"
proof -
  obtain fs where fs: "list_all (pair_event ref j q) fs" "system_path dump w s fs s1"
    using assms(1) by (auto simp: leads_def)
  have "system_path dump w s (fs @ [e]) s2" using path_next [OF fs(2) assms(2)] .
  moreover have "list_all (pair_event ref j q) (fs @ [e])" using fs(1) assms(3) by simp
  ultimately show ?thesis using assms(1) unfolding leads_def by blast
qed

lemma leads_one:
  "system_run dump w cfgs es s \<Longrightarrow> system_step dump w s e s' \<Longrightarrow> pair_event ref j q e \<Longrightarrow>
     leads dump w cfgs ref j q s s'"
  using leads_next [OF leads_refl] by blast

text \<open>The connections of the pair, and replacing one of them.\<close>

abbreviation server_conn_at :: "conn_ref \<Rightarrow> system \<Rightarrow> server_conn" where
  "server_conn_at ref s \<equiv> srv_heap (sys_server s) ! ref"

abbreviation client_conn_at :: "nat \<Rightarrow> nat \<Rightarrow> system \<Rightarrow> client_conn" where
  "client_conn_at j q s \<equiv> cl_conns (sys_clients s ! j) ! q"

definition put_server_conn :: "conn_ref \<Rightarrow> server_conn \<Rightarrow> system \<Rightarrow> system" where
  "put_server_conn ref d s =
     s\<lparr>sys_server := (sys_server s)\<lparr>srv_heap := (srv_heap (sys_server s))[ref := d]\<rparr>\<rparr>"

definition put_client_conn :: "nat \<Rightarrow> nat \<Rightarrow> client_conn \<Rightarrow> system \<Rightarrow> system" where
  "put_client_conn j q c s =
     s\<lparr>sys_clients := (sys_clients s)[j := (sys_clients s ! j)\<lparr>cl_conns := (cl_conns (sys_clients s ! j))[q := c]\<rparr>]\<rparr>"

definition pair_there :: "conn_ref \<Rightarrow> nat \<Rightarrow> nat \<Rightarrow> system \<Rightarrow> bool" where
  "pair_there ref j q s \<longleftrightarrow>
     ref < length (srv_heap (sys_server s)) \<and> j < length (sys_clients s) \<and> q < length (cl_conns (sys_clients s ! j))"

lemma put_conn_simps [simp]:
  "pair_there ref j q (put_server_conn ref d s) = pair_there ref j q s"
  "sys_clients (put_server_conn ref d s) = sys_clients s"
  "pair_there ref j q s \<Longrightarrow> server_conn_at ref (put_server_conn ref d s) = d"
  "srv_manager (sys_server (put_server_conn ref d s)) = srv_manager (sys_server s)"
  "srv_service (sys_server (put_server_conn ref d s)) = srv_service (sys_server s)"
  "put_server_conn ref d2 (put_server_conn ref d s) = put_server_conn ref d2 s"
  "pair_there ref j q (put_client_conn j q c s) = pair_there ref j q s"
  "sys_server (put_client_conn j q c s) = sys_server s"
  "pair_there ref j q s \<Longrightarrow> client_conn_at j q (put_client_conn j q c s) = c"
  "pair_there ref j q s \<Longrightarrow> put_client_conn j q c2 (put_client_conn j q c s) = put_client_conn j q c2 s"
  by (auto simp: put_server_conn_def put_client_conn_def pair_there_def nth_list_update)

lemma put_same [simp]:
  "put_server_conn ref (server_conn_at ref s) s = s" "put_client_conn j q (client_conn_at j q s) s = s"
  by (simp_all add: put_server_conn_def put_client_conn_def)

section \<open>Steps of the pair that close nothing\<close>

lemma conn_open_step:
  assumes "conn_inv c" and "conn_step c e c'" and "\<not> m_closed c'"
  shows "closed_calls c' = closed_calls c" and "\<not> m_closed c"
proof -
  have "conn_inv c'" using conn_step_inv assms(1,2) by blast
  moreover show "\<not> m_closed c" using later_step [OF assms(2,1)] assms(3) by (auto simp: later_def)
  ultimately show "closed_calls c' = closed_calls c" using assms(1,3) by (simp add: conn_inv_defs)
qed

lemma conn_execs_open:
  "conn_execs es c = Some c' \<Longrightarrow> conn_inv c \<Longrightarrow> \<not> m_closed c' \<Longrightarrow> \<not> m_closed c"
  using conn_run_closed [of c es c'] conn_run_iff_execs [of c es c'] by (auto simp: closed_extends_def)

lemma pair_inv:
  assumes "system_run dump w cfgs es s" and "pair_there ref j q s"
  shows "server_inv (sys_server s)" and "link_inv (sys_clients s ! j)"
    and "conn_inv (server_conn_at ref s)" and "conn_inv (client_conn_at j q s)"
  using assms run_server_inv [OF assms(1)] client_run_link [OF run_client(1) [OF assms(1)]]
  by (auto simp: pair_there_def server_invD heap_invD link_invD)

text \<open>A step of the server's connection that neither reads a message nor fails to write one.\<close>

fun undisturbed :: "('i, 'o) conn_event \<Rightarrow> bool" where
  "undisturbed Run_post = True"
| "undisturbed (Run_reader i) = True"
| "undisturbed (Run_writer i) = True"
| "undisturbed (Message_written i (Inr u)) = True"
| "undisturbed _ = False"

lemma flushing_quiet: "flushing e \<Longrightarrow> undisturbed e"
  by (auto simp: flushing_def)

lemma server_quiet_step:
  assumes run: "system_run dump w cfgs es s" and there: "pair_there ref j q s"
    and step: "conn_step (server_conn_at ref s) e d" and "undisturbed e" and "\<not> m_closed d"
  shows "leads dump w cfgs ref j q s (put_server_conn ref d s)"
proof -
  note open_step = conn_open_step [OF pair_inv(3) [OF run there] step assms(5)]
  have "run_strand dump ref e d (sys_server s) = settle ref d (sys_server s)"
    using assms(4) by (cases e rule: undisturbed.cases) simp_all
  also have "\<dots> = (sys_server s)\<lparr>srv_heap := (srv_heap (sys_server s))[ref := d]\<rparr>"
    using open_step(1) by (simp add: settle_def)
  finally have v: "run_strand dump ref e d (sys_server s) = sys_server (put_server_conn ref d s)"
    by (simp add: put_server_conn_def)
  have "strand_event e" "server_network w s (Strand ref e)"
    using assms(4) by (cases e rule: undisturbed.cases; simp)+
  with there step have "system_step dump w s (At_server (Strand ref e)) (s\<lparr>sys_server := sys_server (put_server_conn ref d s)\<rparr>)"
    unfolding v [symmetric] by (intro server_moves strand) (simp_all add: pair_there_def)
  then show ?thesis
    by (intro leads_one [OF run]) (auto simp: put_server_conn_def pair_event_def)
qed

lemma client_quiet_step:
  assumes run: "system_run dump w cfgs es s" and there: "pair_there ref j q s"
    and step: "conn_step (client_conn_at j q s) e c" and "undisturbed e" and "\<not> m_closed c"
  shows "leads dump w cfgs ref j q s (put_client_conn j q c s)"
proof -
  note open_step = conn_open_step [OF pair_inv(4) [OF run there] step assms(5)]
  have "conn_internal e" "client_network w s j (Conn_event q e)"
    using assms(4) by (cases e rule: undisturbed.cases; simp)+
  moreover have "client_settle q c (sys_clients s ! j) = (sys_clients s ! j)\<lparr>cl_conns := (cl_conns (sys_clients s ! j))[q := c]\<rparr>"
    using open_step(1) by (simp add: client_settle_def)
  ultimately have "client_exec (Conn_event q e) (sys_clients s ! j) =
      Some ((sys_clients s ! j)\<lparr>cl_conns := (cl_conns (sys_clients s ! j))[q := c]\<rparr>)"
    using there step by (simp add: conn_step_iff_exec pair_there_def)
  from client_moves [OF _ this \<open>client_network w s j (Conn_event q e)\<close>] there show ?thesis
    by (intro leads_one [OF run]) (auto simp: put_client_conn_def pair_event_def pair_there_def)
qed

text \<open>Schedules of undisturbed steps.\<close>

lemma server_quiet:
  "system_run dump w cfgs es s \<Longrightarrow> pair_there ref j q s \<Longrightarrow> list_all undisturbed fs \<Longrightarrow>
     conn_execs fs (server_conn_at ref s) = Some d \<Longrightarrow> \<not> m_closed d \<Longrightarrow>
     leads dump w cfgs ref j q s (put_server_conn ref d s)"
proof (induction fs arbitrary: s es)
  case Nil
  then show ?case by (auto intro: leads_refl)
next
  case (Cons f fs)
  then obtain d1 where d1: "conn_step (server_conn_at ref s) f d1" "conn_execs fs d1 = Some d"
    by (auto simp: conn_step_iff_exec split: Option.bind_splits)
  have "conn_inv d1" using conn_step_inv [OF d1(1)] pair_inv(3) [OF Cons.prems(1,2)] by simp
  then have "\<not> m_closed d1" using conn_execs_open [OF d1(2)] Cons.prems(5) by simp
  moreover have "undisturbed f" "list_all undisturbed fs" using Cons.prems(3) by simp_all
  ultimately have one: "leads dump w cfgs ref j q s (put_server_conn ref d1 s)"
    by (intro server_quiet_step [OF Cons.prems(1,2) d1(1)])
  then obtain es1 where "system_run dump w cfgs es1 (put_server_conn ref d1 s)" using leads_run by blast
  from Cons.IH [OF this] Cons.prems d1 one show ?case by (auto intro: leads_trans)
qed

lemma client_quiet:
  "system_run dump w cfgs es s \<Longrightarrow> pair_there ref j q s \<Longrightarrow> list_all undisturbed fs \<Longrightarrow>
     conn_execs fs (client_conn_at j q s) = Some c \<Longrightarrow> \<not> m_closed c \<Longrightarrow>
     leads dump w cfgs ref j q s (put_client_conn j q c s)"
proof (induction fs arbitrary: s es)
  case Nil
  then show ?case by (auto intro: leads_refl)
next
  case (Cons f fs)
  then obtain c1 where c1: "conn_step (client_conn_at j q s) f c1" "conn_execs fs c1 = Some c"
    by (auto simp: conn_step_iff_exec split: Option.bind_splits)
  have "conn_inv c1" using conn_step_inv [OF c1(1)] pair_inv(4) [OF Cons.prems(1,2)] by simp
  then have "\<not> m_closed c1" using conn_execs_open [OF c1(2)] Cons.prems(5) by simp
  moreover have "undisturbed f" "list_all undisturbed fs" using Cons.prems(3) by simp_all
  ultimately have one: "leads dump w cfgs ref j q s (put_client_conn j q c1 s)"
    by (intro client_quiet_step [OF Cons.prems(1,2) c1(1)])
  then obtain es1 where "system_run dump w cfgs es1 (put_client_conn j q c1 s)" using leads_run by blast
  from Cons.IH [OF this] Cons.prems c1 one show ?case by (auto intro: leads_trans)
qed

section \<open>Reading\<close>

text \<open>The server never rests inside the message handler.\<close>

definition resting :: "('i, 'o) conn \<Rightarrow> bool" where
  "resting c \<longleftrightarrow> (\<forall>m. Read_awaits_handler m \<notin> set (read_loops c))"

text \<open>The handler succeeds on every message of the connection.\<close>

definition serves :: "(json \<Rightarrow> string result) \<Rightarrow> conn_ref \<Rightarrow> service \<Rightarrow> bool" where
  "serves dump ref u \<longleftrightarrow> (\<forall>v. \<not> isl (dump v)) \<and> \<not> isl (fst (connect (raw_id (id_at ref)) u))"

lemma onMessage_serves:
  assumes "service_ok u" and "serves dump ref u"
  obtains r u' where "onMessage dump (id_at ref) m u = (Inr r, u')" and "serves dump ref u'"
proof -
  let ?k = "raw_id (id_at ref)"
  obtain p u' where con: "connect ?k u = (Inr p, u')"
    using assms(2) by (metis isl_def prod.collapse serves_def sum.collapse(2))
  have "playerFor (sv_connections u') ?k = Some p"
    using connect_registers [OF assms(1), of ?k ?k] con by simp
  then have "connect ?k u' = (Inr p, u')" by (simp add: connect_def)
  then have serves: "serves dump ref u'" using assms(2) by (simp add: serves_def)
  have "\<exists>t. snapshotJson dump u' = Inr t"
    using assms(2) by (metis serves_def snapshotJson_def toJson_def sum.collapse(2))
  then have "\<exists>r. onMessage dump (id_at ref) m u = (Inr r, u')"
    using con by (auto simp: onMessage_def Let_def split: option.splits client_payload.splits)
  with serves that show thesis by blast
qed

lemma server_reads_one:
  assumes run: "system_run dump w cfgs es s" and there: "pair_there ref j q s"
    and d: "d = server_conn_at ref s" and "\<not> m_closed d" and "\<not> mc_stopped (srv_manager (sys_server s))"
    and loops: "read_loops d = [Read_awaits_message]" and serves: "serves dump ref (srv_service (sys_server s))"
    and net: "server_network w s (Strand ref (Message_read 0 (Inr m)))"
  shows "\<exists>s' r. leads dump w cfgs ref j q s s' \<and> pair_there ref j q s' \<and> sys_clients s' = sys_clients s \<and>
     server_conn_at ref s' = d\<lparr>posts := posts d @ [Post_send r], delivered := delivered d @ [m]\<rparr> \<and>
     \<not> mc_stopped (srv_manager (sys_server s')) \<and> serves dump ref (srv_service (sys_server s'))"
proof -
  let ?v = "sys_server s" and ?d1 = "d\<lparr>read_loops := [Read_awaits_handler m], delivered := delivered d @ [m]\<rparr>"
  let ?v1 = "?v\<lparr>srv_heap := (srv_heap ?v)[ref := ?d1]\<rparr>"
  have ref: "ref < length (srv_heap ?v)" using there by (simp add: pair_there_def)
  note inv = pair_inv(1,3) [OF run there]
  have step: "conn_step (srv_heap ?v ! ref) (Message_read 0 (Inr m)) ?d1"
    using loops assms(4) message_read [of 0 d "Inr m"] d by (simp add: readLoop_message_def)
  have "settle ref ?d1 ?v = ?v1"
    using conn_open_step(1) [OF inv(2) step] assms(4) by (simp add: settle_def)
  moreover have inv1: "server_inv ?v1"
    using later_keeps_open [OF inv(1) ref later_step [OF step inv(2)]] assms(4) d by simp
  obtain r u where om: "onMessage dump (id_at ref) m (srv_service ?v) = (Inr r, u)" and u: "serves dump ref u"
    using onMessage_serves [OF _ serves] server_invD(3) [OF inv(1)] by (auto simp: players_inv_def)
  have cid: "m_id ?d1 = id_at ref"
    using server_invD(1) [OF inv(1)] ref d by (simp add: heap_invD)
  let ?d2 = "d\<lparr>posts := posts d @ [Post_send r], delivered := delivered d @ [m]\<rparr>"
  have "handleMessage dump (id_at ref) m ?v1 = (Inr (), ?v1\<lparr>srv_service := u, srv_heap := (srv_heap ?v)[ref := send r ?d1]\<rparr>)"
    using handleMessage_eq [OF inv1, of ref dump m] ref om assms(4,5) by simp
  moreover have "readLoop_handler 0 (Inr ()) (send r ?d1) = ?d2"
    using loops assms(4) by (simp add: readLoop_handler_def readLoop_test_def send_def)
  ultimately have strand: "run_strand dump ref (Message_read 0 (Inr m)) ?d1 ?v =
      ?v\<lparr>srv_service := u, srv_heap := (srv_heap ?v)[ref := ?d2]\<rparr>"
    using ref assms(4) d cid by (simp add: deliver_def settle_def send_def)
  let ?s = "s\<lparr>sys_server := ?v\<lparr>srv_service := u, srv_heap := (srv_heap ?v)[ref := ?d2]\<rparr>\<rparr>"
  have "system_step dump w s (At_server (Strand ref (Message_read 0 (Inr m)))) ?s"
    unfolding strand [symmetric] by (rule server_moves [OF server_step.strand [OF ref _ step] net]) simp
  then have "leads dump w cfgs ref j q s ?s"
    by (rule leads_one [OF run]) (simp add: pair_event_def)
  then show ?thesis
    using ref there u assms(5) by (intro exI [of _ ?s] exI [of _ r]) (simp add: pair_there_def)
qed

lemma client_reads_one:
  assumes run: "system_run dump w cfgs es s" and there: "pair_there ref j q s"
    and c: "c = client_conn_at j q s" and "\<not> m_closed c" and loops: "read_loops c = [Read_awaits_message]"
    and net: "client_network w s j (Conn_event q (Message_read 0 (Inr m)))"
  shows "leads dump w cfgs ref j q s (put_client_conn j q
     (c\<lparr>read_loops := [Read_awaits_handler m], delivered := delivered c @ [m]\<rparr>) s)"
proof -
  let ?c = "c\<lparr>read_loops := [Read_awaits_handler m], delivered := delivered c @ [m]\<rparr>"
  have step: "conn_step (client_conn_at j q s) (Message_read 0 (Inr m)) ?c"
    using loops assms(4) message_read [of 0 c "Inr m"] c by (simp add: readLoop_message_def)
  have "client_settle q ?c (sys_clients s ! j) = (sys_clients s ! j)\<lparr>cl_conns := (cl_conns (sys_clients s ! j))[q := ?c]\<rparr>"
    using conn_open_step(1) [OF pair_inv(4) [OF run there] step] assms(4) by (simp add: client_settle_def)
  then have "client_exec (Conn_event q (Message_read 0 (Inr m))) (sys_clients s ! j) =
      Some ((sys_clients s ! j)\<lparr>cl_conns := (cl_conns (sys_clients s ! j))[q := ?c]\<rparr>)"
    using there step by (simp add: conn_step_iff_exec pair_there_def)
  from client_moves [OF _ this net] there show ?thesis
    by (intro leads_one [OF run]) (auto simp: put_client_conn_def pair_event_def pair_there_def)
qed

lemma client_handles_one:
  assumes run: "system_run dump w cfgs es s" and there: "pair_there ref j q s"
    and c: "c = client_conn_at j q s" and "\<not> m_closed c" and loops: "read_loops c = [Read_awaits_handler m]"
  shows "\<exists>s'. leads dump w cfgs ref j q s s' \<and> pair_there ref j q s' \<and> sys_server s' = sys_server s \<and>
     client_conn_at j q s' = c\<lparr>read_loops := [Read_awaits_message]\<rparr>"
proof -
  let ?c = "c\<lparr>read_loops := [Read_awaits_message]\<rparr>" and ?C = "sys_clients s ! j"
  let ?C' = "?C\<lparr>m_manager := receive m (m_manager ?C), cl_conns := (cl_conns ?C)[q := ?c]\<rparr>"
  have "readLoop_handler 0 (Inr ()) c = ?c"
    using loops assms(4) by (simp add: readLoop_handler_def readLoop_test_def)
  then have "client_receive q 0 m ?C = ?C'" using c by (simp add: client_receive_def client_settle_def)
  then have exec: "client_exec (Received q 0) ?C = Some ?C'"
    using there loops c by (simp add: pair_there_def)
  have "client_network w s j (Received q 0)" by simp
  from client_moves [OF _ exec this] there
  have "system_step dump w s (At_client j (Received q 0)) (s\<lparr>sys_clients := (sys_clients s)[j := ?C']\<rparr>)"
    by (simp add: pair_there_def)
  then have "leads dump w cfgs ref j q s (s\<lparr>sys_clients := (sys_clients s)[j := ?C']\<rparr>)"
    by (rule leads_one [OF run]) (simp add: pair_event_def)
  then show ?thesis
    using there by (intro exI [of _ "s\<lparr>sys_clients := (sys_clients s)[j := ?C']\<rparr>"]) (simp add: pair_there_def)
qed

text \<open>The next message of the other end may be read.\<close>

lemma next_message:
  assumes "prefix ms xs" and "length ms < length xs"
  shows "prefix (ms @ [xs ! length ms]) xs"
  using assms by (metis append_one_prefix)

lemma pair_ends:
  "pair_there ref j q s \<Longrightarrow> server_end s ref = Some (server_conn_at ref s)"
  "pair_there ref j q s \<Longrightarrow> client_end s (j, q) = Some (client_conn_at j q s)"
  by (simp_all add: pair_there_def server_end_def client_end_def)

lemma server_reads_all:
  assumes wire: "inj_on w (dom w)" and pair: "w ref = Some (j, q)"
  shows "system_run dump w cfgs es s \<Longrightarrow> pair_there ref j q s \<Longrightarrow> d = server_conn_at ref s \<Longrightarrow>
     \<not> m_closed d \<Longrightarrow> \<not> mc_stopped (srv_manager (sys_server s)) \<Longrightarrow> read_loops d = [Read_awaits_message] \<Longrightarrow>
     serves dump ref (srv_service (sys_server s)) \<Longrightarrow> Post_stop \<notin> set (posts d) \<Longrightarrow>
     \<exists>s'. leads dump w cfgs ref j q s s' \<and> pair_there ref j q s' \<and> sys_clients s' = sys_clients s \<and>
       \<not> m_closed (server_conn_at ref s') \<and> \<not> mc_stopped (srv_manager (sys_server s')) \<and>
       Post_stop \<notin> set (posts (server_conn_at ref s')) \<and>
       delivered (server_conn_at ref s') = stream (client_conn_at j q s)"
proof (induction "length (stream (client_conn_at j q s)) - length (delivered (server_conn_at ref s))" arbitrary: s es d)
  case 0
  have "prefix (delivered d) (stream (client_conn_at j q s))"
    using linkedD(1) [OF run_linked [OF wire 0(2)] pair] pair_ends [OF 0(3)] 0(4) by simp
  with 0(1,4) have "delivered d = stream (client_conn_at j q s)"
    by (metis diff_is_0_eq prefix_length_le prefix_length_prefix prefix_order.antisym prefix_order.refl)
  with 0 leads_refl [OF 0(2)] show ?case by blast
next
  case (Suc n)
  let ?c = "client_conn_at j q s"
  note ends = pair_ends [OF Suc(4)]
  have pre: "prefix (delivered d) (stream ?c)"
    using linkedD(1) [OF run_linked [OF wire Suc(3)] pair] ends Suc(5) by simp
  have less: "length (delivered d) < length (stream ?c)" using Suc(2,5) by simp
  let ?m = "stream ?c ! length (delivered d)"
  have "server_network w s (Strand ref (Message_read 0 (Inr ?m)))"
    using next_message [OF pre less] pair ends Suc(5) by simp
  from server_reads_one [OF Suc(3-9) this] obtain s1 r where s1: "leads dump w cfgs ref j q s s1"
    "pair_there ref j q s1" "sys_clients s1 = sys_clients s"
    "server_conn_at ref s1 = d\<lparr>posts := posts d @ [Post_send r], delivered := delivered d @ [?m]\<rparr>"
    "\<not> mc_stopped (srv_manager (sys_server s1))" "serves dump ref (srv_service (sys_server s1))"
    by blast
  obtain es1 where "system_run dump w cfgs es1 s1" using leads_run [OF s1(1)] by blast
  moreover have "n = length (stream (client_conn_at j q s1)) - length (delivered (server_conn_at ref s1))"
    using Suc(2) s1(3,4) Suc(5) by simp
  ultimately obtain s' where "leads dump w cfgs ref j q s1 s'" and s': "pair_there ref j q s' \<and>
      sys_clients s' = sys_clients s \<and> \<not> m_closed (server_conn_at ref s') \<and>
      \<not> mc_stopped (srv_manager (sys_server s')) \<and> Post_stop \<notin> set (posts (server_conn_at ref s')) \<and>
      delivered (server_conn_at ref s') = stream ?c"
    using Suc(1) [OF _ _ s1(2) refl] Suc(5,6,8,10) s1(3-6) by auto
  with leads_trans [OF s1(1)] show ?case by blast
qed

text \<open>An open connection that has been started comes to wait for a message.\<close>

lemma server_awaits:
  assumes run: "system_run dump w cfgs es s" and there: "pair_there ref j q s"
    and d: "d = server_conn_at ref s" and "\<not> m_closed d" and "m_started d" and "resting d"
  shows "leads dump w cfgs ref j q s (put_server_conn ref (d\<lparr>read_loops := [Read_awaits_message]\<rparr>) s)"
proof -
  have "conn_inv d" using pair_inv(3) [OF run there] d by simp
  with assms(4,5) obtain l where l: "read_loops d = [l]"
    by (cases "read_loops d"; cases "tl (read_loops d)") (auto simp: conn_inv_defs)
  show ?thesis
  proof (cases l)
    case Read_spawned
    then have "conn_step (server_conn_at ref s) (Run_reader 0) (d\<lparr>read_loops := [Read_awaits_message]\<rparr>)"
      using run_reader [of 0 d] l d assms(4) by (simp add: readLoop_test_def)
    then show ?thesis using server_quiet_step [OF run there] assms(4) by simp
  next
    case Read_awaits_message
    with l d have "put_server_conn ref (d\<lparr>read_loops := [Read_awaits_message]\<rparr>) s = s"
      using put_same(1) [of ref s] by (metis conn.surjective conn.update_convs(10))
    then show ?thesis using leads_refl [OF run] by simp
  next
    case (Read_awaits_handler m)
    with l assms(6) show ?thesis by (simp add: resting_def)
  qed
qed

lemma client_awaits:
  assumes run: "system_run dump w cfgs es s" and there: "pair_there ref j q s"
    and c: "c = client_conn_at j q s" and "\<not> m_closed c" and "m_started c"
  shows "\<exists>s'. leads dump w cfgs ref j q s s' \<and> pair_there ref j q s' \<and> sys_server s' = sys_server s \<and>
     client_conn_at j q s' = c\<lparr>read_loops := [Read_awaits_message]\<rparr>"
proof -
  let ?c = "c\<lparr>read_loops := [Read_awaits_message]\<rparr>"
  have "conn_inv c" using pair_inv(4) [OF run there] c by simp
  with assms(4,5) obtain l where l: "read_loops c = [l]"
    by (cases "read_loops c"; cases "tl (read_loops c)") (auto simp: conn_inv_defs)
  show ?thesis
  proof (cases l)
    case Read_spawned
    then have "conn_step (client_conn_at j q s) (Run_reader 0) ?c"
      using run_reader [of 0 c] l c assms(4) by (simp add: readLoop_test_def)
    then have "leads dump w cfgs ref j q s (put_client_conn j q ?c s)"
      using client_quiet_step [OF run there] assms(4) by simp
    then show ?thesis using there by (intro exI [of _ "put_client_conn j q ?c s"]) simp
  next
    case Read_awaits_message
    with l c have "client_conn_at j q s = ?c" by simp
    then show ?thesis using leads_refl [OF run] there by blast
  next
    case (Read_awaits_handler m)
    with client_handles_one [OF run there c assms(4)] l show ?thesis by simp
  qed
qed

lemma client_reads_all:
  assumes wire: "inj_on w (dom w)" and pair: "w ref = Some (j, q)"
  shows "system_run dump w cfgs es s \<Longrightarrow> pair_there ref j q s \<Longrightarrow> c = client_conn_at j q s \<Longrightarrow>
     \<not> m_closed c \<Longrightarrow> read_loops c = [Read_awaits_message] \<Longrightarrow>
     \<exists>s'. leads dump w cfgs ref j q s s' \<and> pair_there ref j q s' \<and> sys_server s' = sys_server s \<and>
       client_conn_at j q s' = c\<lparr>delivered := stream (server_conn_at ref s)\<rparr>"
proof (induction "length (stream (server_conn_at ref s)) - length (delivered (client_conn_at j q s))" arbitrary: s es c)
  case 0
  have "prefix (delivered c) (stream (server_conn_at ref s))"
    using linkedD(2) [OF run_linked [OF wire 0(2)] pair] pair_ends [OF 0(3)] 0(4) by simp
  with 0(1,4) have "delivered c = stream (server_conn_at ref s)"
    by (metis diff_is_0_eq prefix_length_le prefix_length_prefix prefix_order.antisym prefix_order.refl)
  then have "client_conn_at j q s = c\<lparr>delivered := stream (server_conn_at ref s)\<rparr>" using 0(4) by simp
  with leads_refl [OF 0(2)] 0(3) show ?case by blast
next
  case (Suc n)
  let ?d = "server_conn_at ref s"
  let ?m = "stream ?d ! length (delivered c)" and ?c = "c\<lparr>delivered := delivered c @ [stream ?d ! length (delivered c)]\<rparr>"
  note ends = pair_ends [OF Suc(4)]
  have pre: "prefix (delivered c) (stream ?d)"
    using linkedD(2) [OF run_linked [OF wire Suc(3)] pair] ends Suc(5) by simp
  have less: "length (delivered c) < length (stream ?d)" using Suc(2,5) by simp
  have "ref \<in> set (wired_to w s (j, q))" using pair ends(1) by (simp add: wired_to_set)
  then have net: "client_network w s j (Conn_event q (Message_read 0 (Inr ?m)))"
    using next_message [OF pre less] ends Suc(5) by (auto intro!: bexI [of _ ref])
  let ?s1 = "put_client_conn j q (c\<lparr>read_loops := [Read_awaits_handler ?m], delivered := delivered c @ [?m]\<rparr>) s"
  have s1: "leads dump w cfgs ref j q s ?s1" using client_reads_one [OF Suc(3-7) net] .
  obtain es1 where run1: "system_run dump w cfgs es1 ?s1" using leads_run [OF s1] by blast
  have handled: "client_conn_at j q ?s1\<lparr>read_loops := [Read_awaits_message]\<rparr> = ?c"
    using Suc(4,7) by (cases c) simp
  obtain s2 where s2: "leads dump w cfgs ref j q ?s1 s2" "pair_there ref j q s2" "sys_server s2 = sys_server s"
    "client_conn_at j q s2 = ?c"
    using client_handles_one [OF run1 _ refl, where ref = ref and j = j and q = q and m = ?m] Suc(4,6) handled
    by fastforce
  obtain es2 where "system_run dump w cfgs es2 s2" using leads_run [OF s2(1)] by blast
  moreover have "n = length (stream (server_conn_at ref s2)) - length (delivered (client_conn_at j q s2))"
    using Suc(2) s2(3,4) Suc(5) by simp
  ultimately obtain s' where "leads dump w cfgs ref j q s2 s'" and s': "pair_there ref j q s' \<and>
      sys_server s' = sys_server s \<and> client_conn_at j q s' = c\<lparr>delivered := stream ?d\<rparr>"
    using Suc(1) [OF _ _ s2(2) refl] Suc(6,7) s2(3,4) by auto
  with leads_trans [OF s1 leads_trans [OF s2(1)]] show ?case by blast
qed

section \<open>The server rests between its steps\<close>

lemma resting_step:
  assumes "conn_step c e c'" and "resting c" and "\<nexists>i m. e = Message_read i (Inr m) \<and> \<not> m_closed c"
  shows "resting c'"
proof -
  have loops: "resting (x\<lparr>read_loops := remove_at i (read_loops c)\<rparr>)"
    "resting (x\<lparr>read_loops := (read_loops c)[i := Read_awaits_message]\<rparr>)" for i and x :: "('a, 'b) conn"
    using assms(2) set_remove_at [of i "read_loops c"] set_update_subset_insert [of "read_loops c" i]
    by (auto simp: resting_def)
  have same: "resting x" if "read_loops x = read_loops c \<or> read_loops x = read_loops c @ [Read_spawned]"
    for x :: "('a, 'b) conn" using that assms(2) by (auto simp: resting_def)
  from assms(1) show ?thesis
  proof cases
    case (run_post p ps)
    then show ?thesis
      by (cases p) (auto simp: startImpl_def stopImpl_def sendImpl_def notifyClosed_def Let_def intro: same)
  next
    case (message_read i r)
    with assms(3) loops show ?thesis by (auto simp: readLoop_message_def split: sum.splits)
  qed (auto simp: start_def stop_def send_def readLoop_test_def readLoop_handler_def writeLoop_test_def
      writeLoop_written_def stopImpl_def notifyClosed_def split: sum.splits intro: same loops)
qed

lemma run_strand_resting:
  assumes inv: "server_inv v" and ref: "ref < length (srv_heap v)" and step: "conn_step (srv_heap v ! ref) e c'"
    and "resting (srv_heap v ! ref)"
  shows "resting (srv_heap (run_strand dump ref e c' v) ! ref)"
proof (cases "\<exists>i m. e = Message_read i (Inr m) \<and> \<not> m_closed (srv_heap v ! ref)")
  case False
  then have "run_strand dump ref e c' v = settle ref c' v"
    by (cases "(dump, ref, e, c', v)" rule: run_strand.cases) auto
  with resting_step [OF step assms(4) False] ref show ?thesis by simp
next
  case True
  then obtain i m where e: "e = Message_read i (Inr m)" "\<not> m_closed (srv_heap v ! ref)" by blast
  have i: "i < length (read_loops (srv_heap v ! ref))" "c' = readLoop_message i (Inr m) (srv_heap v ! ref)"
    using step e by (auto elim: conn_step_elims)
  have "length (read_loops (srv_heap v ! ref)) \<le> 1"
    using heap_invD(1) [OF server_invD(1) [OF inv] ref] by (simp add: conn_inv_def loops_inv_def)
  then obtain l where "read_loops (srv_heap v ! ref) = [l]" and "i = 0"
    using single_loop [of _ i] i(1) by metis
  then have loops: "read_loops c' = [Read_awaits_handler m]" "i = 0"
    using i(2) e(2) by (simp_all add: readLoop_message_def)
  let ?v = "settle ref c' v"
  have inv': "server_inv ?v"
    using inv ref later_step [OF step] by (simp add: settle_inv server_invD heap_invD)
  have cid: "m_id (srv_heap ?v ! ref) = id_at ref"
    using heap_invD(3) [OF server_invD(1) [OF inv'], of ref] ref by simp
  obtain r s1 where hm: "handleMessage dump (id_at ref) m ?v = (r, s1)" by fastforce
  have ref': "ref < length (srv_heap ?v)" using ref by simp
  obtain ps where s1: "length (srv_heap s1) = length (srv_heap ?v)" "srv_heap s1 ! ref = c'\<lparr>posts := ps\<rparr>"
    using handleMessage_conn [OF inv' ref' hm] ref by auto
  have "resting (readLoop_handler i r (c'\<lparr>posts := ps\<rparr>))"
    using loops by (auto simp: resting_def readLoop_handler_def readLoop_test_def remove_at_def split: sum.split)
  with ref s1 e cid hm show ?thesis by (simp add: deliver_def)
qed

lemma server_run_resting:
  "server_run dump es v \<Longrightarrow> ref < length (srv_heap v) \<Longrightarrow> resting (srv_heap v ! ref)"
proof (induction rule: server_run.induct)
  case server_start
  then show ?case by (simp add: initial_server_def new_server_def)
next
  case (server_next es v e v')
  have inv: "server_inv v" using server_run_inv [OF server_next(1)] .
  from server_next(2) show ?case
  proof cases
    case accepted
    from inv accepted(3) show ?thesis
    proof (cases rule: accept_socket_cases)
      case (new c m)
      then have "resting (start c)"
        by (auto simp: connection_create_def resting_def start_def split: if_splits)
      with new accepted server_next show ?thesis by (auto simp: nth_append less_Suc_eq)
    qed (use accepted server_next in simp)
  next
    case (accept_failed ec)
    with server_next show ?thesis by (auto simp: accept_error_def split: if_splits)
  next
    case (stopping order)
    have "\<exists>ps. stop c = c\<lparr>posts := ps\<rparr>" for c :: server_conn by (auto simp: stop_def)
    note stops = for_each_posts [OF this]
    have "resting (for_each stop refs (srv_heap v) ! ref)" if "ref < length (srv_heap v)" for refs
      using stops [of refs "srv_heap v"] that server_next.IH by (auto simp: resting_def)
    with stopping server_next.IH server_next(4) stops show ?thesis
      by (auto simp: stop_server_def manager_stopAll_def Let_def split: if_splits)
  next
    case (strand r e' c')
    have "length (srv_heap v') = length (srv_heap v)"
      using run_strand_carries(3) [OF inv strand(3,5,4,2)] .
    with server_next have old: "ref < length (srv_heap v)" "resting (srv_heap v ! ref)" by simp_all
    show ?thesis
    proof (cases "r = ref")
      case True
      with run_strand_resting [OF inv old(1) _ old(2)] strand show ?thesis by simp
    next
      case False
      with run_strand_carries(2) [OF inv strand(3,5,4,2), of ref] old show ?thesis by simp
    qed
  qed
qed

section \<open>Every request reaches the server, and every response comes back\<close>

lemma run_limits:
  assumes run: "system_run dump w cfgs es s" and there: "pair_there ref j q s"
  shows "0 < m_maxQueuedMessages (server_conn_at ref s)" and "0 < m_maxQueuedMessages (client_conn_at j q s)"
proof -
  have "conn_limits (server_conn_at ref s) = (max_message_bytes default_tcp_server_config, 1024)"
    using server_run_conn_limit [OF run_server [OF run]] there by (simp add: pair_there_def)
  then show "0 < m_maxQueuedMessages (server_conn_at ref s)" by (simp add: conn_limits_def)
  have j: "j < length (sys_clients s)" and q: "q < length (cl_conns (sys_clients s ! j))"
    using there by (simp_all add: pair_there_def)
  note client = run_client(1) [OF run j]
  have "limits_ok (m_manager (sys_clients s ! j))" using client_run_link [OF client] by simp
  with client_run_limits [OF client] have "cfg_maxQueuedMessages (cfgs ! j) \<noteq> 0"
    by (simp add: limits_def limits_ok_def)
  with client_run_conn_limit [OF client q] show "0 < m_maxQueuedMessages (client_conn_at j q s)"
    by (simp add: conn_limits_def)
qed

text \<open>An open connection of a running server that has sent all it had to send has answered all it got.\<close>

lemma flushed_answers:
  assumes run: "system_run dump w cfgs es s" and there: "pair_there ref j q s"
    and "flushed d (server_conn_at ref s)" and "\<not> mc_stopped (srv_manager (sys_server s))"
  shows "list_all2 answers (delivered (server_conn_at ref s)) (written (server_conn_at ref s))"
proof -
  let ?d = "server_conn_at ref s"
  have "replied (mc_stopped (srv_manager (sys_server s))) 0 ?d"
    using server_run_replies [OF run_server [OF run]] there by (simp add: server_replies_def pair_there_def)
  with assms(3,4) obtain ms where "conn_fifo ms ?d" "length ms = length (delivered ?d)"
    "list_all2 answers (take (length ms) (delivered ?d)) ms"
    by (auto simp: replied_def flushed_def)
  moreover from this(1) assms(3) have "ms = written ?d"
    by (auto simp: conn_fifo_def flushed_def in_flight_def pending_sends_def)
  ultimately show ?thesis by simp
qed

lemma server_flushes:
  assumes run: "system_run dump w cfgs es s" and there: "pair_there ref j q s"
    and d: "d = server_conn_at ref s" and "\<not> m_closed d" and "Post_stop \<notin> set (posts d)"
  obtains d' where "leads dump w cfgs ref j q s (put_server_conn ref d' s)" and "flushed d d'"
proof -
  have inv: "conn_inv d" and lim: "0 < m_maxQueuedMessages d"
    using pair_inv(3) [OF run there] run_limits(1) [OF run there] d by simp_all
  obtain fs d' where fs: "list_all flushing fs" "conn_execs fs d = Some d'" "flushed d d'"
    using flush_open [OF inv assms(4,5) lim] by blast
  have "list_all undisturbed fs" using fs(1) by (auto simp: list_all_iff intro: flushing_quiet)
  then have "leads dump w cfgs ref j q s (put_server_conn ref d' s)"
    using server_quiet [OF run there] fs(2,3) d by (simp add: flushed_def)
  with fs(3) that show thesis by blast
qed

lemma client_flushes:
  assumes run: "system_run dump w cfgs es s" and there: "pair_there ref j q s"
    and c: "c = client_conn_at j q s" and "\<not> m_closed c" and "Post_stop \<notin> set (posts c)"
  obtains c' where "leads dump w cfgs ref j q s (put_client_conn j q c' s)" and "flushed c c'"
proof -
  have inv: "conn_inv c" and lim: "0 < m_maxQueuedMessages c"
    using pair_inv(4) [OF run there] run_limits(2) [OF run there] c by simp_all
  obtain fs c' where fs: "list_all flushing fs" "conn_execs fs c = Some c'" "flushed c c'"
    using flush_open [OF inv assms(4,5) lim] by blast
  have "list_all undisturbed fs" using fs(1) by (auto simp: list_all_iff intro: flushing_quiet)
  then have "leads dump w cfgs ref j q s (put_client_conn j q c' s)"
    using client_quiet [OF run there] fs(2,3) c by (simp add: flushed_def)
  with fs(3) that show thesis by blast
qed

lemma flushed_stream: "flushed c c' \<Longrightarrow> stream c' = outstanding c"
  by (simp add: flushed_def stream_def in_flight_def)

text \<open>The server comes to have delivered all that its peer wrote, and to have answered it.\<close>

lemma server_answers_all:
  assumes wire: "inj_on w (dom w)" and pair: "w ref = Some (j, q)"
    and run: "system_run dump w cfgs es s" and there: "pair_there ref j q s" and d: "d = server_conn_at ref s"
    and "\<not> m_closed d" and "m_started d" and "Post_stop \<notin> set (posts d)"
    and "\<not> mc_stopped (srv_manager (sys_server s))" and "serves dump ref (srv_service (sys_server s))"
  obtains s' where "leads dump w cfgs ref j q s s'" and "pair_there ref j q s'" and "sys_clients s' = sys_clients s"
    and "\<not> m_closed (server_conn_at ref s')" and "write_loops (server_conn_at ref s') = []"
    and "delivered (server_conn_at ref s') = stream (client_conn_at j q s)"
    and "list_all2 answers (stream (client_conn_at j q s)) (written (server_conn_at ref s'))"
proof -
  obtain d1 where d1: "leads dump w cfgs ref j q s (put_server_conn ref d1 s)" "flushed d d1"
    using server_flushes [OF run there d assms(6,8)] .
  obtain es1 where run1: "system_run dump w cfgs es1 (put_server_conn ref d1 s)" using leads_run [OF d1(1)] by blast
  have "resting d1"
    using server_run_resting [OF run_server [OF run1], of ref] there
    by (simp add: pair_there_def put_server_conn_def)
  then have 2: "leads dump w cfgs ref j q (put_server_conn ref d1 s)
      (put_server_conn ref (d1\<lparr>read_loops := [Read_awaits_message]\<rparr>) s)"
    using server_awaits [OF run1, of ref j q d1] there d1(2) assms(7) by (simp add: flushed_def)
  let ?s2 = "put_server_conn ref (d1\<lparr>read_loops := [Read_awaits_message]\<rparr>) s"
  obtain es2 where run2: "system_run dump w cfgs es2 ?s2" using leads_run [OF 2] by blast
  obtain s3 where s3: "leads dump w cfgs ref j q ?s2 s3" "pair_there ref j q s3" "sys_clients s3 = sys_clients s"
    "\<not> m_closed (server_conn_at ref s3)" "\<not> mc_stopped (srv_manager (sys_server s3))"
    "Post_stop \<notin> set (posts (server_conn_at ref s3))"
    "delivered (server_conn_at ref s3) = stream (client_conn_at j q s)"
    using server_reads_all [OF wire pair run2 _ refl] there d1(2) assms(9,10) by (auto simp: flushed_def)
  obtain es3 where run3: "system_run dump w cfgs es3 s3" using leads_run [OF s3(1)] by blast
  obtain d4 where d4: "leads dump w cfgs ref j q s3 (put_server_conn ref d4 s3)" "flushed (server_conn_at ref s3) d4"
    using server_flushes [OF run3 s3(2) refl s3(4,6)] .
  obtain es4 where run4: "system_run dump w cfgs es4 (put_server_conn ref d4 s3)" using leads_run [OF d4(1)] by blast
  have "list_all2 answers (delivered d4) (written d4)"
    using flushed_answers [OF run4, of ref j q "server_conn_at ref s3"] s3(2,5) d4(2) by simp
  then show thesis
    using that [OF leads_trans [OF d1(1) leads_trans [OF 2 leads_trans [OF s3(1) d4(1)]]]] s3 d4(2)
    by (simp add: flushed_def)
qed

text \<open>Both directions.\<close>

lemma pair_answers:
  assumes wire: "inj_on w (dom w)" and pair: "w ref = Some (j, q)"
    and run: "system_run dump w cfgs es s" and there: "pair_there ref j q s"
    and d: "d = server_conn_at ref s" and c: "c = client_conn_at j q s"
    and "\<not> m_closed d" and "m_started d" and "Post_stop \<notin> set (posts d)"
    and "\<not> m_closed c" and "m_started c" and "Post_stop \<notin> set (posts c)"
    and "\<not> mc_stopped (srv_manager (sys_server s))" and "serves dump ref (srv_service (sys_server s))"
  obtains s' where "leads dump w cfgs ref j q s s'" and "pair_there ref j q s'"
    and "\<not> m_closed (server_conn_at ref s')" and "\<not> m_closed (client_conn_at j q s')"
    and "written (client_conn_at j q s') = outstanding c"
    and "delivered (server_conn_at ref s') = outstanding c"
    and "list_all2 answers (outstanding c) (delivered (client_conn_at j q s'))"
proof -
  obtain c1 where c1: "leads dump w cfgs ref j q s (put_client_conn j q c1 s)" "flushed c c1"
    using client_flushes [OF run there c assms(10,12)] .
  let ?s1 = "put_client_conn j q c1 s"
  obtain es1 where run1: "system_run dump w cfgs es1 ?s1" using leads_run [OF c1(1)] by blast
  have stream1: "stream (client_conn_at j q ?s1) = outstanding c"
    using flushed_stream [OF c1(2)] there by simp
  obtain s2 where s2: "leads dump w cfgs ref j q ?s1 s2" "pair_there ref j q s2"
    "sys_clients s2 = sys_clients ?s1" "\<not> m_closed (server_conn_at ref s2)"
    "write_loops (server_conn_at ref s2) = []" "delivered (server_conn_at ref s2) = outstanding c"
    "list_all2 answers (outstanding c) (written (server_conn_at ref s2))"
    using server_answers_all [OF wire pair run1, of d, unfolded stream1] there d assms(7-9,13,14) by auto
  obtain es2 where run2: "system_run dump w cfgs es2 s2" using leads_run [OF s2(1)] by blast
  have c2: "client_conn_at j q s2 = c1" using s2(3) there by simp
  obtain s3 where s3: "leads dump w cfgs ref j q s2 s3" "pair_there ref j q s3" "sys_server s3 = sys_server s2"
    "client_conn_at j q s3 = c1\<lparr>read_loops := [Read_awaits_message]\<rparr>"
    using client_awaits [OF run2 s2(2) c2 [symmetric]] c1(2) assms(11) by (auto simp: flushed_def)
  obtain es3 where run3: "system_run dump w cfgs es3 s3" using leads_run [OF s3(1)] by blast
  have "stream (server_conn_at ref s3) = written (server_conn_at ref s2)"
    using s2(5) s3(3) by (simp add: stream_def in_flight_def)
  then obtain s4 where s4: "leads dump w cfgs ref j q s3 s4" "pair_there ref j q s4" "sys_server s4 = sys_server s3"
    "client_conn_at j q s4 = c1\<lparr>read_loops := [Read_awaits_message], delivered := written (server_conn_at ref s2)\<rparr>"
    using client_reads_all [OF wire pair run3 s3(2) s3(4) [symmetric]] c1(2) by (auto simp: flushed_def)
  from that [OF leads_trans [OF c1(1) leads_trans [OF s2(1) leads_trans [OF s3(1) s4(1)]]] s4(2)]
  show thesis using s2 s3(3) s4 c1(2) by (simp add: flushed_def)
qed

section \<open>The programs follow\<close>

fun program_does :: "system_event \<Rightarrow> program_event" where
  "program_does (At_server e) = Server_does e"
| "program_does (At_client j e) = App_does j (Work (Client_step e))"

lemma worker_follows:
  assumes "client_exec e (client_of a) = Some c" and "internal_event e"
  shows "\<exists>a'. app_exec ec_text (Work (Client_step e)) a = Some a' \<and> client_of a' = c"
  using assms by (simp add: worker_step_def client_of_def)

lemma program_follows:
  "system_path dump w (system_of p) fs s' \<Longrightarrow> list_all (pair_event ref j q) fs \<Longrightarrow>
     \<exists>p'. program_path dump ec_text w p (map program_does fs) p' \<and> system_of p' = s'"
proof (induction rule: system_path.induct)
  case path_here
  then show ?case by (auto intro: program_here)
next
  case (path_next fs s1 e s2)
  then obtain p1 where p1: "program_path dump ec_text w p (map program_does fs) p1" "system_of p1 = s1" by auto
  have "\<exists>p2. program_step dump ec_text w p1 (program_does e) p2 \<and> system_of p2 = s2"
    using path_next(2)
  proof cases
    case (server_moves e' v)
    with p1(2) have "program_step dump ec_text w p1 (program_does e) (p1\<lparr>pr_server := v\<rparr>)"
      by (auto intro: server_does)
    with server_moves p1(2) show ?thesis by (auto simp: system_of_def)
  next
    case (client_moves i e' c)
    have i: "i < length (pr_apps p1)" "sys_clients s1 ! i = client_of (pr_apps p1 ! i)"
      using client_moves p1(2) by auto
    have "internal_event e'" using client_moves(1) path_next(4) by (auto simp: pair_event_def)
    then obtain a where a: "app_exec ec_text (Work (Client_step e')) (pr_apps p1 ! i) = Some a" "client_of a = c"
      using worker_follows [of e' "pr_apps p1 ! i" c] client_moves i(2) by auto
    have "program_step dump ec_text w p1 (App_does i (Work (Client_step e'))) (p1\<lparr>pr_apps := (pr_apps p1)[i := a]\<rparr>)"
      using client_moves p1(2) by (intro app_does [OF i(1) a(1)]) simp
    moreover have "system_of (p1\<lparr>pr_apps := (pr_apps p1)[i := a]\<rparr>) = s2"
      using client_moves p1(2) a(2) by (auto simp: system_of_def map_update)
    ultimately show ?thesis using client_moves(1) by auto
  qed
  then show ?case using p1(1) program_next by fastforce
qed

text \<open>The ping is posted, and the server has accepted and started its connection.\<close>

definition sample_asking_events :: "program_event list" where
  "sample_asking_events = take 10 sample_program_events @ map Server_does [Accepted, Strand 0 Run_post]"

definition sample_asking :: program where
  "sample_asking = the (runs (program_exec sample_dump (\<lambda>_. []) sample_wiring) sample_asking_events
     \<lparr>pr_server = initial_server, pr_apps = [sample_app]\<rparr>)"

lemma sample_asking_state:
  "map_option (\<lambda>p. (map (\<lambda>d. (m_closed d, m_started d, posts d)) (srv_heap (pr_server p)),
       map (\<lambda>a. map (\<lambda>c. (m_closed c, m_started c, posts c, outstanding c)) (cl_conns (client_of a))) (pr_apps p),
       ts_stopped (pr_server p),
       isl (fst (connect (raw_id (m_id (srv_heap (pr_server p) ! 0))) (srv_service (pr_server p))))))
     (runs (program_exec sample_dump (\<lambda>_. []) sample_wiring) sample_asking_events
       \<lparr>pr_server = initial_server, pr_apps = [sample_app]\<rparr>) =
   (let ping = (request_message (Ping \<lparr>ping_timestamp = 42\<rparr>))\<lparr>client_request_id := 1\<rparr>
    in Some ([(False, True, [])], [[(False, True, [Post_send ping], [ping])]], False, False))"
  by code_simp

lemma sample_asking_run:
  "program_run sample_dump (\<lambda>_. []) sample_wiring [''12:00:00''] sample_asking_events sample_asking"
proof -
  have "program_run sample_dump (\<lambda>_. []) sample_wiring [''12:00:00''] []
      \<lparr>pr_server = initial_server, pr_apps = [sample_app]\<rparr>"
    by (intro programs_start) (simp add: sample_app_create)
  then show ?thesis
    using program_trace.runs_reached sample_asking_state by (fastforce simp: sample_asking_def Let_def)
qed

section \<open>Properties\<close>



end
