(* ===== verification/Logger.thy ===== *)
theory Logger
  imports Prelude
begin

text \<open>
  \<open>shared/src/shared/logger/logger.hpp\<close>: the name of a source file without its directories,
  computed when the programs are compiled, and the logger all messages go to. A string literal
  is an array that ends with a zero character, which the template counts.
\<close>

section \<open>The short file name\<close>

definition is_separator :: "char \<Rightarrow> bool" where
  "is_separator c \<longleftrightarrow> c = CHR ''/'' \<or> c = CHR 0x5C"

text \<open>\<open>short_file_impl\<close>: the loop; the pointer it returns as an offset into the array.\<close>

definition short_file_impl :: "char list \<Rightarrow> nat \<Rightarrow> nat" where
  "short_file_impl path n = fold (\<lambda>i offset. if is_separator (path ! i) then Suc i else offset) [0 ..< n] 0"

definition short_file :: "string \<Rightarrow> string" where
  "short_file path = drop (short_file_impl (path @ [CHR 0x00]) (length path + 1)) path"

lemma short_file_impl_rounds [simp]:
  "short_file_impl path 0 = 0"
  "short_file_impl path (Suc n) = (if is_separator (path ! n) then Suc n else short_file_impl path n)"
  by (simp_all add: short_file_impl_def)

text \<open>After \<open>n\<close> rounds: the offset is behind the last separator so far.\<close>

lemma short_file_impl_spec:
  "short_file_impl path n \<le> n \<and>
   (short_file_impl path n = 0 \<or> is_separator (path ! (short_file_impl path n - 1))) \<and>
   (\<forall>i. short_file_impl path n \<le> i \<and> i < n \<longrightarrow> \<not> is_separator (path ! i))"
  by (induction n) (auto simp: less_Suc_eq)

text \<open>The file name has no separator in it, and what is cut off is nothing or ends with one.\<close>

lemma short_file_correct:
  "\<exists>dir. path = dir @ short_file path \<and> (dir = [] \<or> is_separator (last dir)) \<and>
     list_all (\<lambda>c. \<not> is_separator c) (short_file path)"
proof -
  let ?n = "length path" and ?p = "path @ [CHR 0x00]"
  have same: "short_file path = drop (short_file_impl ?p ?n) path"
    by (simp add: short_file_def is_separator_def)
  let ?k = "short_file_impl ?p ?n"
  have k: "?k \<le> ?n" "?k = 0 \<or> is_separator (?p ! (?k - 1))"
    "\<forall>i. ?k \<le> i \<and> i < ?n \<longrightarrow> \<not> is_separator (?p ! i)"
    using short_file_impl_spec [of ?p ?n] by simp_all
  have "take ?k path = [] \<or> is_separator (last (take ?k path))"
  proof (cases "?k = 0")
    case False
    with k(1) have "take ?k path \<noteq> []" by auto
    with k(1) False have "last (take ?k path) = ?p ! (?k - 1)"
      by (auto simp: last_conv_nth nth_append)
    with k(2) False show ?thesis by simp
  qed simp
  moreover have "list_all (\<lambda>c. \<not> is_separator c) (drop ?k path)"
    using k(1,3) by (auto simp: list_all_length nth_append)
  ultimately show ?thesis
    by (intro exI [of _ "take ?k path"]) (simp add: same)
qed

section \<open>The logger\<close>

text \<open>
  Of the logging library: its registry of named loggers, what a logger is set to, and the
  messages a logger has been given; how it prints them is its own. A logger drops messages
  below its level. \<open>fresh\<close> is a logger as the library makes it.
\<close>

datatype level = Trace | Debug | Info | Warn | Err | Critical

fun severity :: "level \<Rightarrow> nat" where
  "severity Trace = 0"
| "severity Debug = 1"
| "severity Info = 2"
| "severity Warn = 3"
| "severity Err = 4"
| "severity Critical = 5"

record source_loc =
  loc_file :: string
  loc_line :: nat
  loc_function :: string

record logger =
  lg_pattern :: string
  lg_level :: level
  lg_flush_on :: level
  lg_messages :: "(source_loc \<times> level \<times> string) list"

text \<open>The registry, and the static variable of \<open>default_logger\<close> once it is initialised.\<close>

record logging =
  spd_loggers :: "string \<rightharpoonup> logger"
  static_logger :: "string option"

definition default_logger :: "logger \<Rightarrow> logging \<Rightarrow> string \<times> logging" where
  "default_logger fresh s =
     (case static_logger s of
        Some name \<Rightarrow> (name, s)
      | None \<Rightarrow>
          let lg = (case spd_loggers s ''app'' of Some lg \<Rightarrow> lg | None \<Rightarrow> fresh)
          in (''app'', s\<lparr>spd_loggers := (spd_loggers s)(''app'' \<mapsto>
                           lg\<lparr>lg_pattern := ''[%H:%M:%S.%e] [%^%l%$] %v [%s:%# %!()]'',
                              lg_level := Trace, lg_flush_on := Err\<rparr>),
                         static_logger := Some ''app''\<rparr>))"

definition log_message :: "string \<Rightarrow> level \<Rightarrow> source_loc \<Rightarrow> string \<Rightarrow> logging \<Rightarrow> logging" where
  "log_message name lv loc message s =
     (case spd_loggers s name of
        None \<Rightarrow> s
      | Some lg \<Rightarrow>
          if severity (lg_level lg) \<le> severity lv
          then s\<lparr>spd_loggers := (spd_loggers s)(name \<mapsto>
                   lg\<lparr>lg_messages := lg_messages lg @ [(loc, lv, message)]\<rparr>)\<rparr>
          else s)"

text \<open>The macro: \<open>file\<close>, \<open>line\<close> and \<open>function\<close> are those of the place it is used at.\<close>

definition LOG :: "logger \<Rightarrow> level \<Rightarrow> string \<Rightarrow> nat \<Rightarrow> string \<Rightarrow> string \<Rightarrow> logging \<Rightarrow> logging" where
  "LOG fresh lv file line function message s =
     (let (name, s1) = default_logger fresh s
      in log_message name lv \<lparr>loc_file = short_file file, loc_line = line, loc_function = function\<rparr> message s1)"

text \<open>The logger is set up at most once, and stays as it was set up.\<close>

definition logging_ok :: "logging \<Rightarrow> bool" where
  "logging_ok s \<longleftrightarrow>
     (\<forall>name. static_logger s = Some name \<longrightarrow>
        name = ''app'' \<and> (\<exists>lg. spd_loggers s ''app'' = Some lg \<and> lg_level lg = Trace))"

definition logged_messages :: "logging \<Rightarrow> (source_loc \<times> level \<times> string) list" where
  "logged_messages s = (case spd_loggers s ''app'' of None \<Rightarrow> [] | Some lg \<Rightarrow> lg_messages lg)"

text \<open>No message is dropped, whatever its level, and none is lost when the logger is set up.\<close>

lemma LOG_messages:
  assumes "logging_ok s" and "lg_messages fresh = []"
  shows "logging_ok (LOG fresh lv file line function message s)"
    and "logged_messages (LOG fresh lv file line function message s) =
      logged_messages s @
        [(\<lparr>loc_file = short_file file, loc_line = line, loc_function = function\<rparr>, lv, message)]"
  using assms
  by (cases "static_logger s"; cases "spd_loggers s ''app''";
      auto simp: LOG_def default_logger_def log_message_def logging_ok_def logged_messages_def Let_def)+

end
