(* ===== verification/Vec.thy ===== *)
theory Vec
  imports Prelude "HOL-Library.Numeral_Type"
begin

text \<open>
  \<open>shared/src/shared/math/Vec.hpp\<close>: vectors of a fixed number of components, as yet used by the
  tests only. The number is a type, as the template has it, and no type is empty, which is the
  assertion \<open>N > 0\<close>. Components that are not given are zero.
\<close>

typedef ('a, 'n) Vec = "{xs :: 'a list. length xs = CARD('n::finite)}"
  morphisms vec_data Vec
  by (rule exI [of _ "replicate CARD('n) undefined"]) simp

setup_lifting type_definition_Vec

lift_definition vec_zero :: "('a::zero, 'n::finite) Vec" is "replicate CARD('n) 0" by simp

definition vec_size :: "('a, 'n::finite) Vec \<Rightarrow> nat" where
  "vec_size v = CARD('n)"

text \<open>A list of initialisers: the rest is zero; a longer list does not compile.\<close>

definition vec_init :: "'a::zero list \<Rightarrow> ('a, 'n::finite) Vec option" where
  "vec_init xs =
     (if length xs \<le> CARD('n) then Some (Vec (xs @ replicate (CARD('n) - length xs) 0)) else None)"

lemma vec_size_data: "length (vec_data v) = vec_size v" "0 < vec_size v"
  using vec_data [of v] by (simp_all add: vec_size_def)

lemma vec_init_data:
  "vec_init xs = Some (v :: ('a::zero, 'n::finite) Vec) \<longleftrightarrow>
     length xs \<le> vec_size v \<and> vec_data v = xs @ replicate (vec_size v - length xs) 0"
  by (auto simp: vec_init_def vec_size_def Vec_inverse vec_data_inject [symmetric])

lemma vec_init_zero: "vec_init [] = Some vec_zero"
  by (simp add: vec_init_data vec_size_def vec_zero.rep_eq)

record 'a Vec2 =
  vec2_x :: 'a
  vec2_y :: 'a

record 'a Vec3 =
  vec3_x :: 'a
  vec3_y :: 'a
  vec3_z :: 'a

definition vec2_zero :: "'a::zero Vec2" where "vec2_zero = \<lparr>vec2_x = 0, vec2_y = 0\<rparr>"

definition vec3_zero :: "'a::zero Vec3" where "vec3_zero = \<lparr>vec3_x = 0, vec3_y = 0, vec3_z = 0\<rparr>"

end
