(* ===== verification/Spec2Isabelle.thy ===== *)
theory Spec2Isabelle
  imports Std_Containers Frame_Codec Message_Channel Protocol Connection World World_Service
    Message_Handler Server Request_Manager Client Client_Requests End_To_End
    Streams System Event_Bus Network_Component State_Stack Style Console Layout
    Rendering Application Program Wire Wire_Program Progress Logger Vec
begin

text \<open>
  A verification development for 2DStalker, a client and a server for a small multiplayer game
  written in C++ on coroutines. All paths are under \<open>src/\<close>.

  \<^bold>\<open>The program.\<close> Both programs speak frames over TCP: a length prefix and a serialised message
  (\<open>shared/src/shared/network\<close>). The server (\<open>server/src\<close>) accepts sockets, makes a connection
  object for each, hands the messages of a connection to a handler that owns the world, and sends
  back what it answers; closing a connection removes its player. The client (\<open>client/src\<close>) has one
  connection at a time and a table of requests that wait for their responses; it runs on a worker
  thread, and the user interface talks to it through a queue of results. The event buses
  (\<open>shared/src/shared/event_bus\<close>) are a library the programs do not use yet.

  \<^bold>\<open>The theories\<close>, in the order of their dependence:

  \<^item> \<open>Prelude\<close>: machine integers, exceptions, results, and machines (\<open>runs\<close> of a step function,
    with the locales \<open>traced_machine\<close> and \<open>machine_invariant\<close> all components share).
    \<open>Std_Containers\<close>: the ordered and the unordered map of the standard library, behind the
    locale \<open>assoc_container\<close>.
  \<^item> \<open>Frame_Codec\<close> (\<open>MessageFrameCodec.hpp\<close>), \<open>Message_Channel\<close> (\<open>MessageChannel.hpp\<close>),
    \<open>Protocol\<close> (\<open>message.proto\<close>, \<open>connection_id.hpp\<close>): the wire. Sockets are values with the bytes
    still to be read and those written; a write may fail at any byte. The serialiser protoc
    generates is a parameter with its documented inverse as a hypothesis.
  \<^item> \<open>Connection\<close> (\<open>Connection.hpp\<close>): one connection as a state machine. Each posted handler and
    each piece of a coroutine between two suspensions is a step, and the scheduler picks the next.
  \<^item> \<open>World\<close>, \<open>World_Service\<close>, \<open>Message_Handler\<close> (\<open>server/src/game\<close>, \<open>ServerMessageHandler.cpp\<close>):
    the world, who plays in it, and the answers; the service refines an abstract one.
  \<^item> \<open>Server\<close> (\<open>ServerConnectionManager.cpp\<close>, \<open>TcpServer.cpp\<close>, \<open>main.cpp\<close>): the connection objects,
    the manager that holds them, the accept loop and the handlers together.
  \<^item> \<open>Request_Manager\<close>, \<open>Client\<close>, \<open>Client_Requests\<close> (\<open>ClientRequestManager.cpp\<close>,
    \<open>ConnectionManager.cpp\<close>, \<open>Client.cpp\<close>): the client on its strand: connecting, disconnecting,
    requests, their time-outs and responses.
  \<^item> \<open>End_To_End\<close>: the handler of the server against the request manager of the client. \<open>Streams\<close>:
    what one step of either program does to the messages its connections carry. \<open>System\<close>: the two
    programs together, one server and any number of clients whose connections a wiring joins,
    with a network that delivers in order; a run of the system is a run of each of its parts.
  \<^item> \<open>Event_Bus\<close> (\<open>SubscribersStorage.hpp\<close>, \<open>SyncEventBus.hpp\<close>, \<open>AsyncEventBus.hpp\<close>).
  \<^item> \<open>Network_Component\<close> (\<open>NetworkComponent.cpp\<close>): the two threads of the client as interleaved
    steps. \<open>State_Stack\<close> (\<open>StateManager.cpp\<close>, \<open>UiComponent.cpp\<close>): the stack of application states.
    \<open>Console\<close> (\<open>ClientConsoleState.cpp\<close>, \<open>ConnectionPanel.cpp\<close>, \<open>EventLogPanel.cpp\<close>): the only
    state there is, with \<open>Style\<close> (\<open>Style.cpp\<close>) and \<open>Layout\<close> (the widgets the constructors make).
    \<open>Rendering\<close> (\<open>RenderComponent.cpp\<close>): what a frame draws. \<open>Application\<close> (\<open>Application.cpp\<close>,
    \<open>main.cpp\<close>): the loop that runs them, with the worker.
  \<^item> \<open>Program\<close>: the server program and any number of client programs with their user interfaces;
    its runs are runs of \<open>System\<close>, and what an event log shows is traced to the server.
  \<^item> \<open>Wire\<close> and \<open>Wire_Program\<close>: the network of \<open>System\<close> and of \<open>Program\<close> taken down to bytes. A read
    is a call of \<open>readMessage\<close> on the bytes that have arrived, a write a call of \<open>writeMessage\<close>
    whose bytes go out in any pieces and may break off; every run over bytes is a run of
    \<open>Program\<close>, so all that is proved of it holds over bytes. \<open>Progress\<close>: schedules of one pair of
    connections, by which every request that was sent comes to be answered.
  \<^item> \<open>Logger\<close> (\<open>logger.hpp\<close>): the short file name, the one logger and its messages. \<open>Vec\<close>
    (\<open>Vec.hpp\<close>): the vectors, which only the tests use.

  \<^bold>\<open>State and operations.\<close> A class is a record with the names of its members (a prefix where two
  classes share one), a member function a definition on it that returns the new record, with
  its exception or result. Members that only a proof looks at (what was delivered, written,
  drained, called) are named in the text before the record. Objects that are shared are indices
  into a heap (\<open>srv_heap\<close>, \<open>cl_conns\<close>); a reference that is never removed stands for shared
  ownership. A coroutine is cut at its suspensions, and its local variables are a record.

  \<^bold>\<open>What the lemmas show.\<close> Each component has an invariant and a lemma per operation that
  preserves it (\<open>conn_inv\<close>, \<open>world_ok\<close>, \<open>service_ok\<close>, \<open>server_inv\<close>, \<open>link_inv\<close>, \<open>table_inv\<close>,
  \<open>ids_inv\<close>, \<open>response_inv\<close>, \<open>storage_ok\<close>, \<open>results_inv\<close>, \<open>stack_ok\<close>, \<open>console_ok\<close>, \<open>app_inv\<close>).
  On these rest the properties, marked C1 to C40 where they stand: the programs joined by bytes
  behave as over a network of whole messages (\<open>wires_ok\<close>); a snapshot or a pong in
  a client's event log is a world of the server or a press of the button; in the whole system the
  responses a client reads answer its requests in order, a ping returns its own time stamp and a
  snapshot is a world the server had since the request; the answers of the server
  come back in order and reach the calls that asked for them; messages are neither lost nor
  reordered on a connection, which closes once; players and open connections correspond; calls
  of \<open>sendRequest\<close> and \<open>disconnect\<close> can always come to their end, and as long as both ends are open
  every request can still be answered; every result of a call reaches
  the event log; and the limits at which parts of the program stop working.

  \<^bold>\<open>Bounds and fuel.\<close> Identifiers of requests are 64 bits wide: properties of requests speak of
  runs of fewer than \<open>2 ^ 64\<close> events. Identifiers of connections are 16 and of players 8 bits wide;
  what happens when they run out is part of the model. Coordinates are \<open>int\<close> with undefined
  overflow. Publishing on an event bus may call itself through its callbacks for ever, so it has
  fuel, and \<open>None\<close> is a run that is longer; without such calls the fuel of the theorems, one more
  than the callbacks or events, is enough. All other functions are total.

  \<^bold>\<open>Not modelled.\<close> The set-up of the acceptor and of signals, and the parsing of addresses, are
  calls of the operating system. The code protoc generates and the JSON library's \<open>dump\<close> are not
  in the repository: they are parameters; of the serialiser \<open>build_ok\<close> says that it is parsed
  back and makes fewer than \<open>2 ^ 31\<close> bytes, as protobuf documents. The calls of the logger are left out of the operations
  that make them, for nothing depends on them; the logger is modelled by itself. Of the graphics
  library the model has the calls that are made, in their order, and whether the window is open;
  label sizes, the scroll bar and the time of a frame, which no state looks at, are left out. The
  hash of connection identifiers does not show, for the order in which an unordered map is
  traversed is left open.
\<close>

end
